theory Spec2Isabelle
  imports Main "HOL-Library.Word" "HOL-Library.Monad_Syntax"
begin

unbundle bit_operations_syntax

section \<open>Constants\<close>

text \<open>The outcome codes and opcodes of \<^verbatim>\<open>include/aio.h\<close>.\<close>

definition AIO_CANCELED :: int where "AIO_CANCELED = 0"
definition AIO_NOTCANCELED :: int where "AIO_NOTCANCELED = 1"
definition AIO_ALLDONE :: int where "AIO_ALLDONE = 2"

definition LIO_READ :: int where "LIO_READ = 0"
definition LIO_WRITE :: int where "LIO_WRITE = 1"

text \<open>
  \<^verbatim>\<open>aio.c\<close> uses constants of \<^verbatim>\<open>errno.h\<close>, \<^verbatim>\<open>fcntl.h\<close> and \<^verbatim>\<open>signal.h\<close>, whose values
  depend on the target and are not part of the sources at hand. They are a parameter
  \<open>K\<close> of every function that uses one. \<open>int\<close> values that hold an error number are
  32-bit words; \<open>int\<close> values that are only stored and compared (opcodes, \<open>running\<close>,
  reference counts, \<open>ssize_t\<close> results) are mathematical integers.
\<close>

record sys_consts =
  EBADF :: "32 word"
  EAGAIN :: "32 word"
  EINVAL :: "32 word"
  ENOENT :: "32 word"
  ECANCELED :: "32 word"
  EINPROGRESS :: "32 word"
  O_SYNC :: int
  O_DSYNC :: int
  SIGEV_SIGNAL :: int
  SIGEV_THREAD :: int
  MINSIGSTKSZ :: nat

section \<open>Data model\<close>

type_synonym tptr = nat   \<comment> \<open>address of a \<open>struct aio_thread\<close> (on its worker's stack)\<close>
type_synonym qptr = nat   \<comment> \<open>address of a \<open>struct aio_queue\<close>\<close>
type_synonym cbptr = nat  \<comment> \<open>address of a \<open>struct aiocb\<close>\<close>

record sigevent =
  sigev_notify :: int
  sigev_signo :: int
  sigev_value :: int
  sigev_notify_attributes :: "nat option"

text \<open>\<open>struct aiocb\<close>: the members the core reads or writes; \<open>cb_err\<close> and \<open>cb_ret\<close> are
  \<^verbatim>\<open>__err\<close> and \<^verbatim>\<open>__ret\<close>.\<close>

record aiocb =
  aio_fildes :: "32 word"
  aio_buf :: nat
  aio_nbytes :: nat
  aio_offset :: int
  aio_sigevent :: sigevent
  cb_err :: "32 word"
  cb_ret :: int

text \<open>\<open>struct aio_thread\<close>. A null pointer is \<open>None\<close>.\<close>

record aio_thread =
  at_td :: tptr
  at_cb :: cbptr
  at_next :: "tptr option"
  at_prev :: "tptr option"
  at_q :: qptr
  at_running :: int
  at_err :: "32 word"
  at_op :: int
  at_ret :: int

text \<open>\<open>struct aio_queue\<close>; the mutex and the condition variable appear in the trace of
  synchronisation actions below.\<close>

record aio_queue =
  q_fd :: "32 word"
  q_seekable :: bool
  q_append :: bool
  q_ref :: int
  q_init :: bool
  q_head :: "tptr option"

record aio_args =
  args_cb :: cbptr
  args_q :: qptr
  args_op :: int

text \<open>The locals \<open>fd\<close>, \<open>buf\<close>, \<open>len\<close>, \<open>off\<close> of \<open>io_thread_func\<close>.\<close>

record io_locals =
  io_fd :: "32 word"
  io_buf :: nat
  io_len :: nat
  io_off :: int

datatype syscall =
    Sys_write "32 word" nat nat
  | Sys_pwrite "32 word" nat nat int
  | Sys_read "32 word" nat nat
  | Sys_pread "32 word" nat nat int
  | Sys_fsync "32 word"
  | Sys_fdatasync "32 word"

datatype thread_attr = Attr_caller nat | Attr_init | Attr_aio nat

text \<open>What a function does beyond updating memory: locking, waking, I/O, signalling,
  and the stores to the words that other threads watch, in program order.\<close>

datatype action =
    Rdlock | Wrlock | Rwunlock
  | Mutex_lock qptr | Mutex_unlock qptr
  | Cond_wait qptr | Cond_broadcast qptr
  | Sigmask_block | Sigmask_restore
  | Sem_post | Sem_wait
  | Store_ret cbptr int
  | Store_err cbptr "32 word"
  | Copy_ret tptr cbptr int
  | Swap_running tptr int int
  | Swap_err tptr cbptr "32 word" "32 word"
  | Swap_fut int int
  | Wake_running tptr | Wake_err cbptr | Wake_fut
  | Cas_running tptr int
  | Pthread_cancel tptr
  | Wait_running tptr
  | Unlink tptr
  | Free_queue qptr
  | Pthread_create thread_attr aio_args
  | Io_issue tptr syscall
  | Io_return tptr int "32 word"
  | Sigqueue int int
  | Clear_cancel
  | Notify_function int

text \<open>The directory \<open>map\<close> is a four-level table: a level is an array of pointers, each
  null or pointing to the next level; the leaves point to queues. The state holds the
  globals of \<^verbatim>\<open>aio.c\<close>, the objects on the heap, the \<open>errno\<close> of the running thread and
  the trace.\<close>

record aio_state =
  aio_map :: "(int \<rightharpoonup> 8 word \<rightharpoonup> 8 word \<rightharpoonup> 8 word \<rightharpoonup> qptr) option"
  aio_fd_cnt :: int
  aio_fut :: int
  io_thread_stack_size :: nat
  queues :: "qptr \<rightharpoonup> aio_queue"
  threads :: "tptr \<rightharpoonup> aio_thread"
  cbs :: "cbptr \<rightharpoonup> aiocb"
  errno :: "32 word"
  trace :: "action list"

definition emits :: "action list \<Rightarrow> aio_state \<Rightarrow> aio_state" where
  "emits as s = s\<lparr>trace := trace s @ as\<rparr>"

section \<open>Descriptor directory\<close>

text \<open>The indices \<open>a\<close>, \<open>b\<close>, \<open>c\<close>, \<open>d\<close> computed from \<open>fd\<close>: \<open>a = fd>>24\<close> is an \<open>int\<close>
  (an arithmetic shift), the others are \<open>unsigned char\<close>.\<close>

definition map_index :: "32 word \<Rightarrow> int \<times> 8 word \<times> 8 word \<times> 8 word" where
  "map_index fd = (sint (signed_drop_bit 24 fd), ucast (signed_drop_bit 16 fd),
                   ucast (signed_drop_bit 8 fd), ucast fd)"

text \<open>The chain \<^verbatim>\<open>!map || !map[a] || !map[a][b] || !map[a][b][c] || !(q=map[a][b][c][d])\<close>:
  the queue found, or null.\<close>

definition map_lookup :: "aio_state \<Rightarrow> 32 word \<Rightarrow> qptr option" where
  "map_lookup s fd =
     (case map_index fd of (a, b, c, d) \<Rightarrow>
        (case aio_map s of None \<Rightarrow> None | Some m \<Rightarrow>
        (case m a of None \<Rightarrow> None | Some ma \<Rightarrow>
        (case ma b of None \<Rightarrow> None | Some mab \<Rightarrow>
        (case mab c of None \<Rightarrow> None | Some mabc \<Rightarrow> mabc d)))))"

text \<open>What \<open>__aio_get_queue\<close> asks of its environment: the result of
  \<^verbatim>\<open>fcntl(fd, F_GETFD)\<close> (\<open>None\<close> when it succeeds, the \<open>errno\<close> when it fails), the value
  of \<^verbatim>\<open>__getauxval(AT_MINSIGSTKSZ)\<close>, whether the \<open>k\<close>-th level's \<open>calloc\<close> succeeds (level 4
  is the queue itself), the \<open>errno\<close> a failing \<open>calloc\<close> leaves, and the address a
  successful \<open>calloc\<close> gives the queue.\<close>

record getq_env =
  fcntl_getfd :: "32 word option"
  getauxval :: nat
  calloc_ok :: "nat \<Rightarrow> bool"
  calloc_errno :: "32 word"
  new_queue :: qptr

text \<open>\<^verbatim>\<open>if (!p) p = calloc(...)\<close> for a level of the table.\<close>

definition calloc_level :: "getq_env \<Rightarrow> nat \<Rightarrow> ('k \<rightharpoonup> 'v) option \<Rightarrow> ('k \<rightharpoonup> 'v) option" where
  "calloc_level env k p =
     (case p of Some t \<Rightarrow> Some t
      | None \<Rightarrow> if calloc_ok env k then Some Map.empty else None)"

text \<open>Lines 168 to 189 of \<open>__aio_get_queue\<close>, run under the write lock: the stack size,
  the levels, the queue. A level that was allocated stays in the table when a later
  \<open>calloc\<close> fails.\<close>

definition get_queue_alloc ::
  "sys_consts \<Rightarrow> getq_env \<Rightarrow> 32 word \<Rightarrow> aio_state \<Rightarrow> qptr option \<times> aio_state" where
  "get_queue_alloc K env fd s0 =
     (case map_index fd of (a, b, c, d) \<Rightarrow>
      let s1 = (if io_thread_stack_size s0 = 0
                then s0\<lparr>io_thread_stack_size := max (MINSIGSTKSZ K + 2048) (getauxval env + 512)\<rparr>
                else s0) in
      (case calloc_level env 0 (aio_map s1) of
         None \<Rightarrow> (None, s1\<lparr>errno := calloc_errno env\<rparr>)
       | Some m \<Rightarrow>
      (case calloc_level env 1 (m a) of
         None \<Rightarrow> (None, s1\<lparr>aio_map := Some m, errno := calloc_errno env\<rparr>)
       | Some ma \<Rightarrow>
      (case calloc_level env 2 (ma b) of
         None \<Rightarrow> (None, s1\<lparr>aio_map := Some (m(a \<mapsto> ma)), errno := calloc_errno env\<rparr>)
       | Some mab \<Rightarrow>
      (case calloc_level env 3 (mab c) of
         None \<Rightarrow> (None, s1\<lparr>aio_map := Some (m(a \<mapsto> ma(b \<mapsto> mab))),
                           errno := calloc_errno env\<rparr>)
       | Some mabc \<Rightarrow>
      (case mabc d of
         Some q \<Rightarrow> (Some q, s1\<lparr>aio_map := Some (m(a \<mapsto> ma(b \<mapsto> mab(c \<mapsto> mabc))))\<rparr>)
       | None \<Rightarrow>
          if calloc_ok env 4
          then (Some (new_queue env),
                s1\<lparr>aio_map := Some (m(a \<mapsto> ma(b \<mapsto> mab(c \<mapsto> mabc(d \<mapsto> new_queue env))))),
                   queues := (queues s1)(new_queue env \<mapsto>
                      \<lparr>q_fd = fd, q_seekable = False, q_append = False, q_ref = 0,
                       q_init = False, q_head = None\<rparr>),
                   aio_fd_cnt := aio_fd_cnt s1 + 1\<rparr>)
          else (None, s1\<lparr>aio_map := Some (m(a \<mapsto> ma(b \<mapsto> mab(c \<mapsto> mabc)))),
                         errno := calloc_errno env\<rparr>)))))))"

text \<open>\<open>__aio_get_queue(fd, need)\<close>: the queue, locked, or null.\<close>

definition aio_get_queue ::
  "sys_consts \<Rightarrow> getq_env \<Rightarrow> 32 word \<Rightarrow> bool \<Rightarrow> aio_state \<Rightarrow> qptr option \<times> aio_state" where
  "aio_get_queue K env fd need s =
     (if sint fd < 0 then (None, s\<lparr>errno := EBADF K\<rparr>)
      else
        let s1 = emits [Rdlock] s; q0 = map_lookup s1 fd in
        if q0 = None \<and> need then
          (let s2 = emits [Rwunlock] s1 in
           case fcntl_getfd env of
             Some e \<Rightarrow> (None, s2\<lparr>errno := e\<rparr>)
           | None \<Rightarrow>
              (case get_queue_alloc K env fd (emits [Sigmask_block, Wrlock] s2) of
                 (Some q, s3) \<Rightarrow> (Some q, emits [Mutex_lock q, Rwunlock, Sigmask_restore] s3)
               | (None, s3) \<Rightarrow> (None, emits [Rwunlock, Sigmask_restore] s3)))
        else
          (case q0 of
             Some q \<Rightarrow> (Some q, emits [Mutex_lock q, Rwunlock] s1)
           | None \<Rightarrow> (None, emits [Rwunlock] s1)))"

text \<open>\<open>__aio_unref_queue\<close>, entered with the queue locked. \<open>unref_fast\<close> is lines 207 to
  216 and tells whether it returned; \<open>unref_slow\<close> is the rest, from taking the write
  lock. Between the two the function holds no lock, and whatever the other threads do
  then is the state transformer \<open>others\<close>. Following a pointer to no object, or to a
  level that is not there, is \<open>None\<close>.\<close>

definition unref_fast :: "qptr \<Rightarrow> aio_state \<Rightarrow> (bool \<times> aio_state) option" where
  "unref_fast qp s = do {
     q \<leftarrow> queues s qp;
     if q_ref q > 1
     then Some (True, emits [Mutex_unlock qp] (s\<lparr>queues := (queues s)(qp \<mapsto> q\<lparr>q_ref := q_ref q - 1\<rparr>)\<rparr>))
     else Some (False, emits [Mutex_unlock qp] s) }"

definition unref_slow :: "qptr \<Rightarrow> aio_state \<Rightarrow> aio_state option" where
  "unref_slow qp s0 = do {
     let s = emits [Wrlock, Mutex_lock qp] s0;
     q \<leftarrow> queues s qp;
     if q_ref q = 1 then
       (case map_index (q_fd q) of (a, b, c, d) \<Rightarrow> do {
          m \<leftarrow> aio_map s;
          ma \<leftarrow> m a;
          mab \<leftarrow> ma b;
          mabc \<leftarrow> mab c;
          Some (emits [Rwunlock, Mutex_unlock qp, Free_queue qp]
                 (s\<lparr>aio_map := Some (m(a \<mapsto> ma(b \<mapsto> mab(c \<mapsto> mabc(d := None))))),
                    aio_fd_cnt := aio_fd_cnt s - 1,
                    queues := (queues s)(qp := None)\<rparr>)) })
     else Some (emits [Rwunlock, Mutex_unlock qp]
                 (s\<lparr>queues := (queues s)(qp \<mapsto> q\<lparr>q_ref := q_ref q - 1\<rparr>)\<rparr>)) }"

definition aio_unref_queue :: "(aio_state \<Rightarrow> aio_state) \<Rightarrow> qptr \<Rightarrow> aio_state \<Rightarrow> aio_state option" where
  "aio_unref_queue others qp s = do {
     (returned, s1) \<leftarrow> unref_fast qp s;
     if returned then Some s1 else unref_slow qp (others s1) }"

text \<open>The invariant of a queue that is allocated: the directory leads to it, at the
  slot of its descriptor, exactly when its reference count is positive.\<close>

definition queue_inv :: "aio_state \<Rightarrow> qptr \<Rightarrow> bool" where
  "queue_inv s qp =
     (case queues s qp of
        None \<Rightarrow> True
      | Some q \<Rightarrow> (map_lookup s (q_fd q) = Some qp) = (0 < q_ref q))"

section \<open>Worker cleanup\<close>

text \<open>Lines 248 to 267 of \<open>cleanup\<close>: the copy of the notification descriptor, the result
  slot, and the three swaps, each with its wake. \<open>a_swap\<close> returns the value it replaces.\<close>

definition cleanup_wake :: "sys_consts \<Rightarrow> tptr \<Rightarrow> aio_state \<Rightarrow> (sigevent \<times> aio_state) option" where
  "cleanup_wake K t s = do {
     a \<leftarrow> threads s t;
     c \<leftarrow> cbs s (at_cb a);
     let sev = aio_sigevent c;
     let s1 = emits [Copy_ret t (at_cb a) (at_ret a)]
                (s\<lparr>cbs := (cbs s)(at_cb a \<mapsto> c\<lparr>cb_ret := at_ret a\<rparr>)\<rparr>);
     let s2 = emits (Swap_running t (at_running a) 0 #
                     (if at_running a < 0 then [Wake_running t] else []))
                (s1\<lparr>threads := (threads s1)(t \<mapsto> a\<lparr>at_running := 0\<rparr>)\<rparr>);
     c2 \<leftarrow> cbs s2 (at_cb a);
     let s3 = emits (Swap_err t (at_cb a) (cb_err c2) (at_err a) #
                     (if cb_err c2 \<noteq> EINPROGRESS K then [Wake_err (at_cb a)] else []))
                (s2\<lparr>cbs := (cbs s2)(at_cb a \<mapsto> c2\<lparr>cb_err := at_err a\<rparr>)\<rparr>);
     let s4 = emits (Swap_fut (aio_fut s3) 0 # (if aio_fut s3 \<noteq> 0 then [Wake_fut] else []))
                (s3\<lparr>aio_fut := 0\<rparr>);
     Some (sev, s4) }"

text \<open>The actions of \<open>cleanup_wake\<close>, for a worker record \<open>a\<close> at \<open>t\<close>, its handle \<open>c\<close> and
  the value \<open>fut\<close> of \<^verbatim>\<open>__aio_fut\<close>.\<close>

definition wake_actions :: "sys_consts \<Rightarrow> tptr \<Rightarrow> aio_thread \<Rightarrow> aiocb \<Rightarrow> int \<Rightarrow> action list" where
  "wake_actions K t a c fut =
     [Copy_ret t (at_cb a) (at_ret a), Swap_running t (at_running a) 0] @
     (if at_running a < 0 then [Wake_running t] else []) @
     [Swap_err t (at_cb a) (cb_err c) (at_err a)] @
     (if cb_err c \<noteq> EINPROGRESS K then [Wake_err (at_cb a)] else []) @
     [Swap_fut fut 0] @
     (if fut \<noteq> 0 then [Wake_fut] else [])"

text \<open>Lines 271 to 273: the worker leaves the doubly linked list.\<close>

definition unlink :: "tptr \<Rightarrow> aio_state \<Rightarrow> aio_state option" where
  "unlink t s = do {
     a \<leftarrow> threads s t;
     s1 \<leftarrow> (case at_next a of
              None \<Rightarrow> Some s
            | Some n \<Rightarrow> do {
                an \<leftarrow> threads s n;
                Some (s\<lparr>threads := (threads s)(n \<mapsto> an\<lparr>at_prev := at_prev a\<rparr>)\<rparr>) });
     a1 \<leftarrow> threads s1 t;
     s2 \<leftarrow> (case at_prev a1 of
              Some p \<Rightarrow> do {
                ap \<leftarrow> threads s1 p;
                Some (s1\<lparr>threads := (threads s1)(p \<mapsto> ap\<lparr>at_next := at_next a1\<rparr>)\<rparr>) }
            | None \<Rightarrow> do {
                q \<leftarrow> queues s1 (at_q a1);
                Some (s1\<lparr>queues := (queues s1)(at_q a1 \<mapsto> q\<lparr>q_head := at_next a1\<rparr>)\<rparr>) });
     Some (emits [Unlink t] s2) }"

text \<open>Lines 269 to 276 and the first part of \<open>__aio_unref_queue\<close>.\<close>

definition cleanup_unlink :: "tptr \<Rightarrow> aio_state \<Rightarrow> (bool \<times> aio_state) option" where
  "cleanup_unlink t s = do {
     a \<leftarrow> threads s t;
     s1 \<leftarrow> unlink t (emits [Mutex_lock (at_q a)] s);
     unref_fast (at_q a) (emits [Cond_broadcast (at_q a)] s1) }"

text \<open>Lines 280 to 293: the notification, from the copy \<open>sev\<close>.\<close>

definition sigev_actions :: "sys_consts \<Rightarrow> sigevent \<Rightarrow> action list" where
  "sigev_actions K sev =
     (if sigev_notify sev = SIGEV_SIGNAL K then [Sigqueue (sigev_signo sev) (sigev_value sev)] else []) @
     (if sigev_notify sev = SIGEV_THREAD K then [Clear_cancel, Notify_function (sigev_value sev)] else [])"

definition cleanup_notify :: "sys_consts \<Rightarrow> sigevent \<Rightarrow> aio_state \<Rightarrow> aio_state" where
  "cleanup_notify K sev s = emits (sigev_actions K sev) s"

text \<open>\<open>cleanup\<close> as a whole; \<open>others\<close> is what the other threads do while
  \<open>__aio_unref_queue\<close> holds no lock.\<close>

definition cleanup :: "sys_consts \<Rightarrow> (aio_state \<Rightarrow> aio_state) \<Rightarrow> tptr \<Rightarrow> aio_state \<Rightarrow> aio_state option" where
  "cleanup K others t s = do {
     (sev, s1) \<leftarrow> cleanup_wake K t s;
     a \<leftarrow> threads s1 t;
     (returned, s2) \<leftarrow> cleanup_unlink t s1;
     s3 \<leftarrow> (if returned then Some s2 else unref_slow (at_q a) (others s2));
     Some (cleanup_notify K sev s3) }"

section \<open>Worker\<close>

text \<open>Lines 322 to 331 of \<open>io_thread_func\<close>: the worker record, linked at the head.\<close>

definition link_head :: "sys_consts \<Rightarrow> tptr \<Rightarrow> aio_args \<Rightarrow> aio_state \<Rightarrow> aio_state option" where
  "link_head K t args s = do {
     q \<leftarrow> queues s (args_q args);
     let at = \<lparr>at_td = t, at_cb = args_cb args, at_next = q_head q, at_prev = None,
               at_q = args_q args, at_running = 1, at_err = ECANCELED K,
               at_op = args_op args, at_ret = - 1\<rparr>;
     s1 \<leftarrow> (case q_head q of
              None \<Rightarrow> Some s
            | Some n \<Rightarrow> do {
                an \<leftarrow> threads s n;
                Some (s\<lparr>threads := (threads s)(n \<mapsto> an\<lparr>at_prev := Some t\<rparr>)\<rparr>) });
     Some (s1\<lparr>threads := (threads s1)(t \<mapsto> at),
              queues := (queues s1)(args_q args \<mapsto> q\<lparr>q_head := Some t\<rparr>)\<rparr>) }"

text \<open>What the first worker on a queue learns of the file: whether
  \<^verbatim>\<open>lseek(fd, 0, SEEK_CUR) >= 0\<close>, and whether \<^verbatim>\<open>fcntl(fd, F_GETFL) & O_APPEND\<close> is set.\<close>

record classify_env =
  lseek_ok :: bool
  fl_append :: bool

text \<open>Lines 308 to 338: the locals, the lock, the handshake, the link, the
  classification of the file.\<close>

definition io_thread_enter ::
  "sys_consts \<Rightarrow> classify_env \<Rightarrow> tptr \<Rightarrow> aio_args \<Rightarrow> aio_state \<Rightarrow> (io_locals \<times> aio_state) option" where
  "io_thread_enter K cenv t args s = do {
     c \<leftarrow> cbs s (args_cb args);
     let loc = \<lparr>io_fd = aio_fildes c, io_buf = aio_buf c, io_len = aio_nbytes c,
                io_off = aio_offset c\<rparr>;
     s1 \<leftarrow> link_head K t args (emits [Mutex_lock (args_q args), Sem_post] s);
     q \<leftarrow> queues s1 (args_q args);
     let s2 = (if \<not> q_init q
               then s1\<lparr>queues := (queues s1)(args_q args \<mapsto>
                          q\<lparr>q_seekable := lseek_ok cenv,
                            q_append := (\<not> lseek_ok cenv \<or> fl_append cenv),
                            q_init := True\<rparr>)\<rparr>
               else s1);
     Some (loc, s2) }"

text \<open>The condition of line 343.\<close>

definition needs_sequencing :: "int \<Rightarrow> bool \<Rightarrow> bool" where
  "needs_sequencing op app = (op \<noteq> LIO_READ \<and> (op \<noteq> LIO_WRITE \<or> app))"

text \<open>The scan of line 345, \<^verbatim>\<open>for (p=at.next; p && p->op!=LIO_WRITE; p=p->next);\<close> the
  value of \<open>p\<close> when it ends. It is \<open>None\<close> when it follows a pointer to no object or
  runs round a cycle for ever.\<close>

partial_function (option) scan :: "(tptr \<rightharpoonup> aio_thread) \<Rightarrow> tptr option \<Rightarrow> tptr option option" where
  "scan h p =
     (case p of
        None \<Rightarrow> Some None
      | Some t \<Rightarrow>
         (case h t of
            None \<Rightarrow> None
          | Some a \<Rightarrow> if at_op a \<noteq> LIO_WRITE then scan h (at_next a) else Some (Some t)))"

text \<open>The switch of lines 353 to 366: the call the worker makes. An \<open>op\<close> that no case
  matches leaves \<open>ret\<close> uninitialised.\<close>

definition io_call :: "sys_consts \<Rightarrow> int \<Rightarrow> aio_queue \<Rightarrow> io_locals \<Rightarrow> syscall option" where
  "io_call K op q loc =
     (if op = LIO_WRITE then
        Some (if q_append q then Sys_write (io_fd loc) (io_buf loc) (io_len loc)
              else Sys_pwrite (io_fd loc) (io_buf loc) (io_len loc) (io_off loc))
      else if op = LIO_READ then
        Some (if \<not> q_seekable q then Sys_read (io_fd loc) (io_buf loc) (io_len loc)
              else Sys_pread (io_fd loc) (io_buf loc) (io_len loc) (io_off loc))
      else if op = O_SYNC K then Some (Sys_fsync (io_fd loc))
      else if op = O_DSYNC K then Some (Sys_fdatasync (io_fd loc))
      else None)"

text \<open>Lines 351 to 366, up to the call: the worker unlocks the queue and issues its I/O.\<close>

definition io_thread_issue :: "sys_consts \<Rightarrow> tptr \<Rightarrow> io_locals \<Rightarrow> aio_state \<Rightarrow> aio_state option" where
  "io_thread_issue K t loc s = do {
     a \<leftarrow> threads s t;
     q \<leftarrow> queues s (at_q a);
     call \<leftarrow> io_call K (at_op a) q loc;
     Some (emits [Mutex_unlock (at_q a), Io_issue t call] s) }"

text \<open>One round of the loop of lines 344 to 348, entered with the queue locked: the
  worker goes on to its I/O (\<open>True\<close>) or waits on the condition variable (\<open>False\<close>).\<close>

definition sequenced_wait :: "sys_consts \<Rightarrow> tptr \<Rightarrow> io_locals \<Rightarrow> aio_state \<Rightarrow> (bool \<times> aio_state) option" where
  "sequenced_wait K t loc s = do {
     a \<leftarrow> threads s t;
     p \<leftarrow> scan (threads s) (at_next a);
     (case p of
        None \<Rightarrow> do { s1 \<leftarrow> io_thread_issue K t loc s; Some (True, s1) }
      | Some w \<Rightarrow> Some (False, emits [Cond_wait (at_q a)] s)) }"

text \<open>Lines 343 to 366, up to the call or to the first wait.\<close>

definition io_thread_sequence :: "sys_consts \<Rightarrow> tptr \<Rightarrow> io_locals \<Rightarrow> aio_state \<Rightarrow> (bool \<times> aio_state) option" where
  "io_thread_sequence K t loc s = do {
     a \<leftarrow> threads s t;
     q \<leftarrow> queues s (at_q a);
     if needs_sequencing (at_op a) (q_append q)
     then sequenced_wait K t loc s
     else do { s1 \<leftarrow> io_thread_issue K t loc s; Some (True, s1) } }"

text \<open>Lines 367 and 368: the call returned \<open>ret\<close>, with \<open>errno\<close> \<open>e\<close> if it failed.\<close>

definition io_thread_return :: "tptr \<Rightarrow> int \<Rightarrow> 32 word \<Rightarrow> aio_state \<Rightarrow> aio_state option" where
  "io_thread_return t r e s = do {
     a \<leftarrow> threads s t;
     Some (emits [Io_return t r e]
            (s\<lparr>threads := (threads s)(t \<mapsto> a\<lparr>at_ret := r, at_err := (if r < 0 then e else 0)\<rparr>)\<rparr>)) }"

text \<open>The list of workers that a pointer leads to: \<open>chain h p ts\<close> says that following
  \<open>next\<close> from \<open>p\<close> visits exactly the records at \<open>ts\<close>, in this order, and ends at a
  null pointer. \<open>prevs h p ts\<close> says that the \<open>prev\<close> pointers of these records lead back:
  the first to \<open>p\<close>, each other to the one before it.\<close>

primrec chain :: "(tptr \<rightharpoonup> aio_thread) \<Rightarrow> tptr option \<Rightarrow> tptr list \<Rightarrow> bool" where
  "chain h p [] = (p = None)"
| "chain h p (t # ts) =
     (p = Some t \<and> (case h t of None \<Rightarrow> False | Some a \<Rightarrow> chain h (at_next a) ts))"

primrec prevs :: "(tptr \<rightharpoonup> aio_thread) \<Rightarrow> tptr option \<Rightarrow> tptr list \<Rightarrow> bool" where
  "prevs h p [] = True"
| "prevs h p (t # ts) =
     ((case h t of None \<Rightarrow> False | Some a \<Rightarrow> at_prev a = p) \<and> prevs h (Some t) ts)"

text \<open>The record at \<open>t\<close> is that of a write.\<close>

definition is_write :: "(tptr \<rightharpoonup> aio_thread) \<Rightarrow> tptr \<Rightarrow> bool" where
  "is_write h t = (case h t of None \<Rightarrow> False | Some a \<Rightarrow> at_op a = LIO_WRITE)"

section \<open>Submission\<close>

text \<open>What \<open>submit\<close> asks of its environment: the lookup's environment, and whether
  \<open>pthread_create\<close> succeeds.\<close>

record submit_env =
  getq :: getq_env
  create_ok :: bool

text \<open>Lines 407 to 417: the attributes of the worker thread.\<close>

definition worker_attr :: "sys_consts \<Rightarrow> aiocb \<Rightarrow> aio_state \<Rightarrow> thread_attr" where
  "worker_attr K c s =
     (if sigev_notify (aio_sigevent c) = SIGEV_THREAD K then
        (case sigev_notify_attributes (aio_sigevent c) of
           Some a \<Rightarrow> Attr_caller a
         | None \<Rightarrow> Attr_init)
      else Attr_aio (io_thread_stack_size s))"

text \<open>Lines 404 to 420 of \<open>submit\<close>, with the queue \<open>qp\<close> locked: the reference, the
  attributes, the signal mask and the error slot. It yields the attributes too.\<close>

definition submit_prepare ::
  "sys_consts \<Rightarrow> cbptr \<Rightarrow> qptr \<Rightarrow> aio_state \<Rightarrow> (thread_attr \<times> aio_state) option" where
  "submit_prepare K cb qp s1 = do {
     q \<leftarrow> queues s1 qp;
     let s2 = emits [Mutex_unlock qp]
                (s1\<lparr>queues := (queues s1)(qp \<mapsto> q\<lparr>q_ref := q_ref q + 1\<rparr>)\<rparr>);
     c2 \<leftarrow> cbs s2 cb;
     let attr = worker_attr K c2 s2;
     Some (attr, emits [Sigmask_block, Store_err cb (EINPROGRESS K)]
                   (s2\<lparr>cbs := (cbs s2)(cb \<mapsto> c2\<lparr>cb_err := EINPROGRESS K\<rparr>)\<rparr>)) }"

text \<open>Lines 422 to 427, when \<open>pthread_create\<close> failed. \<open>others\<close> is what the other
  threads do while \<open>__aio_unref_queue\<close> holds no lock.\<close>

definition submit_spawn_failed ::
  "sys_consts \<Rightarrow> (aio_state \<Rightarrow> aio_state) \<Rightarrow> cbptr \<Rightarrow> qptr \<Rightarrow> aio_state \<Rightarrow> (int \<times> aio_state) option" where
  "submit_spawn_failed K others cb qp s3 = do {
     s4 \<leftarrow> aio_unref_queue others qp (emits [Mutex_lock qp] s3);
     c4 \<leftarrow> cbs s4 cb;
     Some (- 1, emits [Store_err cb (EAGAIN K), Store_ret cb (- 1), Sigmask_restore]
                  (s4\<lparr>errno := EAGAIN K,
                      cbs := (cbs s4)(cb \<mapsto> c4\<lparr>cb_err := EAGAIN K, cb_ret := - 1\<rparr>)\<rparr>)) }"

text \<open>\<open>submit(cb, op)\<close>: the value returned and the state.\<close>

definition submit ::
  "sys_consts \<Rightarrow> submit_env \<Rightarrow> (aio_state \<Rightarrow> aio_state) \<Rightarrow> cbptr \<Rightarrow> int \<Rightarrow> aio_state \<Rightarrow> (int \<times> aio_state) option" where
  "submit K env others cb op s = do {
     c \<leftarrow> cbs s cb;
     (case aio_get_queue K (getq env) (aio_fildes c) True s of
        (None, s1) \<Rightarrow> do {
          let e = (if errno s1 \<noteq> EBADF K then EAGAIN K else errno s1);
          c1 \<leftarrow> cbs s1 cb;
          Some (- 1, emits [Store_ret cb (- 1), Store_err cb e]
                       (s1\<lparr>errno := e, cbs := (cbs s1)(cb \<mapsto> c1\<lparr>cb_ret := - 1, cb_err := e\<rparr>)\<rparr>)) }
      | (Some qp, s1) \<Rightarrow> do {
          (attr, s3) \<leftarrow> submit_prepare K cb qp s1;
          if create_ok env then
            Some (0, emits [Pthread_create attr \<lparr>args_cb = cb, args_q = qp, args_op = op\<rparr>,
                            Sigmask_restore, Sem_wait] s3)
          else submit_spawn_failed K others cb qp s3 }) }"

definition aio_read ::
  "sys_consts \<Rightarrow> submit_env \<Rightarrow> (aio_state \<Rightarrow> aio_state) \<Rightarrow> cbptr \<Rightarrow> aio_state \<Rightarrow> (int \<times> aio_state) option" where
  "aio_read K env others cb s = submit K env others cb LIO_READ s"

definition aio_write ::
  "sys_consts \<Rightarrow> submit_env \<Rightarrow> (aio_state \<Rightarrow> aio_state) \<Rightarrow> cbptr \<Rightarrow> aio_state \<Rightarrow> (int \<times> aio_state) option" where
  "aio_write K env others cb s = submit K env others cb LIO_WRITE s"

definition aio_fsync ::
  "sys_consts \<Rightarrow> submit_env \<Rightarrow> (aio_state \<Rightarrow> aio_state) \<Rightarrow> int \<Rightarrow> cbptr \<Rightarrow> aio_state \<Rightarrow> (int \<times> aio_state) option" where
  "aio_fsync K env others op cb s =
     (if op \<noteq> O_SYNC K \<and> op \<noteq> O_DSYNC K then Some (- 1, s\<lparr>errno := EINVAL K\<rparr>)
      else submit K env others cb op s)"

section \<open>Cancellation\<close>

text \<open>While \<open>aio_cancel\<close> waits on \<open>running\<close> it holds the queue's lock, and the worker it
  waits for runs up to the swap of that word: either its I/O call returns first
  (\<open>Some (ret, errno)\<close>) or it does not (\<open>None\<close>: the worker was cancelled in the call
  or in its wait, or the call had returned before), and then the first part of
  \<open>cleanup\<close> runs.\<close>

definition worker_reacts ::
  "sys_consts \<Rightarrow> (int \<times> 32 word) option \<Rightarrow> tptr \<Rightarrow> aio_state \<Rightarrow> aio_state option" where
  "worker_reacts K r t s = do {
     s1 \<leftarrow> (case r of None \<Rightarrow> Some s | Some (ret, e) \<Rightarrow> io_thread_return t ret e s);
     (sev, s2) \<leftarrow> cleanup_wake K t s1;
     Some s2 }"

text \<open>The loop of lines 498 to 506, from \<open>p\<close> with the current \<open>ret\<close>. \<open>a_cas\<close> returns the
  value it found; \<open>__wait\<close> returns when the word is not \<open>-1\<close>. \<open>wenv\<close> tells, for each
  worker waited for, how its I/O call ended.\<close>

partial_function (option) cancel_loop ::
  "sys_consts \<Rightarrow> (tptr \<Rightarrow> (int \<times> 32 word) option) \<Rightarrow> cbptr option \<Rightarrow> tptr option \<Rightarrow> int \<Rightarrow> aio_state
     \<Rightarrow> (int \<times> aio_state) option" where
  "cancel_loop K wenv cb p ret s =
     (case p of
        None \<Rightarrow> Some (ret, s)
      | Some t \<Rightarrow>
         (case threads s t of
            None \<Rightarrow> None
          | Some a \<Rightarrow>
             if cb \<noteq> None \<and> cb \<noteq> Some (at_cb a) then cancel_loop K wenv cb (at_next a) ret s
             else if at_running a = 0 then
               cancel_loop K wenv cb (at_next a) ret (emits [Cas_running t 0] s)
             else
               (let a1 = (if at_running a = 1 then a\<lparr>at_running := - 1\<rparr> else a);
                    s1 = emits [Cas_running t (at_running a), Pthread_cancel t, Wait_running t]
                           (s\<lparr>threads := (threads s)(t \<mapsto> a1)\<rparr>)
                in case (if at_running a1 = - 1 then worker_reacts K (wenv t) t s1 else Some s1) of
                     None \<Rightarrow> None
                   | Some s2 \<Rightarrow>
                      (case threads s2 t of
                         None \<Rightarrow> None
                       | Some a2 \<Rightarrow>
                           cancel_loop K wenv cb (at_next a2)
                             (if at_err a2 = ECANCELED K then AIO_CANCELED else ret) s2))))"

text \<open>\<open>aio_cancel(fd, cb)\<close>; \<open>cb\<close> is \<open>None\<close> for a null pointer. The lookup is made with
  \<open>need = 0\<close>.\<close>

definition aio_cancel ::
  "sys_consts \<Rightarrow> getq_env \<Rightarrow> (tptr \<Rightarrow> (int \<times> 32 word) option) \<Rightarrow> 32 word \<Rightarrow> cbptr option \<Rightarrow> aio_state
     \<Rightarrow> (int \<times> aio_state) option" where
  "aio_cancel K env wenv fd cb s = do {
     mismatch \<leftarrow> (case cb of None \<Rightarrow> Some False
                  | Some c \<Rightarrow> do { cr \<leftarrow> cbs s c; Some (fd \<noteq> aio_fildes cr) });
     if mismatch then Some (- 1, s\<lparr>errno := EINVAL K\<rparr>)
     else
       (case aio_get_queue K env fd False ((emits [Sigmask_block] s)\<lparr>errno := ENOENT K\<rparr>) of
          (None, s1) \<Rightarrow>
            Some (if errno s1 = EBADF K then - 1 else AIO_ALLDONE, emits [Sigmask_restore] s1)
        | (Some qp, s1) \<Rightarrow> do {
            q \<leftarrow> queues s1 qp;
            (ret, s2) \<leftarrow> cancel_loop K wenv cb (q_head q) AIO_ALLDONE s1;
            Some (ret, emits [Mutex_unlock qp, Sigmask_restore] s2) }) }"

text \<open>The arguments pass the check of line 484: the handle is null, or its descriptor
  is \<open>fd\<close>.\<close>

definition cancel_args_ok :: "aio_state \<Rightarrow> 32 word \<Rightarrow> cbptr option \<Rightarrow> bool" where
  "cancel_args_ok s fd cb =
     (case cb of
        None \<Rightarrow> True
      | Some c \<Rightarrow> (case cbs s c of None \<Rightarrow> False | Some cr \<Rightarrow> aio_fildes cr = fd))"

text \<open>Lines 501 and 502 alone: the compare-and-swap of \<open>running\<close> from 1 to \<open>-1\<close>, and
  the cancellation request when the word was not 0.\<close>

definition cancel_cas :: "tptr \<Rightarrow> aio_state \<Rightarrow> aio_state option" where
  "cancel_cas t s = do {
     a \<leftarrow> threads s t;
     Some (emits (Cas_running t (at_running a) # (if at_running a \<noteq> 0 then [Pthread_cancel t] else []))
            (s\<lparr>threads := (threads s)(t \<mapsto> (if at_running a = 1 then a\<lparr>at_running := - 1\<rparr> else a))\<rparr>)) }"

section \<open>Interleavings\<close>

text \<open>
  The threads of a process interleave. A worker thread is identified with the address
  of its \<open>struct aio_thread\<close>; where it stands in \<open>io_thread_func\<close> and \<open>cleanup\<close> is its
  program counter:
  \<^item> \<open>Spawned\<close>: created by \<open>submit\<close>, not yet at line 319;
  \<^item> \<open>Waiting\<close>: in \<open>pthread_cond_wait\<close> (line 347);
  \<^item> \<open>In_io\<close>: in the I/O call (lines 353 to 366);
  \<^item> \<open>At_cleanup\<close>: about to run \<open>cleanup\<close>, after the call returned or after the thread
    was cancelled in its call or in its wait;
  \<^item> \<open>Unlinking\<close>: before line 269, holding the copy of the notification descriptor;
  \<^item> \<open>Unref_pending\<close>: in \<open>__aio_unref_queue\<close>, before line 217;
  \<^item> \<open>Exited\<close>.
  A step is what one thread does between two points where it may block or be
  interleaved: a call of \<open>submit\<close> that returns 0 (up to the creation of the worker), and
  the sections of a worker delimited by the program counters. \<open>Cancel_cas\<close> is the
  compare-and-swap that \<open>aio_cancel\<close> does on a worker in the list, and \<open>Cancelled\<close> is a
  worker acting on the cancellation request in its wait or its call.
\<close>

datatype wpc =
    Spawned aio_args
  | Waiting io_locals
  | In_io
  | At_cleanup
  | Unlinking sigevent
  | Unref_pending sigevent
  | Exited

record sys =
  mem :: aio_state
  pcs :: "tptr \<rightharpoonup> wpc"

datatype event =
    Submit tptr cbptr int submit_env
  | Enter tptr classify_env
  | Wake tptr
  | Cancel_cas tptr
  | Cancelled tptr
  | Io_done tptr int "32 word"
  | Cleanup_wake tptr
  | Cleanup_unlink tptr
  | Unref_slow tptr

text \<open>The record of a worker is in its queue's list from the end of \<open>Enter\<close> to the end of
  \<open>Cleanup_unlink\<close>.\<close>

fun is_linked :: "wpc \<Rightarrow> bool" where
  "is_linked (Waiting loc) = True"
| "is_linked In_io = True"
| "is_linked At_cleanup = True"
| "is_linked (Unlinking sev) = True"
| "is_linked pc = False"

text \<open>The cancellation points of a worker are its wait and its I/O call.\<close>

fun at_cancellation_point :: "wpc \<Rightarrow> bool" where
  "at_cancellation_point (Waiting loc) = True"
| "at_cancellation_point In_io = True"
| "at_cancellation_point pc = False"

text \<open>A step is \<open>None\<close> when the event cannot happen in the state: the thread is not at
  that point, an address that is to be new is in use, the operation is not one the
  entry points pass to \<open>submit\<close>, the call does not return 0, or the code follows a
  pointer to no object.\<close>

fun step :: "sys_consts \<Rightarrow> event \<Rightarrow> sys \<Rightarrow> sys option" where
  "step K (Submit t cb op env) \<sigma> =
     (if pcs \<sigma> t \<noteq> None \<or> threads (mem \<sigma>) t \<noteq> None
         \<or> queues (mem \<sigma>) (new_queue (getq env)) \<noteq> None
         \<or> op \<notin> {LIO_READ, LIO_WRITE, O_SYNC K, O_DSYNC K}
      then None
      else do {
        c \<leftarrow> cbs (mem \<sigma>) cb;
        (r, s1) \<leftarrow> submit K env id cb op (mem \<sigma>);
        (case fst (aio_get_queue K (getq env) (aio_fildes c) True (mem \<sigma>)) of
           None \<Rightarrow> None
         | Some qp \<Rightarrow>
            if r = 0
            then Some \<lparr>mem = s1,
                       pcs = (pcs \<sigma>)(t \<mapsto> Spawned \<lparr>args_cb = cb, args_q = qp, args_op = op\<rparr>)\<rparr>
            else None) })"
| "step K (Enter t cenv) \<sigma> =
     (case pcs \<sigma> t of
        Some (Spawned args) \<Rightarrow>
          if threads (mem \<sigma>) t \<noteq> None then None
          else do {
            (loc, s1) \<leftarrow> io_thread_enter K cenv t args (mem \<sigma>);
            (go, s2) \<leftarrow> io_thread_sequence K t loc s1;
            Some \<lparr>mem = s2, pcs = (pcs \<sigma>)(t \<mapsto> (if go then In_io else Waiting loc))\<rparr> }
      | _ \<Rightarrow> None)"
| "step K (Wake t) \<sigma> =
     (case pcs \<sigma> t of
        Some (Waiting loc) \<Rightarrow> do {
          (go, s1) \<leftarrow> sequenced_wait K t loc (mem \<sigma>);
          Some \<lparr>mem = s1, pcs = (pcs \<sigma>)(t \<mapsto> (if go then In_io else Waiting loc))\<rparr> }
      | _ \<Rightarrow> None)"
| "step K (Cancel_cas t) \<sigma> =
     (case pcs \<sigma> t of
        Some pc \<Rightarrow>
          if is_linked pc then do { s1 \<leftarrow> cancel_cas t (mem \<sigma>); Some (\<sigma>\<lparr>mem := s1\<rparr>) }
          else None
      | None \<Rightarrow> None)"
| "step K (Cancelled t) \<sigma> =
     (case pcs \<sigma> t of
        Some pc \<Rightarrow>
          if at_cancellation_point pc then do {
            a \<leftarrow> threads (mem \<sigma>) t;
            if at_running a = - 1 then Some (\<sigma>\<lparr>pcs := (pcs \<sigma>)(t \<mapsto> At_cleanup)\<rparr>) else None }
          else None
      | None \<Rightarrow> None)"
| "step K (Io_done t r e) \<sigma> =
     (case pcs \<sigma> t of
        Some In_io \<Rightarrow> do {
          s1 \<leftarrow> io_thread_return t r e (mem \<sigma>);
          Some \<lparr>mem = s1, pcs = (pcs \<sigma>)(t \<mapsto> At_cleanup)\<rparr> }
      | _ \<Rightarrow> None)"
| "step K (Cleanup_wake t) \<sigma> =
     (case pcs \<sigma> t of
        Some At_cleanup \<Rightarrow> do {
          (sev, s1) \<leftarrow> cleanup_wake K t (mem \<sigma>);
          Some \<lparr>mem = s1, pcs = (pcs \<sigma>)(t \<mapsto> Unlinking sev)\<rparr> }
      | _ \<Rightarrow> None)"
| "step K (Cleanup_unlink t) \<sigma> =
     (case pcs \<sigma> t of
        Some (Unlinking sev) \<Rightarrow> do {
          (returned, s1) \<leftarrow> cleanup_unlink t (mem \<sigma>);
          Some (if returned
                then \<lparr>mem = cleanup_notify K sev s1, pcs = (pcs \<sigma>)(t \<mapsto> Exited)\<rparr>
                else \<lparr>mem = s1, pcs = (pcs \<sigma>)(t \<mapsto> Unref_pending sev)\<rparr>) }
      | _ \<Rightarrow> None)"
| "step K (Unref_slow t) \<sigma> =
     (case pcs \<sigma> t of
        Some (Unref_pending sev) \<Rightarrow> do {
          a \<leftarrow> threads (mem \<sigma>) t;
          s1 \<leftarrow> unref_slow (at_q a) (mem \<sigma>);
          Some \<lparr>mem = cleanup_notify K sev s1, pcs = (pcs \<sigma>)(t \<mapsto> Exited)\<rparr> }
      | _ \<Rightarrow> None)"

fun run :: "sys_consts \<Rightarrow> event list \<Rightarrow> sys \<Rightarrow> sys option" where
  "run K [] \<sigma> = Some \<sigma>"
| "run K (e # es) \<sigma> = (case step K e \<sigma> of None \<Rightarrow> None | Some \<sigma>' \<Rightarrow> run K es \<sigma>')"

text \<open>A process starts with its handles \<open>H\<close> and no AIO state.\<close>

definition initial :: "(cbptr \<rightharpoonup> aiocb) \<Rightarrow> sys" where
  "initial H =
     \<lparr>mem = \<lparr>aio_map = None, aio_fd_cnt = 0, aio_fut = 0, io_thread_stack_size = 0,
             queues = Map.empty, threads = Map.empty, cbs = H, errno = 0, trace = []\<rparr>,
      pcs = Map.empty\<rparr>"

section \<open>Invariants of the interleavings\<close>

text \<open>A worker holds a reference to a queue from its creation until it has released it:
  the queue of its arguments while it is \<open>Spawned\<close>, the queue of its record afterwards.
  \<open>users\<close> are the workers that hold a reference to the queue at \<open>qp\<close>, \<open>linked\<close> those
  whose record is in its list.\<close>

fun holds_ref :: "aio_state \<Rightarrow> tptr \<Rightarrow> wpc \<Rightarrow> qptr \<Rightarrow> bool" where
  "holds_ref s t (Spawned args) qp = (args_q args = qp)"
| "holds_ref s t Exited qp = False"
| "holds_ref s t pc qp = (case threads s t of None \<Rightarrow> False | Some a \<Rightarrow> at_q a = qp)"

definition users :: "sys \<Rightarrow> qptr \<Rightarrow> tptr set" where
  "users \<sigma> qp = {t. \<exists>pc. pcs \<sigma> t = Some pc \<and> holds_ref (mem \<sigma>) t pc qp}"

definition linked :: "sys \<Rightarrow> qptr \<Rightarrow> tptr set" where
  "linked \<sigma> qp =
     {t. \<exists>a pc. threads (mem \<sigma>) t = Some a \<and> at_q a = qp \<and> pcs \<sigma> t = Some pc \<and> is_linked pc}"

text \<open>The reference count of a queue is the number of its users, and a queue that is not
  allocated has none.\<close>

definition refs_inv :: "sys \<Rightarrow> bool" where
  "refs_inv \<sigma> =
     (finite (dom (pcs \<sigma>)) \<and>
      (\<forall>qp. case queues (mem \<sigma>) qp of
              None \<Rightarrow> users \<sigma> qp = {}
            | Some q \<Rightarrow> q_ref q = int (card (users \<sigma> qp))))"

text \<open>\<open>seq_ok ex wr ts\<close>: in the list \<open>ts\<close>, no element that satisfies \<open>ex\<close> has one that
  satisfies \<open>wr\<close> after it.\<close>

primrec seq_ok :: "('a \<Rightarrow> bool) \<Rightarrow> ('a \<Rightarrow> bool) \<Rightarrow> 'a list \<Rightarrow> bool" where
  "seq_ok ex wr [] = True"
| "seq_ok ex wr (t # ts) = ((ex t \<longrightarrow> (\<forall>w \<in> set ts. \<not> wr w)) \<and> seq_ok ex wr ts)"

text \<open>The worker at \<open>t\<close> is in its I/O call, and its operation is one that line 343
  sequences on the queue \<open>q\<close>.\<close>

definition sequenced_io :: "sys \<Rightarrow> aio_queue \<Rightarrow> tptr \<Rightarrow> bool" where
  "sequenced_io \<sigma> q t =
     (pcs \<sigma> t = Some In_io \<and>
      (case threads (mem \<sigma>) t of
         None \<Rightarrow> False
       | Some a \<Rightarrow> needs_sequencing (at_op a) (q_append q)))"

text \<open>\<open>queue_list \<sigma> qp q ts\<close>: \<open>ts\<close> is the list of the queue \<open>q\<close> at \<open>qp\<close>. It is well formed, holds
  the records of the linked workers of the queue, is empty until the file is classified,
  and no sequenced worker in its I/O call has a write after it in the list.\<close>

definition queue_list :: "sys \<Rightarrow> qptr \<Rightarrow> aio_queue \<Rightarrow> tptr list \<Rightarrow> bool" where
  "queue_list \<sigma> qp q ts =
     (chain (threads (mem \<sigma>)) (q_head q) ts
    \<and> prevs (threads (mem \<sigma>)) None ts
    \<and> set ts = linked \<sigma> qp
    \<and> (\<not> q_init q \<longrightarrow> ts = [])
    \<and> seq_ok (sequenced_io \<sigma> q) (is_write (threads (mem \<sigma>))) ts)"

text \<open>Every allocated queue has such a list.\<close>

definition list_inv :: "sys \<Rightarrow> bool" where
  "list_inv \<sigma> = (\<forall>qp q. queues (mem \<sigma>) qp = Some q \<longrightarrow> (\<exists>ts. queue_list \<sigma> qp q ts))"

definition sys_inv :: "sys \<Rightarrow> bool" where
  "sys_inv \<sigma> = (refs_inv \<sigma> \<and> list_inv \<sigma>)"

text \<open>A step of the worker at \<open>t\<close> is local when it leaves the worker in the list and
  changes neither a link nor a queue; if it takes the worker into its I/O call, the scan
  of the worker's successors has found no write.\<close>

definition local_step :: "tptr \<Rightarrow> sys \<Rightarrow> sys \<Rightarrow> bool" where
  "local_step t \<sigma> \<sigma>' =
     (\<exists>pc pc' a a'.
        pcs \<sigma> t = Some pc \<and> is_linked pc \<and> is_linked pc' \<and> pcs \<sigma>' = (pcs \<sigma>)(t \<mapsto> pc')
      \<and> threads (mem \<sigma>) t = Some a \<and> threads (mem \<sigma>') = (threads (mem \<sigma>))(t \<mapsto> a')
      \<and> at_next a' = at_next a \<and> at_prev a' = at_prev a \<and> at_q a' = at_q a
      \<and> at_op a' = at_op a \<and> at_cb a' = at_cb a
      \<and> queues (mem \<sigma>') = queues (mem \<sigma>)
      \<and> (pc' = In_io \<longrightarrow> pc = In_io \<or> scan (threads (mem \<sigma>)) (at_next a) = Some None))"

text \<open>Two records that differ in their links at most.\<close>

definition same_but_links :: "aio_thread \<Rightarrow> aio_thread \<Rightarrow> bool" where
  "same_but_links a b = (a\<lparr>at_next := at_next b, at_prev := at_prev b\<rparr> = b)"

subsection \<open>What a worker writes\<close>

text \<open>What the trace says of the worker at \<open>t\<close>: the values it has swapped into error
  slots (\<open>err_writes\<close>), the values it has copied into result slots (\<open>ret_writes\<close>), each
  with the handle, and the results of its I/O calls with their \<open>errno\<close> (\<open>io_results\<close>).
  \<open>spawn_args\<close> are the arguments of the threads that the trace creates.\<close>

fun err_write :: "tptr \<Rightarrow> action \<Rightarrow> (cbptr \<times> 32 word) list" where
  "err_write t (Swap_err u cb old new) = (if u = t then [(cb, new)] else [])"
| "err_write t x = []"

fun ret_write :: "tptr \<Rightarrow> action \<Rightarrow> (cbptr \<times> int) list" where
  "ret_write t (Copy_ret u cb v) = (if u = t then [(cb, v)] else [])"
| "ret_write t x = []"

fun io_result :: "tptr \<Rightarrow> action \<Rightarrow> (int \<times> 32 word) list" where
  "io_result t (Io_return u r e) = (if u = t then [(r, e)] else [])"
| "io_result t x = []"

fun spawn_arg :: "action \<Rightarrow> aio_args list" where
  "spawn_arg (Pthread_create attr args) = [args]"
| "spawn_arg x = []"

definition err_writes :: "tptr \<Rightarrow> action list \<Rightarrow> (cbptr \<times> 32 word) list" where
  "err_writes t tr = concat (map (err_write t) tr)"

definition ret_writes :: "tptr \<Rightarrow> action list \<Rightarrow> (cbptr \<times> int) list" where
  "ret_writes t tr = concat (map (ret_write t) tr)"

definition io_results :: "tptr \<Rightarrow> action list \<Rightarrow> (int \<times> 32 word) list" where
  "io_results t tr = concat (map (io_result t) tr)"

definition spawn_args :: "action list \<Rightarrow> aio_args list" where
  "spawn_args tr = concat (map spawn_arg tr)"

text \<open>The arguments a worker record was made from (lines 322 to 328).\<close>

definition args_of :: "aio_thread \<Rightarrow> aio_args" where
  "args_of a = \<lparr>args_cb = at_cb a, args_q = at_q a, args_op = at_op a\<rparr>"

text \<open>The result and the error that a worker is to publish, from the results of its I/O
  calls: \<open>-1\<close> and \<open>ECANCELED\<close> when there is none, else the value of the call, with its
  \<open>errno\<close> if the value is negative and 0 otherwise.\<close>

fun final_of :: "sys_consts \<Rightarrow> (int \<times> 32 word) list \<Rightarrow> int \<times> 32 word" where
  "final_of K [] = (- 1, ECANCELED K)"
| "final_of K ((r, e) # rs) = (r, if r < 0 then e else 0)"

text \<open>A worker that has not run the swaps of \<open>cleanup\<close> (\<open>live\<close>): its \<open>running\<close> is 1 or
  \<open>-1\<close>, its record holds the values \<open>v\<close> to publish, and it was made from the arguments of
  a created thread. A worker that has (\<open>finished\<close>): its \<open>running\<close> is 0, and it has
  written \<open>v\<close>, once, to the slots of its handle.\<close>

definition live :: "aio_thread option \<Rightarrow> int \<times> 32 word \<Rightarrow> aio_args list \<Rightarrow> bool" where
  "live ao v sp =
     (case ao of
        None \<Rightarrow> False
      | Some a \<Rightarrow> (at_running a = 1 \<or> at_running a = - 1)
                 \<and> at_ret a = fst v \<and> at_err a = snd v \<and> args_of a \<in> set sp)"

definition finished ::
  "aio_thread option \<Rightarrow> int \<times> 32 word \<Rightarrow> aio_args list \<Rightarrow>
   (cbptr \<times> 32 word) list \<Rightarrow> (cbptr \<times> int) list \<Rightarrow> bool" where
  "finished ao v sp ew rw =
     (case ao of
        None \<Rightarrow> False
      | Some a \<Rightarrow> at_running a = 0 \<and> at_ret a = fst v \<and> at_err a = snd v
                 \<and> args_of a \<in> set sp
                 \<and> ew = [(at_cb a, snd v)] \<and> rw = [(at_cb a, fst v)])"

text \<open>What holds of a worker at each program counter, given its record, the created
  threads \<open>sp\<close>, and its I/O results \<open>io\<close> and writes \<open>ew\<close> and \<open>rw\<close> in the trace.\<close>

fun worker_ok ::
  "sys_consts \<Rightarrow> aio_thread option \<Rightarrow> wpc \<Rightarrow> aio_args list \<Rightarrow> (int \<times> 32 word) list \<Rightarrow>
   (cbptr \<times> 32 word) list \<Rightarrow> (cbptr \<times> int) list \<Rightarrow> bool" where
  "worker_ok K ao (Spawned args) sp io ew rw = (args \<in> set sp \<and> io = [] \<and> ew = [] \<and> rw = [])"
| "worker_ok K ao (Waiting loc) sp io ew rw =
     (io = [] \<and> ew = [] \<and> rw = [] \<and> live ao (final_of K []) sp)"
| "worker_ok K ao In_io sp io ew rw =
     (io = [] \<and> ew = [] \<and> rw = [] \<and> live ao (final_of K []) sp)"
| "worker_ok K ao At_cleanup sp io ew rw =
     (length io \<le> 1 \<and> ew = [] \<and> rw = [] \<and> live ao (final_of K io) sp)"
| "worker_ok K ao pc sp io ew rw = (length io \<le> 1 \<and> finished ao (final_of K io) sp ew rw)"

definition worker_at :: "sys_consts \<Rightarrow> sys \<Rightarrow> tptr \<Rightarrow> bool" where
  "worker_at K \<sigma> t =
     (case pcs \<sigma> t of
        None \<Rightarrow> io_results t (trace (mem \<sigma>)) = [] \<and> err_writes t (trace (mem \<sigma>)) = []
                \<and> ret_writes t (trace (mem \<sigma>)) = []
      | Some pc \<Rightarrow> worker_ok K (threads (mem \<sigma>) t) pc (spawn_args (trace (mem \<sigma>)))
                     (io_results t (trace (mem \<sigma>)))
                     (err_writes t (trace (mem \<sigma>))) (ret_writes t (trace (mem \<sigma>))))"

definition worker_inv :: "sys_consts \<Rightarrow> sys \<Rightarrow> bool" where
  "worker_inv K \<sigma> = (\<forall>t. worker_at K \<sigma> t)"

text \<open>Actions that say nothing of the worker at \<open>t\<close>, and records that agree on all but
  the links.\<close>

definition quiet :: "tptr \<Rightarrow> action list \<Rightarrow> bool" where
  "quiet t xs = (io_results t xs = [] \<and> err_writes t xs = [] \<and> ret_writes t xs = [])"

definition same_results :: "aio_thread \<Rightarrow> aio_thread \<Rightarrow> bool" where
  "same_results a b =
     (at_running b = at_running a \<and> at_ret b = at_ret a \<and> at_err b = at_err a
      \<and> at_cb b = at_cb a \<and> at_q b = at_q a \<and> at_op b = at_op a)"


section \<open>Status and return\<close>

text \<open>\<open>aio_return\<close> and \<open>aio_error\<close>; dereferencing a pointer to no object is \<open>None\<close>.\<close>

definition aio_return :: "aio_state \<Rightarrow> cbptr \<Rightarrow> int option" where
  "aio_return s cb = do { c \<leftarrow> cbs s cb; Some (cb_ret c) }"

definition aio_error :: "aio_state \<Rightarrow> cbptr \<Rightarrow> 32 word option" where
  "aio_error s cb = do { c \<leftarrow> cbs s cb; Some (cb_err c AND 0x7fffffff) }"

section \<open>Concrete instances\<close>

text \<open>The values of the constants on Linux with the generic ABI, for the examples.\<close>

definition linux_consts :: sys_consts where
  "linux_consts =
     \<lparr>EBADF = 9, EAGAIN = 11, EINVAL = 22, ENOENT = 2, ECANCELED = 125, EINPROGRESS = 115,
      O_SYNC = 1052672, O_DSYNC = 4096, SIGEV_SIGNAL = 0, SIGEV_THREAD = 2,
      MINSIGSTKSZ = 2048\<rparr>"

text \<open>The state of a process that has not used AIO, and the same with three handles for
  descriptor 5, at addresses 1, 2 and 3.\<close>

definition state0 :: aio_state where
  "state0 =
     \<lparr>aio_map = None, aio_fd_cnt = 0, aio_fut = 0, io_thread_stack_size = 0,
      queues = Map.empty, threads = Map.empty, cbs = Map.empty, errno = 0, trace = []\<rparr>"

definition handle5 :: aiocb where
  "handle5 =
     \<lparr>aio_fildes = 5, aio_buf = 4096, aio_nbytes = 100, aio_offset = 0,
      aio_sigevent = \<lparr>sigev_notify = 1, sigev_signo = 0, sigev_value = 0,
                      sigev_notify_attributes = None\<rparr>,
      cb_err = 0, cb_ret = 0\<rparr>"

definition state1 :: aio_state where
  "state1 = state0\<lparr>cbs := [1 \<mapsto> handle5, 2 \<mapsto> handle5, 3 \<mapsto> handle5]\<rparr>"

text \<open>An environment in which nothing fails, and one in which descriptor-status probes
  report a bad descriptor.\<close>

definition env_ok :: getq_env where
  "env_ok = \<lparr>fcntl_getfd = None, getauxval = 0, calloc_ok = (\<lambda>k. True), calloc_errno = 12,
             new_queue = 1\<rparr>"

definition env_badfd :: getq_env where
  "env_badfd = env_ok\<lparr>fcntl_getfd := Some 9\<rparr>"

text \<open>A run on descriptor 5, a file opened for appending: the handle at address 1 is
  submitted as a write (\<open>run_submitted\<close>), its worker, whose record is at address 10,
  links itself and classifies the file (\<open>run_entered\<close>), and issues its I/O
  (\<open>run_in_io\<close>).\<close>

definition senv_ok :: submit_env where
  "senv_ok = \<lparr>getq = env_ok, create_ok = True\<rparr>"

definition cenv_append :: classify_env where
  "cenv_append = \<lparr>lseek_ok = True, fl_append = True\<rparr>"

definition locals5 :: io_locals where
  "locals5 = \<lparr>io_fd = 5, io_buf = 4096, io_len = 100, io_off = 0\<rparr>"

definition run_submitted :: aio_state where
  "run_submitted = snd (the (submit linux_consts senv_ok id 1 LIO_WRITE state1))"

definition run_entered :: aio_state where
  "run_entered =
     snd (the (io_thread_enter linux_consts cenv_append 10
                 \<lparr>args_cb = 1, args_q = 1, args_op = LIO_WRITE\<rparr> run_submitted))"

definition run_in_io :: aio_state where
  "run_in_io = snd (the (io_thread_sequence linux_consts 10 locals5 run_entered))"

text \<open>The I/O call of the run returns 100, and \<open>cleanup\<close> is about to start.\<close>

definition run_done :: aio_state where
  "run_done = the (io_thread_return 10 100 0 run_in_io)"

text \<open>An interleaving on descriptor 5, opened for appending: a write is submitted, its
  worker (at 10) enters and issues its I/O; a data sync is submitted and its worker (at
  11) waits behind the write; a second write is submitted.\<close>

definition senv_ok2 :: submit_env where
  "senv_ok2 = \<lparr>getq = env_ok\<lparr>new_queue := 2\<rparr>, create_ok = True\<rparr>"

definition handles3 :: "cbptr \<rightharpoonup> aiocb" where
  "handles3 = [1 \<mapsto> handle5, 2 \<mapsto> handle5, 3 \<mapsto> handle5]"

definition sync_waits :: "event list" where
  "sync_waits =
     [Submit 10 1 LIO_WRITE senv_ok, Enter 10 cenv_append,
      Submit 11 2 (O_DSYNC linux_consts) senv_ok2, Enter 11 cenv_append,
      Submit 12 3 LIO_WRITE senv_ok2]"

definition sync_waits_state :: aio_state where
  "sync_waits_state = mem (the (run linux_consts sync_waits (initial handles3)))"

text \<open>The interleaving goes on: the worker of the second write (at 12) enters and waits,
  the first write returns 100 and its worker leaves the list (\<open>later_write\<close>); then the
  worker of the sync is woken (\<open>sync_issued\<close>).\<close>

definition later_write :: "event list" where
  "later_write =
     sync_waits @ [Enter 12 cenv_append, Io_done 10 100 0, Cleanup_wake 10, Cleanup_unlink 10]"

definition later_write_state :: aio_state where
  "later_write_state = mem (the (run linux_consts later_write (initial handles3)))"

definition sync_issued :: "event list" where
  "sync_issued = later_write @ [Wake 11]"

text \<open>Two data syncs on descriptor 5: the second enters while the first is in its call.\<close>

definition two_syncs :: "event list" where
  "two_syncs =
     [Submit 10 1 (O_DSYNC linux_consts) senv_ok, Enter 10 cenv_append,
      Submit 11 2 (O_DSYNC linux_consts) senv_ok2, Enter 11 cenv_append]"

text \<open>A write is cancelled in its I/O call.\<close>

definition cancel_run :: "event list" where
  "cancel_run =
     [Submit 10 1 LIO_WRITE senv_ok, Enter 10 cenv_append, Cancel_cas 10, Cancelled 10]"


text \<open>A state in which the worker at 11, a sync, is about to run \<open>cleanup\<close> after a
  cancellation, between the workers at 12 and 10 in the list of queue 1. Its \<open>running\<close>
  is the sentinel, its handle asks for a signal and has waiters flagged in the error
  slot, and \<^verbatim>\<open>__aio_fut\<close> is set.\<close>

definition handle_signal :: aiocb where
  "handle_signal =
     \<lparr>aio_fildes = 5, aio_buf = 4096, aio_nbytes = 100, aio_offset = 0,
      aio_sigevent = \<lparr>sigev_notify = 0, sigev_signo = 10, sigev_value = 7,
                      sigev_notify_attributes = None\<rparr>,
      cb_err = 0x80000073, cb_ret = 0\<rparr>"

definition worker_rec :: "tptr \<Rightarrow> cbptr \<Rightarrow> tptr option \<Rightarrow> tptr option \<Rightarrow> int \<Rightarrow> int \<Rightarrow> aio_thread" where
  "worker_rec t cb n p r op =
     \<lparr>at_td = t, at_cb = cb, at_next = n, at_prev = p, at_q = 1, at_running = r,
      at_err = 125, at_op = op, at_ret = - 1\<rparr>"

definition waited_state :: aio_state where
  "waited_state =
     state0\<lparr>aio_fut := 1,
            queues := [1 \<mapsto> \<lparr>q_fd = 5, q_seekable = True, q_append = True, q_ref = 3,
                             q_init = True, q_head = Some 12\<rparr>],
            threads := [10 \<mapsto> worker_rec 10 1 None (Some 11) 1 1,
                        11 \<mapsto> worker_rec 11 2 (Some 10) (Some 12) (- 1) 4096,
                        12 \<mapsto> worker_rec 12 3 (Some 11) None 1 1],
            cbs := [1 \<mapsto> handle5, 2 \<mapsto> handle_signal, 3 \<mapsto> handle5]\<rparr>"

section \<open>Properties\<close>

subsection \<open>The trace and the directory\<close>

lemma emits_simps [simp]:
  "aio_map (emits as s) = aio_map s" "aio_fd_cnt (emits as s) = aio_fd_cnt s"
  "aio_fut (emits as s) = aio_fut s" "io_thread_stack_size (emits as s) = io_thread_stack_size s"
  "queues (emits as s) = queues s" "threads (emits as s) = threads s"
  "cbs (emits as s) = cbs s" "errno (emits as s) = errno s"
  "trace (emits as s) = trace s @ as"
  by (simp_all add: emits_def)

lemma map_lookup_cong: "aio_map s = aio_map s' \<Longrightarrow> map_lookup s fd = map_lookup s' fd"
  by (simp add: map_lookup_def)

lemma map_lookup_emits [simp]: "map_lookup (emits as s) fd = map_lookup s fd"
  by (rule map_lookup_cong) simp

lemma map_lookup_trace [simp]: "map_lookup (s\<lparr>trace := x\<rparr>) fd = map_lookup s fd"
  by (rule map_lookup_cong) simp

lemma map_lookup_errno [simp]: "map_lookup (s\<lparr>errno := e\<rparr>) fd = map_lookup s fd"
  by (rule map_lookup_cong) simp

lemma get_queue_negative:
  "sint fd < 0 \<Longrightarrow> aio_get_queue K env fd need s = (None, s\<lparr>errno := EBADF K\<rparr>)"
  by (simp add: aio_get_queue_def)

lemma get_queue_lookup_only:
  "\<not> sint fd < 0 \<Longrightarrow>
   aio_get_queue K env fd False s =
     (case map_lookup s fd of
        Some q \<Rightarrow> (Some q, emits [Rdlock, Mutex_lock q, Rwunlock] s)
      | None \<Rightarrow> (None, emits [Rdlock, Rwunlock] s))"
  by (simp add: aio_get_queue_def Let_def emits_def split: option.splits)

lemmas run_defs =
  run_in_io_def run_entered_def run_submitted_def submit_def submit_prepare_def senv_ok_def cenv_append_def
  locals5_def state1_def state0_def handle5_def aio_get_queue_def get_queue_alloc_def
  calloc_level_def map_lookup_def map_index_def env_ok_def linux_consts_def emits_def Let_def
  worker_attr_def io_thread_enter_def link_head_def io_thread_sequence_def
  needs_sequencing_def sequenced_wait_def scan.simps io_thread_issue_def io_call_def
  LIO_WRITE_def LIO_READ_def

subsection \<open>Status and return\<close>

lemma low31_nonneg: "0 \<le> sint ((x :: 32 word) AND 0x7fffffff)"
proof -
  have "\<not> bit (x AND 0x7fffffff) 31"
    by (simp add: bit_and_iff)
  then have "\<not> sint (x AND 0x7fffffff) < 0"
    using bit_last_iff[of "x AND 0x7fffffff"] by simp
  then show ?thesis by simp
qed

lemma low31_take_bit: "((x :: 32 word) AND 0x7fffffff) = take_bit 31 x"
  by (simp add: take_bit_eq_mask mask_eq_exp_minus_1)

text \<open>
  Claim C8. For a handle \<open>c\<close> at \<open>cb\<close>, \<open>aio_error\<close> returns the low 31 bits of its error
  slot: the value is not negative as an \<open>int\<close> and bit 31 is clear. \<open>aio_return\<close>
  returns the result slot as it is.
\<close>

theorem aio_error_low31:
  assumes "cbs s cb = Some c"
  shows "aio_error s cb = Some (take_bit 31 (cb_err c))
       \<and> 0 \<le> sint (take_bit 31 (cb_err c))
       \<and> \<not> bit (take_bit 31 (cb_err c)) 31
       \<and> aio_return s cb = Some (cb_ret c)"
  using assms low31_nonneg[of "cb_err c"]
  by (simp add: aio_error_def aio_return_def low31_take_bit bit_take_bit_iff)

theorem aio_error_low31_witness:
  "aio_error (state1\<lparr>cbs := [1 \<mapsto> handle5\<lparr>cb_err := 0x80000073, cb_ret := 42\<rparr>]\<rparr>) 1 = Some 0x73
   \<and> aio_return (state1\<lparr>cbs := [1 \<mapsto> handle5\<lparr>cb_err := 0x80000073, cb_ret := 42\<rparr>]\<rparr>) 1 = Some 42"
  using aio_error_low31[of "state1\<lparr>cbs := [1 \<mapsto> handle5\<lparr>cb_err := 0x80000073, cb_ret := 42\<rparr>]\<rparr>" 1
           "handle5\<lparr>cb_err := 0x80000073, cb_ret := 42\<rparr>"]
  by (simp add: state1_def state0_def handle5_def)

subsection \<open>Invalid arguments\<close>

text \<open>
  Claim C7. \<open>aio_cancel\<close> with a handle whose descriptor is not the \<open>fd\<close> argument, and
  \<open>aio_fsync\<close> with a flag that is neither \<open>O_SYNC\<close> nor \<open>O_DSYNC\<close>, return \<open>-1\<close> in a
  state that differs from the one they were called in by \<open>errno = EINVAL\<close> only: no
  handle is touched and nothing is done.
\<close>

theorem einval_no_mutation:
  "(cbs s c = Some cr \<and> fd \<noteq> aio_fildes cr \<longrightarrow>
      aio_cancel K env wenv fd (Some c) s = Some (- 1, s\<lparr>errno := EINVAL K\<rparr>))
   \<and> (op \<noteq> O_SYNC K \<and> op \<noteq> O_DSYNC K \<longrightarrow>
      aio_fsync K senv others op cb s = Some (- 1, s\<lparr>errno := EINVAL K\<rparr>))
   \<and> cbs (s\<lparr>errno := EINVAL K\<rparr>) = cbs s \<and> trace (s\<lparr>errno := EINVAL K\<rparr>) = trace s"
  by (simp add: aio_cancel_def aio_fsync_def)

theorem einval_no_mutation_witness:
  "aio_cancel linux_consts env_ok (\<lambda>t. None) 7 (Some 1) state1 = Some (- 1, state1\<lparr>errno := 22\<rparr>)
   \<and> aio_fsync linux_consts \<lparr>getq = env_ok, create_ok = True\<rparr> id 0 1 state1
       = Some (- 1, state1\<lparr>errno := 22\<rparr>)
   \<and> cbs (state1\<lparr>errno := 22\<rparr>) 1 = Some handle5"
  using einval_no_mutation[of state1 1 handle5 7 linux_consts env_ok "\<lambda>t. None" 0
          "\<lparr>getq = env_ok, create_ok = True\<rparr>" id 1]
  by (simp add: state1_def state0_def handle5_def linux_consts_def)

subsection \<open>Cancellation\<close>

lemma cancel_loop_result:
  assumes "cancel_loop K wenv cb p ret s = Some y"
  shows "fst y = ret \<or> fst y = AIO_CANCELED"
proof (rule cancel_loop.raw_induct
         [where P = "\<lambda>K wenv cb p ret s y. fst y = ret \<or> fst y = AIO_CANCELED", OF _ assms])
  fix f K wenv cb p ret s y
  assume IH: "\<And>K wenv cb p ret s y. f K wenv cb p ret s = Some y \<Longrightarrow> fst y = ret \<or> fst y = AIO_CANCELED"
    and step: "(case p of
        None \<Rightarrow> Some (ret, s)
      | Some t \<Rightarrow>
         (case threads s t of
            None \<Rightarrow> None
          | Some a \<Rightarrow>
             if cb \<noteq> None \<and> cb \<noteq> Some (at_cb a) then f K wenv cb (at_next a) ret s
             else if at_running a = 0 then
               f K wenv cb (at_next a) ret (emits [Cas_running t 0] s)
             else
               (let a1 = (if at_running a = 1 then a\<lparr>at_running := - 1\<rparr> else a);
                    s1 = emits [Cas_running t (at_running a), Pthread_cancel t, Wait_running t]
                           (s\<lparr>threads := (threads s)(t \<mapsto> a1)\<rparr>)
                in case (if at_running a1 = - 1 then worker_reacts K (wenv t) t s1 else Some s1) of
                     None \<Rightarrow> None
                   | Some s2 \<Rightarrow>
                      (case threads s2 t of
                         None \<Rightarrow> None
                       | Some a2 \<Rightarrow>
                           f K wenv cb (at_next a2)
                             (if at_err a2 = ECANCELED K then AIO_CANCELED else ret) s2)))) = Some y"
  show "fst y = ret \<or> fst y = AIO_CANCELED"
    using step
    by (auto split: option.splits if_splits simp: Let_def dest!: IH)
qed

text \<open>
  Claim C10. Whatever \<open>aio_cancel\<close> returns is \<open>-1\<close>, \<open>AIO_CANCELED\<close> or \<open>AIO_ALLDONE\<close>, and
  so never \<open>AIO_NOTCANCELED\<close>.
\<close>

theorem aio_cancel_never_notcanceled:
  assumes "aio_cancel K env wenv fd cb s = Some (r, s')"
  shows "(r = - 1 \<or> r = AIO_CANCELED \<or> r = AIO_ALLDONE) \<and> r \<noteq> AIO_NOTCANCELED"
proof -
  have "r = - 1 \<or> r = AIO_CANCELED \<or> r = AIO_ALLDONE"
    using assms
    by (auto simp: aio_cancel_def Let_def split: option.splits if_splits prod.splits bind_splits
             dest!: cancel_loop_result)
  then show ?thesis
    by (auto simp: AIO_CANCELED_def AIO_ALLDONE_def AIO_NOTCANCELED_def)
qed

theorem aio_cancel_never_notcanceled_witness:
  "map_option fst (aio_cancel linux_consts env_ok (\<lambda>t. None) 5 None run_in_io) = Some AIO_CANCELED
   \<and> AIO_CANCELED \<noteq> AIO_NOTCANCELED"
proof -
  have e: "map_option fst (aio_cancel linux_consts env_ok (\<lambda>t. None) 5 None run_in_io) = Some 0"
    by (simp add: run_defs aio_cancel_def cancel_loop.simps worker_reacts_def cleanup_wake_def
          AIO_CANCELED_def AIO_ALLDONE_def)
  then obtain s' where "aio_cancel linux_consts env_ok (\<lambda>t. None) 5 None run_in_io = Some (0, s')"
    by (cases "aio_cancel linux_consts env_ok (\<lambda>t. None) 5 None run_in_io") auto
  from aio_cancel_never_notcanceled[OF this] e show ?thesis
    by (simp add: AIO_CANCELED_def)
qed

text \<open>
  Claim C5, as amended. With arguments that pass the check of line 484, \<open>aio_cancel\<close> on
  a negative \<open>fd\<close> returns \<open>-1\<close> with \<open>errno = EBADF\<close>, and on a non-negative \<open>fd\<close> for
  which the directory holds no queue it returns \<open>AIO_ALLDONE\<close>, whatever a probe of the
  descriptor would report: the environment \<open>env\<close> is not consulted.
\<close>

theorem aio_cancel_no_queue:
  assumes "cancel_args_ok s fd cb"
  shows "(sint fd < 0 \<longrightarrow>
           aio_cancel K env wenv fd cb s =
             Some (- 1, emits [Sigmask_block, Sigmask_restore] (s\<lparr>errno := EBADF K\<rparr>)))
       \<and> (0 \<le> sint fd \<and> map_lookup s fd = None \<and> ENOENT K \<noteq> EBADF K \<longrightarrow>
           aio_cancel K env wenv fd cb s =
             Some (AIO_ALLDONE,
                   emits [Sigmask_block, Rdlock, Rwunlock, Sigmask_restore] (s\<lparr>errno := ENOENT K\<rparr>)))"
  using assms
  by (auto simp: aio_cancel_def cancel_args_ok_def get_queue_negative get_queue_lookup_only emits_def
           split: option.splits)

theorem aio_cancel_no_queue_witness:
  "aio_cancel linux_consts env_ok (\<lambda>t. None) (- 1) None state1 =
     Some (- 1, state1\<lparr>errno := 9, trace := [Sigmask_block, Sigmask_restore]\<rparr>)
   \<and> aio_cancel linux_consts env_badfd (\<lambda>t. None) 5 (Some 1) state1 =
     Some (2, state1\<lparr>errno := 2, trace := [Sigmask_block, Rdlock, Rwunlock, Sigmask_restore]\<rparr>)"
  using aio_cancel_no_queue[of state1 "- 1" None linux_consts env_ok "\<lambda>t. None"]
        aio_cancel_no_queue[of state1 5 "Some 1" linux_consts env_badfd "\<lambda>t. None"]
  by (simp add: cancel_args_ok_def state1_def state0_def handle5_def linux_consts_def
        map_lookup_def map_index_def emits_def AIO_ALLDONE_def)

text \<open>
  The claim as stated fails: descriptor 5 is not open (a probe reports \<open>EBADF\<close>) and has
  no queue, and \<open>aio_cancel\<close> returns \<open>AIO_ALLDONE\<close> with \<open>errno = ENOENT\<close>.
\<close>

theorem aio_cancel_invalid_fd_counterexample:
  "fcntl_getfd env_badfd = Some (EBADF linux_consts)
   \<and> aio_cancel linux_consts env_badfd (\<lambda>t. None) 5 None state0
       = Some (2, state0\<lparr>errno := ENOENT linux_consts,
                         trace := [Sigmask_block, Rdlock, Rwunlock, Sigmask_restore]\<rparr>)"
  by (simp add: aio_cancel_def aio_get_queue_def env_badfd_def env_ok_def linux_consts_def state0_def
       map_lookup_def map_index_def emits_def AIO_ALLDONE_def Let_def)

subsection \<open>Releasing a queue\<close>

lemma map_lookup_null_slot:
  assumes "aio_map s = Some m" "m a = Some ma" "ma b = Some mab" "mab c = Some mabc"
    and "map_index fd = (a, b, c, d)"
  shows "map_lookup (s\<lparr>aio_map := Some (m(a \<mapsto> ma(b \<mapsto> mab(c \<mapsto> mabc(d := None))))),
                      aio_fd_cnt := n, queues := qs\<rparr>) fd'
         = (if map_index fd' = map_index fd then None else map_lookup s fd')"
  using assms
  by (cases "map_index fd'") (auto simp: map_lookup_def)

lemma map_lookup_path:
  assumes "map_lookup s fd = Some qp" and "map_index fd = (a, b, c, d)"
  obtains m ma mab mabc where "aio_map s = Some m" "m a = Some ma" "ma b = Some mab"
    "mab c = Some mabc" "mabc d = Some qp"
  using assms by (auto simp: map_lookup_def split: option.splits)

lemma map_lookup_queues [simp]: "map_lookup (s\<lparr>queues := x\<rparr>) fd = map_lookup s fd"
  by (rule map_lookup_cong) simp

lemma unref_fast_eq:
  "queues s qp = Some q \<Longrightarrow>
   unref_fast qp s =
     (if 1 < q_ref q
      then Some (True, emits [Mutex_unlock qp] (s\<lparr>queues := (queues s)(qp \<mapsto> q\<lparr>q_ref := q_ref q - 1\<rparr>)\<rparr>))
      else Some (False, emits [Mutex_unlock qp] s))"
  by (simp add: unref_fast_def)

lemma queue_inv_decrement:
  assumes "queues s qp = Some q" "q_ref q \<noteq> 1" "queue_inv s x"
  shows "queue_inv (emits as (s\<lparr>queues := (queues s)(qp \<mapsto> q\<lparr>q_ref := q_ref q - 1\<rparr>)\<rparr>)) x"
  using assms by (auto simp: queue_inv_def split: option.splits)

lemma unref_slow_decrement:
  assumes "queues s qp = Some q" "q_ref q \<noteq> 1"
  shows "unref_slow qp s =
           Some (emits [Wrlock, Mutex_lock qp, Rwunlock, Mutex_unlock qp]
                  (s\<lparr>queues := (queues s)(qp \<mapsto> q\<lparr>q_ref := q_ref q - 1\<rparr>)\<rparr>))"
  using assms by (simp add: unref_slow_def Let_def emits_def)

lemma unref_slow_free:
  assumes q: "queues s qp = Some q" "q_ref q = 1" and inv: "queue_inv s qp"
  shows "\<exists>s'. unref_slow qp s = Some s'
          \<and> trace s' = trace s @ [Wrlock, Mutex_lock qp, Rwunlock, Mutex_unlock qp, Free_queue qp]
          \<and> queues s' = (queues s)(qp := None)
          \<and> aio_fd_cnt s' = aio_fd_cnt s - 1
          \<and> threads s' = threads s \<and> cbs s' = cbs s \<and> errno s' = errno s \<and> aio_fut s' = aio_fut s
          \<and> (\<forall>fd. map_lookup s' fd = (if map_index fd = map_index (q_fd q) then None else map_lookup s fd))"
proof -
  obtain a b c d where idx: "map_index (q_fd q) = (a, b, c, d)"
    by (cases "map_index (q_fd q)") auto
  from inv q have "map_lookup s (q_fd q) = Some qp"
    by (simp add: queue_inv_def)
  then obtain m ma mab mabc where path: "aio_map s = Some m" "m a = Some ma" "ma b = Some mab"
    "mab c = Some mabc"
    using idx by (rule map_lookup_path)
  let ?s' = "emits [Rwunlock, Mutex_unlock qp, Free_queue qp]
               ((emits [Wrlock, Mutex_lock qp] s)
                  \<lparr>aio_map := Some (m(a \<mapsto> ma(b \<mapsto> mab(c \<mapsto> mabc(d := None))))),
                   aio_fd_cnt := aio_fd_cnt s - 1,
                   queues := (queues s)(qp := None)\<rparr>)"
  have run: "unref_slow qp s = Some ?s'"
    using q idx path by (simp add: unref_slow_def Let_def)
  have look: "map_lookup ?s' fd = (if map_index fd = map_index (q_fd q) then None else map_lookup s fd)" for fd
  proof -
    have "map_lookup ?s' fd =
          map_lookup (s\<lparr>aio_map := Some (m(a \<mapsto> ma(b \<mapsto> mab(c \<mapsto> mabc(d := None))))),
                         aio_fd_cnt := aio_fd_cnt s - 1, queues := (queues s)(qp := None)\<rparr>) fd"
      by (rule map_lookup_cong) (simp add: emits_def)
    also have "\<dots> = (if map_index fd = map_index (q_fd q) then None else map_lookup s fd)"
      using path idx by (rule map_lookup_null_slot)
    finally show ?thesis .
  qed
  show ?thesis
    using run look by (intro exI[of _ ?s']) (simp add: emits_def)
qed

lemma queue_inv_free:
  assumes q: "queues s qp = Some q" "q_ref q = 1" and inv: "queue_inv s qp"
    and s': "queues s' = (queues s)(qp := None)"
      "\<forall>fd. map_lookup s' fd = (if map_index fd = map_index (q_fd q) then None else map_lookup s fd)"
    and x: "queue_inv s x"
  shows "queue_inv s' x"
proof (cases "queues s' x")
  case None
  then show ?thesis by (simp add: queue_inv_def)
next
  case (Some qx)
  with s' have neq: "x \<noteq> qp" and qx: "queues s x = Some qx"
    by (auto split: if_splits)
  from inv q have at: "map_lookup s (q_fd q) = Some qp"
    by (simp add: queue_inv_def)
  show ?thesis
  proof (cases "map_index (q_fd qx) = map_index (q_fd q)")
    case True
    then have "map_lookup s (q_fd qx) = map_lookup s (q_fd q)"
      by (simp add: map_lookup_def)
    with at neq have "map_lookup s (q_fd qx) \<noteq> Some x" by simp
    with x qx have "\<not> 0 < q_ref qx" by (simp add: queue_inv_def)
    with True Some s' show ?thesis by (simp add: queue_inv_def)
  next
    case False
    with Some s' x qx show ?thesis by (simp add: queue_inv_def)
  qed
qed

text \<open>
  Claim C4. \<open>__aio_unref_queue\<close> on an allocated queue \<open>q\<close>. If \<open>ref > 1\<close> it decrements
  \<open>ref\<close> and unlocks the queue. Otherwise it unlocks the queue, and after whatever the
  other threads do then (\<open>others\<close>) it takes the write lock and the queue's lock; if the
  queue's invariant holds then, it returns: with \<open>ref = 1\<close> the slot of the queue's
  descriptor is null afterwards and the other slots are as before, the counter is one
  less, both locks are dropped and the queue is freed; with another \<open>ref\<close> it
  decrements \<open>ref\<close> and drops both locks. In every case the invariant of every queue
  survives.
\<close>

theorem unref_queue:
  assumes "queues s qp = Some q"
  shows "if 1 < q_ref q then
           aio_unref_queue others qp s =
             Some (emits [Mutex_unlock qp] (s\<lparr>queues := (queues s)(qp \<mapsto> q\<lparr>q_ref := q_ref q - 1\<rparr>)\<rparr>))
           \<and> (\<forall>x. queue_inv s x \<longrightarrow>
                 queue_inv (emits [Mutex_unlock qp]
                             (s\<lparr>queues := (queues s)(qp \<mapsto> q\<lparr>q_ref := q_ref q - 1\<rparr>)\<rparr>)) x)
         else
           (let s1 = others (emits [Mutex_unlock qp] s) in
            \<forall>q1. queues s1 qp = Some q1 \<and> queue_inv s1 qp \<longrightarrow>
              (\<exists>s'. aio_unref_queue others qp s = Some s'
                \<and> (if q_ref q1 = 1 then
                     trace s' = trace s1 @ [Wrlock, Mutex_lock qp, Rwunlock, Mutex_unlock qp, Free_queue qp]
                     \<and> queues s' = (queues s1)(qp := None)
                     \<and> aio_fd_cnt s' = aio_fd_cnt s1 - 1
                     \<and> map_lookup s' (q_fd q1) = None
                     \<and> (\<forall>fd. map_index fd \<noteq> map_index (q_fd q1) \<longrightarrow> map_lookup s' fd = map_lookup s1 fd)
                   else
                     s' = emits [Wrlock, Mutex_lock qp, Rwunlock, Mutex_unlock qp]
                            (s1\<lparr>queues := (queues s1)(qp \<mapsto> q1\<lparr>q_ref := q_ref q1 - 1\<rparr>)\<rparr>))
                \<and> (\<forall>x. queue_inv s1 x \<longrightarrow> queue_inv s' x)))"
proof (cases "1 < q_ref q")
  case True
  have "queue_inv (emits [Mutex_unlock qp]
                     (s\<lparr>queues := (queues s)(qp \<mapsto> q\<lparr>q_ref := q_ref q - 1\<rparr>)\<rparr>)) x"
    if "queue_inv s x" for x
    using assms True that by (intro queue_inv_decrement) auto
  with True assms show ?thesis
    by (simp add: aio_unref_queue_def unref_fast_eq)
next
  case False
  define s1 where "s1 = others (emits [Mutex_unlock qp] s)"
  have run: "aio_unref_queue others qp s = unref_slow qp s1"
    using assms False by (simp add: aio_unref_queue_def unref_fast_eq s1_def)
  have "\<exists>s'. unref_slow qp s1 = Some s'
          \<and> (if q_ref q1 = 1 then
                trace s' = trace s1 @ [Wrlock, Mutex_lock qp, Rwunlock, Mutex_unlock qp, Free_queue qp]
                \<and> queues s' = (queues s1)(qp := None)
                \<and> aio_fd_cnt s' = aio_fd_cnt s1 - 1
                \<and> map_lookup s' (q_fd q1) = None
                \<and> (\<forall>fd. map_index fd \<noteq> map_index (q_fd q1) \<longrightarrow> map_lookup s' fd = map_lookup s1 fd)
              else
                s' = emits [Wrlock, Mutex_lock qp, Rwunlock, Mutex_unlock qp]
                       (s1\<lparr>queues := (queues s1)(qp \<mapsto> q1\<lparr>q_ref := q_ref q1 - 1\<rparr>)\<rparr>))
          \<and> (\<forall>x. queue_inv s1 x \<longrightarrow> queue_inv s' x)"
    if q1: "queues s1 qp = Some q1" and inv: "queue_inv s1 qp" for q1
  proof (cases "q_ref q1 = 1")
    case True
    from unref_slow_free[OF q1 True inv] obtain s' where s':
      "unref_slow qp s1 = Some s'"
      "trace s' = trace s1 @ [Wrlock, Mutex_lock qp, Rwunlock, Mutex_unlock qp, Free_queue qp]"
      "queues s' = (queues s1)(qp := None)"
      "aio_fd_cnt s' = aio_fd_cnt s1 - 1"
      "\<forall>fd. map_lookup s' fd = (if map_index fd = map_index (q_fd q1) then None else map_lookup s1 fd)"
      by blast
    have "queue_inv s' x" if "queue_inv s1 x" for x
      using q1 True inv s'(3) s'(5) that by (rule queue_inv_free)
    with s' True show ?thesis by auto
  next
    case False
    have "queue_inv (emits [Wrlock, Mutex_lock qp, Rwunlock, Mutex_unlock qp]
                      (s1\<lparr>queues := (queues s1)(qp \<mapsto> q1\<lparr>q_ref := q_ref q1 - 1\<rparr>)\<rparr>)) x"
      if "queue_inv s1 x" for x
      using q1 False that by (rule queue_inv_decrement)
    with False q1 show ?thesis
      by (simp add: unref_slow_decrement)
  qed
  then have "\<forall>q1. queues s1 qp = Some q1 \<and> queue_inv s1 qp \<longrightarrow>
              (\<exists>s'. aio_unref_queue others qp s = Some s'
                \<and> (if q_ref q1 = 1 then
                     trace s' = trace s1 @ [Wrlock, Mutex_lock qp, Rwunlock, Mutex_unlock qp, Free_queue qp]
                     \<and> queues s' = (queues s1)(qp := None)
                     \<and> aio_fd_cnt s' = aio_fd_cnt s1 - 1
                     \<and> map_lookup s' (q_fd q1) = None
                     \<and> (\<forall>fd. map_index fd \<noteq> map_index (q_fd q1) \<longrightarrow> map_lookup s' fd = map_lookup s1 fd)
                   else
                     s' = emits [Wrlock, Mutex_lock qp, Rwunlock, Mutex_unlock qp]
                            (s1\<lparr>queues := (queues s1)(qp \<mapsto> q1\<lparr>q_ref := q_ref q1 - 1\<rparr>)\<rparr>))
                \<and> (\<forall>x. queue_inv s1 x \<longrightarrow> queue_inv s' x))"
    unfolding run by blast
  then show ?thesis
    unfolding Let_def s1_def using False by simp
qed

lemma run_submitted_queue:
  "queues run_submitted 1 =
     Some \<lparr>q_fd = 5, q_seekable = False, q_append = False, q_ref = 1, q_init = False, q_head = None\<rparr>"
  by (simp add: run_defs)

theorem unref_queue_witness:
  "queue_inv run_submitted 1
   \<and> (\<exists>s'. aio_unref_queue id 1 run_submitted = Some s'
          \<and> queues s' 1 = None \<and> map_lookup s' 5 = None \<and> aio_fd_cnt s' = 0
          \<and> queue_inv s' 1)"
proof -
  have inv: "queue_inv run_submitted 1"
    by (simp add: queue_inv_def run_defs)
  then have inv': "queue_inv (id (emits [Mutex_unlock 1] run_submitted)) 1"
    by (simp add: queue_inv_def cong: option.case_cong)
  have cnt: "aio_fd_cnt run_submitted = 1"
    by (simp add: run_defs)
  from unref_queue[OF run_submitted_queue, of id] run_submitted_queue inv' inv cnt
  show ?thesis
    by auto
qed

subsection \<open>Submission failures\<close>

lemma get_queue_alloc_cbs: "cbs (snd (get_queue_alloc K env fd s)) = cbs s"
  by (simp add: get_queue_alloc_def Let_def split: prod.splits option.splits)

lemma get_queue_cbs: "cbs (snd (aio_get_queue K env fd need s)) = cbs s"
proof -
  have "cbs (snd (get_queue_alloc K env fd (emits [Sigmask_block, Wrlock] (emits [Rwunlock] (emits [Rdlock] s))))) = cbs s"
    by (simp add: get_queue_alloc_cbs)
  then show ?thesis
    by (auto simp: aio_get_queue_def Let_def split: prod.splits option.splits)
qed

lemma get_queue_cbs': "aio_get_queue K env fd need s = (r, s1) \<Longrightarrow> cbs s1 = cbs s"
  using get_queue_cbs[of K env fd need s] by simp

text \<open>
  Claim C6. For a handle \<open>c\<close> at \<open>cb\<close>: when the lookup gives no queue, \<open>submit\<close> returns
  \<open>-1\<close> and the handle has \<open>ret = -1\<close> and \<open>err = EBADF\<close> if the lookup left
  \<open>errno = EBADF\<close>, and \<open>err = EAGAIN\<close> otherwise. When \<open>pthread_create\<close> fails,
  \<open>submit\<close> calls \<open>__aio_unref_queue\<close> on the queue it had referenced and, if that
  returns, returns \<open>-1\<close> with \<open>ret = -1\<close> and \<open>err = EAGAIN\<close> in the handle; when the queue
  had a reference before, it does return, and the queue is as the lookup found it.
\<close>

theorem submit_failure:
  assumes "cbs s cb = Some c"
  shows "(aio_get_queue K (getq env) (aio_fildes c) True s = (None, s1) \<longrightarrow>
            submit K env others cb op s =
              Some (- 1, emits [Store_ret cb (- 1),
                                Store_err cb (if errno s1 = EBADF K then EBADF K else EAGAIN K)]
                           (s1\<lparr>errno := (if errno s1 = EBADF K then EBADF K else EAGAIN K),
                               cbs := (cbs s)(cb \<mapsto> c\<lparr>cb_ret := - 1,
                                  cb_err := (if errno s1 = EBADF K then EBADF K else EAGAIN K)\<rparr>)\<rparr>)))
       \<and> (aio_get_queue K (getq env) (aio_fildes c) True s = (Some qp, s1) \<and> \<not> create_ok env
            \<and> submit_prepare K cb qp s1 = Some (attr, s3)
            \<and> aio_unref_queue others qp (emits [Mutex_lock qp] s3) = Some s4
            \<and> cbs s4 cb = Some c4 \<longrightarrow>
            submit K env others cb op s =
              Some (- 1, emits [Store_err cb (EAGAIN K), Store_ret cb (- 1), Sigmask_restore]
                           (s4\<lparr>errno := EAGAIN K,
                               cbs := (cbs s4)(cb \<mapsto> c4\<lparr>cb_err := EAGAIN K, cb_ret := - 1\<rparr>)\<rparr>)))
       \<and> (aio_get_queue K (getq env) (aio_fildes c) True s = (Some qp, s1) \<and> \<not> create_ok env
            \<and> queues s1 qp = Some q \<and> 1 \<le> q_ref q \<longrightarrow>
            (\<exists>s'. submit K env others cb op s = Some (- 1, s')
                 \<and> queues s' = queues s1
                 \<and> cbs s' = (cbs s)(cb \<mapsto> c\<lparr>cb_err := EAGAIN K, cb_ret := - 1\<rparr>)
                 \<and> errno s' = EAGAIN K))"
proof (intro conjI impI)
  assume g: "aio_get_queue K (getq env) (aio_fildes c) True s = (None, s1)"
  then have "cbs s1 = cbs s" by (rule get_queue_cbs')
  with assms g show "submit K env others cb op s =
              Some (- 1, emits [Store_ret cb (- 1),
                                Store_err cb (if errno s1 = EBADF K then EBADF K else EAGAIN K)]
                           (s1\<lparr>errno := (if errno s1 = EBADF K then EBADF K else EAGAIN K),
                               cbs := (cbs s)(cb \<mapsto> c\<lparr>cb_ret := - 1,
                                  cb_err := (if errno s1 = EBADF K then EBADF K else EAGAIN K)\<rparr>)\<rparr>))"
    by (simp add: submit_def Let_def)
next
  assume "aio_get_queue K (getq env) (aio_fildes c) True s = (Some qp, s1) \<and> \<not> create_ok env
            \<and> submit_prepare K cb qp s1 = Some (attr, s3)
            \<and> aio_unref_queue others qp (emits [Mutex_lock qp] s3) = Some s4
            \<and> cbs s4 cb = Some c4"
  with assms show "submit K env others cb op s =
              Some (- 1, emits [Store_err cb (EAGAIN K), Store_ret cb (- 1), Sigmask_restore]
                           (s4\<lparr>errno := EAGAIN K,
                               cbs := (cbs s4)(cb \<mapsto> c4\<lparr>cb_err := EAGAIN K, cb_ret := - 1\<rparr>)\<rparr>))"
    by (simp add: submit_def submit_spawn_failed_def)
next
  assume a: "aio_get_queue K (getq env) (aio_fildes c) True s = (Some qp, s1) \<and> \<not> create_ok env
            \<and> queues s1 qp = Some q \<and> 1 \<le> q_ref q"
  then have c1: "cbs s1 = cbs s" by (auto dest: get_queue_cbs')
  with a assms show "\<exists>s'. submit K env others cb op s = Some (- 1, s')
                 \<and> queues s' = queues s1
                 \<and> cbs s' = (cbs s)(cb \<mapsto> c\<lparr>cb_err := EAGAIN K, cb_ret := - 1\<rparr>)
                 \<and> errno s' = EAGAIN K"
    by (auto simp: submit_def submit_prepare_def submit_spawn_failed_def aio_unref_queue_def
          unref_fast_def Let_def fun_upd_idem)
qed

theorem submit_failure_witness:
  "(\<exists>s'. submit linux_consts senv_ok id 1 LIO_READ (state1\<lparr>cbs := [1 \<mapsto> handle5\<lparr>aio_fildes := - 1\<rparr>]\<rparr>)
             = Some (- 1, s')
          \<and> cbs s' 1 = Some (handle5\<lparr>aio_fildes := - 1, cb_ret := - 1, cb_err := 9\<rparr>))
   \<and> (\<exists>s'. submit linux_consts \<lparr>getq = env_ok\<lparr>calloc_ok := (\<lambda>k. k < 2)\<rparr>, create_ok = True\<rparr>
               id 1 LIO_READ state1 = Some (- 1, s')
          \<and> cbs s' 1 = Some (handle5\<lparr>cb_ret := - 1, cb_err := 11\<rparr>))
   \<and> (\<exists>s'. submit linux_consts \<lparr>getq = env_ok, create_ok = False\<rparr> id 1 LIO_WRITE run_submitted
             = Some (- 1, s')
          \<and> queues s' = queues run_submitted
          \<and> cbs s' 1 = Some (handle5\<lparr>cb_err := 11, cb_ret := - 1\<rparr>))"
proof -
  let ?sneg = "state1\<lparr>cbs := [1 \<mapsto> handle5\<lparr>aio_fildes := - 1\<rparr>]\<rparr>"
  have g1: "aio_get_queue linux_consts (getq senv_ok) (aio_fildes (handle5\<lparr>aio_fildes := - 1\<rparr>)) True ?sneg
            = (None, ?sneg\<lparr>errno := 9\<rparr>)"
    by (simp add: aio_get_queue_def linux_consts_def)
  have c1: "cbs ?sneg 1 = Some (handle5\<lparr>aio_fildes := - 1\<rparr>)"
    by simp
  from submit_failure[OF c1, where K = linux_consts and env = senv_ok and others = id
         and op = LIO_READ and ?s1.0 = "?sneg\<lparr>errno := 9\<rparr>"] g1
  have A: "\<exists>s'. submit linux_consts senv_ok id 1 LIO_READ ?sneg = Some (- 1, s')
          \<and> cbs s' 1 = Some (handle5\<lparr>aio_fildes := - 1, cb_ret := - 1, cb_err := 9\<rparr>)"
    by (simp add: linux_consts_def)
  let ?env = "\<lparr>getq = env_ok\<lparr>calloc_ok := (\<lambda>k. k < 2)\<rparr>, create_ok = True\<rparr>"
  obtain s1 where g2: "aio_get_queue linux_consts (getq ?env) (aio_fildes handle5) True state1 = (None, s1)"
    and e2: "errno s1 = 12"
    by (simp add: run_defs)
  have c2: "cbs state1 1 = Some handle5"
    by (simp add: state1_def)
  from submit_failure[OF c2, where K = linux_consts and env = ?env and others = id
         and op = LIO_READ and ?s1.0 = s1] g2 e2
  have B: "\<exists>s'. submit linux_consts ?env id 1 LIO_READ state1 = Some (- 1, s')
          \<and> cbs s' 1 = Some (handle5\<lparr>cb_ret := - 1, cb_err := 11\<rparr>)"
    by (simp add: linux_consts_def state1_def)
  have c3: "cbs run_submitted 1 = Some (handle5\<lparr>cb_err := 115\<rparr>)"
    by (simp add: run_defs)
  obtain s3 where g3: "aio_get_queue linux_consts (getq \<lparr>getq = env_ok, create_ok = False\<rparr>)
                         (aio_fildes (handle5\<lparr>cb_err := 115\<rparr>)) True run_submitted = (Some 1, s3)"
    and q3: "queues s3 = queues run_submitted"
    by (simp add: run_defs)
  from submit_failure[OF c3, where K = linux_consts and env = "\<lparr>getq = env_ok, create_ok = False\<rparr>"
         and others = id and op = LIO_WRITE and ?s1.0 = s3 and qp = 1
         and q = "\<lparr>q_fd = 5, q_seekable = False, q_append = False, q_ref = 1, q_init = False, q_head = None\<rparr>",
         THEN conjunct2, THEN conjunct2, rule_format]
       g3 q3 run_submitted_queue
  obtain s' where s': "submit linux_consts \<lparr>getq = env_ok, create_ok = False\<rparr> id 1 LIO_WRITE run_submitted
             = Some (- 1, s')"
      "queues s' = queues s3"
      "cbs s' = (cbs run_submitted)(1 \<mapsto> handle5\<lparr>cb_err := 115\<rparr>\<lparr>cb_err := EAGAIN linux_consts, cb_ret := - 1\<rparr>)"
    by auto
  have C: "\<exists>s'. submit linux_consts \<lparr>getq = env_ok, create_ok = False\<rparr> id 1 LIO_WRITE run_submitted
             = Some (- 1, s')
          \<and> queues s' = queues run_submitted
          \<and> cbs s' 1 = Some (handle5\<lparr>cb_err := 11, cb_ret := - 1\<rparr>)"
    using s' q3 by (intro exI[of _ s']) (simp add: linux_consts_def)
  from A B C show ?thesis by blast
qed

subsection \<open>The actions of cleanup\<close>

lemma cleanup_wake_eq:
  assumes "threads s t = Some a" "cbs s (at_cb a) = Some c"
  shows "cleanup_wake K t s =
           Some (aio_sigevent c,
                 emits (wake_actions K t a c (aio_fut s))
                   (s\<lparr>cbs := (cbs s)(at_cb a \<mapsto> c\<lparr>cb_ret := at_ret a, cb_err := at_err a\<rparr>),
                      threads := (threads s)(t \<mapsto> a\<lparr>at_running := 0\<rparr>),
                      aio_fut := 0\<rparr>))"
  using assms by (simp add: cleanup_wake_def wake_actions_def Let_def emits_def)

lemma unlink_trace: "unlink t s = Some s' \<Longrightarrow> trace s' = trace s @ [Unlink t]"
  by (auto simp: unlink_def Let_def split: option.splits bind_splits)

lemma unref_fast_trace: "unref_fast qp s = Some (r, s') \<Longrightarrow> trace s' = trace s @ [Mutex_unlock qp]"
  by (auto simp: unref_fast_def split: if_splits bind_splits)

lemma unref_slow_trace: "unref_slow qp s = Some s' \<Longrightarrow> \<exists>xs. trace s' = trace s @ xs"
  by (auto simp: unref_slow_def Let_def split: if_splits bind_splits prod.splits)

lemma cleanup_unlink_trace:
  assumes "threads s t = Some a" "cleanup_unlink t s = Some (r, s')"
  shows "trace s' = trace s @ [Mutex_lock (at_q a), Unlink t, Cond_broadcast (at_q a), Mutex_unlock (at_q a)]"
  using assms
  by (auto simp: cleanup_unlink_def split: bind_splits dest!: unlink_trace unref_fast_trace)

lemmas cleanup_defs =
  cleanup_def cleanup_wake_def cleanup_unlink_def unlink_def unref_fast_def unref_slow_def
  cleanup_notify_def sigev_actions_def run_done_def io_thread_return_def

subsection \<open>The list of workers\<close>

lemma chain_None [simp]: "chain h None ts = (ts = [])"
  by (cases ts) auto

lemma chain_Some:
  "chain h (Some t) ts = (\<exists>a us. ts = t # us \<and> h t = Some a \<and> chain h (at_next a) us)"
  by (cases ts) (auto split: option.splits)

lemma chain_functional: "chain h p ts \<Longrightarrow> chain h p us \<Longrightarrow> ts = us"
proof (induction ts arbitrary: p us)
  case Nil
  then show ?case by simp
next
  case (Cons t ts)
  then show ?case by (cases us) (auto split: option.splits)
qed

lemma chain_append:
  "chain h p (xs @ ys) \<Longrightarrow> \<exists>r. chain h r ys"
  by (induction xs arbitrary: p) (auto split: option.splits)

lemma chain_not_in_tail:
  assumes "h t = Some a" "chain h (at_next a) ts"
  shows "t \<notin> set ts"
proof
  assume "t \<in> set ts"
  then obtain xs ys where ts: "ts = xs @ t # ys"
    by (auto simp: in_set_conv_decomp)
  with assms(2) obtain r where "chain h r (t # ys)"
    using chain_append by blast
  with assms(1) have "chain h (at_next a) ys" by simp
  with assms(2) have "ts = ys" by (rule chain_functional)
  with ts show False by simp
qed

lemma chain_alloc: "chain h p ts \<Longrightarrow> x \<in> set ts \<Longrightarrow> h x \<noteq> None"
  by (induction ts arbitrary: p) (auto split: option.splits)

lemma chain_distinct: "chain h p ts \<Longrightarrow> distinct ts"
  by (induction ts arbitrary: p) (auto split: option.splits dest: chain_not_in_tail)

lemma chain_next_cong:
  assumes "chain h p ts"
    and "\<And>t. t \<in> set ts \<Longrightarrow> map_option at_next (h' t) = map_option at_next (h t)"
  shows "chain h' p ts"
  using assms
proof (induction ts arbitrary: p)
  case Nil
  then show ?case by simp
next
  case (Cons t ts)
  from Cons.prems(1) obtain a where a: "p = Some t" "h t = Some a" "chain h (at_next a) ts"
    by (auto split: option.splits)
  from Cons.prems(2)[of t] a obtain a' where a': "h' t = Some a'" "at_next a' = at_next a"
    by auto
  from Cons.IH[OF a(3)] Cons.prems(2) have "chain h' (at_next a) ts" by simp
  with a a' show ?case by simp
qed

lemma prevs_prev_cong:
  assumes "prevs h p ts"
    and "\<And>t. t \<in> set ts \<Longrightarrow> map_option at_prev (h' t) = map_option at_prev (h t)"
  shows "prevs h' p ts"
  using assms
proof (induction ts arbitrary: p)
  case Nil
  then show ?case by simp
next
  case (Cons t ts)
  from Cons.prems(1) obtain a where a: "h t = Some a" "at_prev a = p" "prevs h (Some t) ts"
    by (auto split: option.splits)
  from Cons.prems(2)[of t] a obtain a' where a': "h' t = Some a'" "at_prev a' = at_prev a"
    by auto
  from Cons.IH[OF a(3)] Cons.prems(2) have "prevs h' (Some t) ts" by simp
  with a a' show ?case by simp
qed

lemma scan_chain:
  "chain h p ts \<Longrightarrow> scan h p = Some (find (is_write h) ts)"
proof (induction ts arbitrary: p)
  case Nil
  then show ?case by (simp add: scan.simps)
next
  case (Cons t ts)
  then obtain a where a: "p = Some t" "h t = Some a" "chain h (at_next a) ts"
    by (auto split: option.splits)
  show ?case
  proof (cases "at_op a = LIO_WRITE")
    case True
    with a show ?thesis by (simp add: scan.simps[of h "Some t"] is_write_def)
  next
    case False
    with a Cons.IH[OF a(3)] show ?thesis
      by (simp add: scan.simps[of h "Some t"] is_write_def)
  qed
qed

lemma find_is_write_cong:
  "(\<And>t. t \<in> set ts \<Longrightarrow> is_write h' t = is_write h t) \<Longrightarrow> find (is_write h') ts = find (is_write h) ts"
  by (induction ts) auto

lemma link_head_threads:
  assumes "link_head K n args s = Some s'" and "threads s n = None"
  shows "\<exists>q. queues s (args_q args) = Some q
          \<and> queues s' = (queues s)(args_q args \<mapsto> q\<lparr>q_head := Some n\<rparr>)
          \<and> threads s' n = Some \<lparr>at_td = n, at_cb = args_cb args, at_next = q_head q, at_prev = None,
                 at_q = args_q args, at_running = 1, at_err = ECANCELED K,
                 at_op = args_op args, at_ret = - 1\<rparr>
          \<and> (\<forall>x. x \<noteq> n \<longrightarrow>
                threads s' x = (if Some x = q_head q
                                then map_option (\<lambda>a. a\<lparr>at_prev := Some n\<rparr>) (threads s x)
                                else threads s x))
          \<and> (\<forall>x. q_head q = Some x \<longrightarrow> threads s x \<noteq> None)
          \<and> trace s' = trace s \<and> cbs s' = cbs s \<and> aio_map s' = aio_map s
          \<and> aio_fd_cnt s' = aio_fd_cnt s \<and> aio_fut s' = aio_fut s \<and> errno s' = errno s"
proof -
  from assms(1) obtain q where q: "queues s (args_q args) = Some q"
    by (auto simp: link_head_def split: bind_splits)
  show ?thesis
  proof (cases "q_head q")
    case None
    with assms q show ?thesis
      by (auto simp: link_head_def Let_def)
  next
    case (Some m)
    with assms(1) q obtain am where am: "threads s m = Some am"
      by (auto simp: link_head_def Let_def split: bind_splits)
    with assms q Some have "m \<noteq> n" by auto
    with assms q Some am show ?thesis
      by (auto simp: link_head_def Let_def)
  qed
qed

lemma io_thread_enter_link:
  assumes "io_thread_enter K cenv n args s = Some (loc, s')"
  shows "\<exists>s1 q1. link_head K n args (emits [Mutex_lock (args_q args), Sem_post] s) = Some s1
          \<and> queues s1 (args_q args) = Some q1
          \<and> threads s' = threads s1 \<and> trace s' = trace s1 \<and> cbs s' = cbs s1
          \<and> aio_map s' = aio_map s1 \<and> aio_fd_cnt s' = aio_fd_cnt s1 \<and> aio_fut s' = aio_fut s1
          \<and> queues s' = (queues s1)(args_q args \<mapsto>
               (if q_init q1 then q1
                else q1\<lparr>q_seekable := lseek_ok cenv,
                        q_append := (\<not> lseek_ok cenv \<or> fl_append cenv), q_init := True\<rparr>))"
proof -
  from assms obtain c s1 q1 where
    "cbs s (args_cb args) = Some c"
    and l: "link_head K n args (emits [Mutex_lock (args_q args), Sem_post] s) = Some s1"
    and q1: "queues s1 (args_q args) = Some q1"
    and s': "s' = (if \<not> q_init q1
               then s1\<lparr>queues := (queues s1)(args_q args \<mapsto>
                          q1\<lparr>q_seekable := lseek_ok cenv,
                            q_append := (\<not> lseek_ok cenv \<or> fl_append cenv),
                            q_init := True\<rparr>)\<rparr>
               else s1)"
    by (auto simp: io_thread_enter_def Let_def split: bind_splits)
  from q1 s' have "queues s' = (queues s1)(args_q args \<mapsto>
               (if q_init q1 then q1
                else q1\<lparr>q_seekable := lseek_ok cenv,
                        q_append := (\<not> lseek_ok cenv \<or> fl_append cenv), q_init := True\<rparr>))"
    by (auto simp: fun_upd_idem)
  with l q1 s' show ?thesis
    by (intro exI[of _ s1] exI[of _ q1]) simp
qed

lemmas sys_defs =
  sync_waits_state_def sync_waits_def initial_def handles3_def senv_ok2_def
  unlink_def cleanup_unlink_def cleanup_wake_def unref_fast_def unref_slow_def
  io_thread_return_def cleanup_notify_def sigev_actions_def cancel_cas_def

subsection \<open>What the functions change\<close>

lemma calloc_level_Some: "calloc_level env k p = Some t \<Longrightarrow> p = Some t \<or> (p = None \<and> t = Map.empty)"
  by (auto simp: calloc_level_def split: option.splits if_splits)

lemma get_queue_alloc_effect:
  assumes "get_queue_alloc K env fd s = (r, s')"
  shows "threads s' = threads s \<and> cbs s' = cbs s \<and> trace s' = trace s
       \<and> (queues s' = queues s
           \<or> (r = Some (new_queue env)
              \<and> queues s' = (queues s)(new_queue env \<mapsto>
                    \<lparr>q_fd = fd, q_seekable = False, q_append = False, q_ref = 0,
                     q_init = False, q_head = None\<rparr>)))"
  using assms
  by (simp add: get_queue_alloc_def Let_def split: prod.splits option.splits if_splits) auto

lemma get_queue_effect:
  assumes "aio_get_queue K env fd need s = (r, s')"
  shows "threads s' = threads s \<and> cbs s' = cbs s \<and> (\<exists>xs. trace s' = trace s @ xs)
       \<and> (queues s' = queues s
           \<or> (r = Some (new_queue env)
              \<and> queues s' = (queues s)(new_queue env \<mapsto>
                    \<lparr>q_fd = fd, q_seekable = False, q_append = False, q_ref = 0,
                     q_init = False, q_head = None\<rparr>)))"
proof (cases "sint fd < 0")
  case True
  with assms show ?thesis by (auto simp: aio_get_queue_def)
next
  case nonneg: False
  show ?thesis
  proof (cases "map_lookup s fd = None \<and> need")
    case False
    with assms nonneg show ?thesis
      by (auto simp: aio_get_queue_def Let_def split: option.splits)
  next
    case create: True
    show ?thesis
    proof (cases "fcntl_getfd env")
      case (Some e)
      with assms nonneg create show ?thesis
        by (auto simp: aio_get_queue_def Let_def)
    next
      case None
      obtain r1 s1 where a: "get_queue_alloc K env fd (emits [Sigmask_block, Wrlock] (emits [Rwunlock] (emits [Rdlock] s))) = (r1, s1)"
        by (cases "get_queue_alloc K env fd (emits [Sigmask_block, Wrlock] (emits [Rwunlock] (emits [Rdlock] s)))") auto
      from get_queue_alloc_effect[OF a]
      have e: "threads s1 = threads s" "cbs s1 = cbs s"
        "trace s1 = trace s @ [Rdlock, Rwunlock, Sigmask_block, Wrlock]"
        "queues s1 = queues s
           \<or> (r1 = Some (new_queue env)
              \<and> queues s1 = (queues s)(new_queue env \<mapsto>
                    \<lparr>q_fd = fd, q_seekable = False, q_append = False, q_ref = 0,
                     q_init = False, q_head = None\<rparr>))"
        by auto
      from assms nonneg create None a
      have "r = r1 \<and> (s' = emits [Mutex_lock (the r1), Rwunlock, Sigmask_restore] s1
                      \<or> s' = emits [Rwunlock, Sigmask_restore] s1)"
        by (auto simp: aio_get_queue_def Let_def split: option.splits)
      with e show ?thesis by auto
    qed
  qed
qed

lemma submit_prepare_effect:
  assumes "submit_prepare K cb qp s = Some (attr, s')"
  shows "threads s' = threads s
       \<and> (\<exists>q. queues s qp = Some q \<and> queues s' = (queues s)(qp \<mapsto> q\<lparr>q_ref := q_ref q + 1\<rparr>))
       \<and> (\<exists>c. cbs s cb = Some c \<and> cbs s' = (cbs s)(cb \<mapsto> c\<lparr>cb_err := EINPROGRESS K\<rparr>))
       \<and> trace s' = trace s @ [Mutex_unlock qp, Sigmask_block, Store_err cb (EINPROGRESS K)]"
  using assms
  by (auto simp: submit_prepare_def Let_def emits_def split: bind_splits)

lemma submit_ok_effect:
  assumes sub: "submit K env others cb op s = Some (0, s')"
    and c: "cbs s cb = Some c"
  shows "\<exists>qp q0 pre attr.
           fst (aio_get_queue K (getq env) (aio_fildes c) True s) = Some qp
         \<and> threads s' = threads s
         \<and> queues s' = (queues s)(qp \<mapsto> q0\<lparr>q_ref := q_ref q0 + 1\<rparr>)
         \<and> (queues s qp = Some q0
            \<or> (qp = new_queue (getq env)
               \<and> q0 = \<lparr>q_fd = aio_fildes c, q_seekable = False, q_append = False, q_ref = 0,
                        q_init = False, q_head = None\<rparr>))
         \<and> trace s' = trace s @ pre @
              [Store_err cb (EINPROGRESS K),
               Pthread_create attr \<lparr>args_cb = cb, args_q = qp, args_op = op\<rparr>,
               Sigmask_restore, Sem_wait]"
proof -
  obtain r s1 where g: "aio_get_queue K (getq env) (aio_fildes c) True s = (r, s1)"
    by (cases "aio_get_queue K (getq env) (aio_fildes c) True s") auto
  from sub c g obtain qp where r: "r = Some qp"
    by (cases r) (auto simp: submit_def Let_def split: bind_splits)
  from sub c g r obtain attr s3 where p: "submit_prepare K cb qp s1 = Some (attr, s3)"
    by (auto simp: submit_def split: bind_splits)
  from sub c g r p have ok: "create_ok env"
    and s': "s' = emits [Pthread_create attr \<lparr>args_cb = cb, args_q = qp, args_op = op\<rparr>,
                            Sigmask_restore, Sem_wait] s3"
    by (auto simp: submit_def submit_spawn_failed_def split: if_splits bind_splits)
  from get_queue_effect[OF g] r obtain xs where
    e1: "threads s1 = threads s" "trace s1 = trace s @ xs"
      "queues s1 = queues s
           \<or> (qp = new_queue (getq env)
              \<and> queues s1 = (queues s)(qp \<mapsto>
                    \<lparr>q_fd = aio_fildes c, q_seekable = False, q_append = False, q_ref = 0,
                     q_init = False, q_head = None\<rparr>))"
    by auto
  from submit_prepare_effect[OF p] obtain q where
    e2: "threads s3 = threads s1" "queues s1 qp = Some q"
      "queues s3 = (queues s1)(qp \<mapsto> q\<lparr>q_ref := q_ref q + 1\<rparr>)"
      "trace s3 = trace s1 @ [Mutex_unlock qp, Sigmask_block, Store_err cb (EINPROGRESS K)]"
    by auto
  have "queues s' = queues s3"
    by (simp add: s')
  with e1(3) e2(2,3) have
    "queues s' = (queues s)(qp \<mapsto> q\<lparr>q_ref := q_ref q + 1\<rparr>)
     \<and> (queues s qp = Some q
        \<or> (qp = new_queue (getq env)
           \<and> q = \<lparr>q_fd = aio_fildes c, q_seekable = False, q_append = False, q_ref = 0,
                        q_init = False, q_head = None\<rparr>))"
    by auto
  moreover have "trace s' = trace s @ (xs @ [Mutex_unlock qp, Sigmask_block]) @
              [Store_err cb (EINPROGRESS K),
               Pthread_create attr \<lparr>args_cb = cb, args_q = qp, args_op = op\<rparr>,
               Sigmask_restore, Sem_wait]"
    by (simp add: s' e2 e1)
  moreover have "threads s' = threads s"
    by (simp add: s' e2 e1)
  moreover have "fst (aio_get_queue K (getq env) (aio_fildes c) True s) = Some qp"
    by (simp add: g r)
  ultimately show ?thesis
    by blast
qed

lemma io_thread_issue_effect:
  assumes "io_thread_issue K t loc s = Some s'"
  shows "\<exists>a q call. threads s t = Some a \<and> queues s (at_q a) = Some q
           \<and> io_call K (at_op a) q loc = Some call
           \<and> s' = emits [Mutex_unlock (at_q a), Io_issue t call] s"
  using assms by (auto simp: io_thread_issue_def split: bind_splits)

lemma sequenced_wait_effect:
  assumes "sequenced_wait K t loc s = Some (go, s')"
  shows "\<exists>a r. threads s t = Some a \<and> scan (threads s) (at_next a) = Some r
           \<and> go = (r = None)
           \<and> (if go then io_thread_issue K t loc s = Some s'
               else s' = emits [Cond_wait (at_q a)] s)"
  using assms by (auto simp: sequenced_wait_def split: bind_splits option.splits)

lemma io_thread_sequence_effect:
  assumes "io_thread_sequence K t loc s = Some (go, s')"
  shows "\<exists>a q. threads s t = Some a \<and> queues s (at_q a) = Some q
           \<and> (if needs_sequencing (at_op a) (q_append q)
               then sequenced_wait K t loc s = Some (go, s')
               else go \<and> io_thread_issue K t loc s = Some s')"
  using assms by (auto simp: io_thread_sequence_def split: bind_splits if_splits)

text \<open>the sequencing decision leaves the memory as it is, but for the trace\<close>

lemma sequenced_wait_frame:
  assumes "sequenced_wait K t loc s = Some (go, s')"
  shows "threads s' = threads s \<and> queues s' = queues s \<and> cbs s' = cbs s
       \<and> (\<exists>a xs. threads s t = Some a \<and> trace s' = trace s @ xs
             \<and> xs = (if go then [Mutex_unlock (at_q a), Io_issue t (the (io_call K (at_op a) (the (queues s (at_q a))) loc))]
                      else [Cond_wait (at_q a)])
             \<and> (go \<longrightarrow> scan (threads s) (at_next a) = Some None))"
proof -
  from sequenced_wait_effect[OF assms] obtain a r where
    a: "threads s t = Some a" "scan (threads s) (at_next a) = Some r" "go = (r = None)"
    "if go then io_thread_issue K t loc s = Some s' else s' = emits [Cond_wait (at_q a)] s"
    by blast
  show ?thesis
  proof (cases go)
    case True
    with a(4) have "io_thread_issue K t loc s = Some s'" by simp
    from io_thread_issue_effect[OF this] a(1) True a(2,3) show ?thesis
      by auto
  next
    case False
    with a show ?thesis by auto
  qed
qed

lemma io_thread_sequence_frame:
  assumes "io_thread_sequence K t loc s = Some (go, s')"
  shows "threads s' = threads s \<and> queues s' = queues s \<and> cbs s' = cbs s
       \<and> (\<exists>a q xs. threads s t = Some a \<and> queues s (at_q a) = Some q \<and> trace s' = trace s @ xs
             \<and> xs = (if go then [Mutex_unlock (at_q a), Io_issue t (the (io_call K (at_op a) q loc))]
                      else [Cond_wait (at_q a)])
             \<and> (\<not> needs_sequencing (at_op a) (q_append q) \<longrightarrow> go)
             \<and> (go \<and> needs_sequencing (at_op a) (q_append q) \<longrightarrow> scan (threads s) (at_next a) = Some None))"
proof -
  from io_thread_sequence_effect[OF assms] obtain a q where
    a: "threads s t = Some a" "queues s (at_q a) = Some q"
    "if needs_sequencing (at_op a) (q_append q)
               then sequenced_wait K t loc s = Some (go, s')
               else go \<and> io_thread_issue K t loc s = Some s'"
    by blast
  show ?thesis
  proof (cases "needs_sequencing (at_op a) (q_append q)")
    case True
    with a(3) have "sequenced_wait K t loc s = Some (go, s')" by simp
    from sequenced_wait_frame[OF this] a(1,2) True show ?thesis
      by auto
  next
    case False
    with a(3) have go: go and "io_thread_issue K t loc s = Some s'" by simp_all
    from io_thread_issue_effect[OF this(2)] a(1,2) go False show ?thesis
      by auto
  qed
qed

lemma io_thread_return_effect:
  assumes "io_thread_return t r e s = Some s'"
  shows "\<exists>a. threads s t = Some a
           \<and> s' = emits [Io_return t r e]
                    (s\<lparr>threads := (threads s)(t \<mapsto> a\<lparr>at_ret := r, at_err := (if r < 0 then e else 0)\<rparr>)\<rparr>)"
  using assms by (auto simp: io_thread_return_def split: bind_splits)

lemma cancel_cas_effect:
  assumes "cancel_cas t s = Some s'"
  shows "\<exists>a. threads s t = Some a
           \<and> s' = emits (Cas_running t (at_running a) # (if at_running a \<noteq> 0 then [Pthread_cancel t] else []))
                    (s\<lparr>threads := (threads s)(t \<mapsto> (if at_running a = 1 then a\<lparr>at_running := - 1\<rparr> else a))\<rparr>)"
  using assms by (auto simp: cancel_cas_def split: bind_splits)

lemma unref_slow_effect:
  assumes "unref_slow qp s = Some s'"
  shows "threads s' = threads s \<and> cbs s' = cbs s
       \<and> (\<exists>q. queues s qp = Some q
             \<and> (if q_ref q = 1
                 then queues s' = (queues s)(qp := None)
                    \<and> trace s' = trace s @ [Wrlock, Mutex_lock qp, Rwunlock, Mutex_unlock qp, Free_queue qp]
                 else queues s' = (queues s)(qp \<mapsto> q\<lparr>q_ref := q_ref q - 1\<rparr>)
                    \<and> trace s' = trace s @ [Wrlock, Mutex_lock qp, Rwunlock, Mutex_unlock qp]))"
proof -
  from assms obtain q where q: "queues s qp = Some q"
    by (auto simp: unref_slow_def Let_def split: bind_splits)
  show ?thesis
  proof (cases "q_ref q = 1")
    case True
    with assms q show ?thesis
      by (auto simp: unref_slow_def Let_def split: bind_splits prod.splits)
  next
    case False
    with assms q show ?thesis
      by (auto simp: unref_slow_def Let_def)
  qed
qed

lemma unref_fast_effect:
  assumes "unref_fast qp s = Some (r, s')"
  shows "threads s' = threads s \<and> cbs s' = cbs s \<and> trace s' = trace s @ [Mutex_unlock qp]
       \<and> (\<exists>q. queues s qp = Some q \<and> r = (1 < q_ref q)
             \<and> queues s' = (if r then (queues s)(qp \<mapsto> q\<lparr>q_ref := q_ref q - 1\<rparr>) else queues s))"
  using assms by (auto simp: unref_fast_def split: bind_splits if_splits)

text \<open>unlink, when the neighbours are not the record itself and differ from each other\<close>

lemma unlink_effect:
  assumes u: "unlink t s = Some s'" and a: "threads s t = Some a"
    and n: "at_next a \<noteq> Some t" and p: "at_prev a \<noteq> Some t"
    and np: "at_next a = None \<or> at_next a \<noteq> at_prev a"
  shows "cbs s' = cbs s \<and> trace s' = trace s @ [Unlink t]
       \<and> (\<forall>x. threads s' x =
              (if Some x = at_next a then map_option (\<lambda>b. b\<lparr>at_prev := at_prev a\<rparr>) (threads s x)
               else if Some x = at_prev a then map_option (\<lambda>b. b\<lparr>at_next := at_next a\<rparr>) (threads s x)
               else threads s x))
       \<and> (if at_prev a = None
           then \<exists>q. queues s (at_q a) = Some q \<and> queues s' = (queues s)(at_q a \<mapsto> q\<lparr>q_head := at_next a\<rparr>)
           else queues s' = queues s)"
proof -
  define s1 where "s1 = (case at_next a of None \<Rightarrow> s
     | Some n \<Rightarrow> s\<lparr>threads := (threads s)(n \<mapsto> (the (threads s n))\<lparr>at_prev := at_prev a\<rparr>)\<rparr>)"
  from u a have nx: "at_next a = Some n \<Longrightarrow> threads s n \<noteq> None" for n
    by (auto simp: unlink_def split: bind_splits)
  have s1t: "threads s1 x = (if Some x = at_next a then map_option (\<lambda>b. b\<lparr>at_prev := at_prev a\<rparr>) (threads s x)
               else threads s x)" for x
    using nx by (cases "at_next a") (auto simp: s1_def)
  have s1o: "queues s1 = queues s" "cbs s1 = cbs s" "trace s1 = trace s"
    by (cases "at_next a"; simp add: s1_def)+
  from n s1t[of t] a have a1: "threads s1 t = Some a" by simp
  have step1: "(case at_next a of
              None \<Rightarrow> Some s
            | Some n \<Rightarrow> do {
                an \<leftarrow> threads s n;
                Some (s\<lparr>threads := (threads s)(n \<mapsto> an\<lparr>at_prev := at_prev a\<rparr>)\<rparr>) }) = Some s1"
    using nx by (cases "at_next a") (auto simp: s1_def)
  show ?thesis
  proof (cases "at_prev a")
    case None
    with u a step1 a1 obtain q where q: "queues s1 (at_q a) = Some q"
      and s': "s' = emits [Unlink t] (s1\<lparr>queues := (queues s1)(at_q a \<mapsto> q\<lparr>q_head := at_next a\<rparr>)\<rparr>)"
      by (auto simp: unlink_def split: bind_splits)
    with s1t s1o None show ?thesis by auto
  next
    case (Some pr)
    with u a step1 a1 obtain ap where ap: "threads s1 pr = Some ap"
      and s': "s' = emits [Unlink t] (s1\<lparr>threads := (threads s1)(pr \<mapsto> ap\<lparr>at_next := at_next a\<rparr>)\<rparr>)"
      by (auto simp: unlink_def split: bind_splits)
    from np Some have ne: "Some pr \<noteq> at_next a" by auto
    with ap s1t[of pr] have ap0: "threads s pr = Some ap" by simp
    have "threads s' x =
              (if Some x = at_next a then map_option (\<lambda>b. b\<lparr>at_prev := at_prev a\<rparr>) (threads s x)
               else if Some x = at_prev a then map_option (\<lambda>b. b\<lparr>at_next := at_next a\<rparr>) (threads s x)
               else threads s x)" for x
      using s' s1t[of x] Some ne ap0 by auto
    with s' s1o Some show ?thesis by auto
  qed
qed

subsection \<open>Removing a record from a list\<close>

lemma chain_mid:
  assumes "chain h p (xs @ t # ys)"
  shows "\<exists>a. h t = Some a \<and> chain h (at_next a) ys
             \<and> at_next a = (case ys of [] \<Rightarrow> None | y # zs \<Rightarrow> Some y)"
  using assms
proof (induction xs arbitrary: p)
  case Nil
  then obtain a where a: "h t = Some a" "chain h (at_next a) ys"
    by (auto split: option.splits)
  then have "at_next a = (case ys of [] \<Rightarrow> None | y # zs \<Rightarrow> Some y)"
    by (cases ys) auto
  with a show ?case by simp
next
  case (Cons x xs)
  from Cons.prems obtain ax where "h x = Some ax" "chain h (at_next ax) (xs @ t # ys)"
    by (auto split: option.splits)
  then show ?case using Cons.IH by blast
qed

lemma prevs_mid:
  assumes "prevs h p (xs @ t # ys)"
  shows "\<exists>a. h t = Some a \<and> at_prev a = (if xs = [] then p else Some (last xs))"
  using assms
proof (induction xs arbitrary: p)
  case Nil
  then show ?case by (auto split: option.splits)
next
  case (Cons x xs)
  from Cons.prems have "prevs h (Some x) (xs @ t # ys)" by simp
  from Cons.IH[OF this] show ?case by auto
qed

lemma chain_remove:
  assumes "chain h p (xs @ t # ys)" and "h t = Some a" and "distinct (xs @ t # ys)"
    and "\<And>x. x \<in> set (xs @ ys) \<Longrightarrow>
           map_option at_next (h' x) =
             (if xs \<noteq> [] \<and> x = last xs then map_option (\<lambda>b. at_next a) (h x)
              else map_option at_next (h x))"
  shows "chain h' (if xs = [] then at_next a else p) (xs @ ys)"
  using assms
proof (induction xs arbitrary: p)
  case Nil
  then have "chain h (at_next a) ys" by simp
  then have "chain h' (at_next a) ys"
    by (rule chain_next_cong) (use Nil.prems(4) in simp)
  then show ?case by simp
next
  case (Cons x xs)
  from Cons.prems(1) obtain ax where ax: "p = Some x" "h x = Some ax"
    "chain h (at_next ax) (xs @ t # ys)"
    by (auto split: option.splits)
  from Cons.prems(3) have dist: "distinct (xs @ t # ys)" and xnotin: "x \<notin> set (xs @ t # ys)"
    by auto
  show ?case
  proof (cases "xs = []")
    case True
    with ax Cons.prems(2) have nx: "at_next ax = Some t" and ys: "chain h (at_next a) ys"
      by auto
    from Cons.prems(4)[of x] True ax obtain ax' where ax': "h' x = Some ax'" "at_next ax' = at_next a"
      by auto
    have "chain h' (at_next a) ys"
      using ys
    proof (rule chain_next_cong)
      fix y assume "y \<in> set ys"
      with xnotin True have "y \<noteq> x" by auto
      with Cons.prems(4)[of y] True \<open>y \<in> set ys\<close>
      show "map_option at_next (h' y) = map_option at_next (h y)" by simp
    qed
    with ax ax' True show ?thesis by simp
  next
    case False
    with xnotin have ne: "x \<noteq> last xs"
      using last_in_set[of xs] by auto
    from Cons.prems(4)[of x] False ne ax obtain ax' where ax': "h' x = Some ax'" "at_next ax' = at_next ax"
      by auto
    have "chain h' (if xs = [] then at_next a else at_next ax) (xs @ ys)"
    proof (rule Cons.IH[OF ax(3) Cons.prems(2) dist])
      fix y assume "y \<in> set (xs @ ys)"
      with Cons.prems(4)[of y] False
      show "map_option at_next (h' y) =
             (if xs \<noteq> [] \<and> y = last xs then map_option (\<lambda>b. at_next a) (h y)
              else map_option at_next (h y))"
        by simp
    qed
    with False ax ax' show ?thesis by simp
  qed
qed

lemma prevs_remove:
  assumes "prevs h p (xs @ t # ys)" and "h t = Some a" and "distinct (xs @ t # ys)"
    and "\<And>x. x \<in> set (xs @ ys) \<Longrightarrow>
           map_option at_prev (h' x) =
             (if ys \<noteq> [] \<and> x = hd ys then map_option (\<lambda>b. at_prev a) (h x)
              else map_option at_prev (h x))"
  shows "prevs h' p (xs @ ys)"
  using assms
proof (induction xs arbitrary: p)
  case Nil
  then have a: "at_prev a = p" and ys: "prevs h (Some t) ys"
    by auto
  show ?case
  proof (cases ys)
    case Nil
    then show ?thesis by simp
  next
    case (Cons y zs)
    with ys obtain ay where ay: "h y = Some ay" "prevs h (Some y) zs"
      by (auto split: option.splits)
    from Nil.prems(4)[of y] Cons ay a obtain ay' where ay': "h' y = Some ay'" "at_prev ay' = p"
      by auto
    from Nil.prems(3) Cons have ynotin: "y \<notin> set zs" by simp
    have "prevs h' (Some y) zs"
      using ay(2)
    proof (rule prevs_prev_cong)
      fix z assume "z \<in> set zs"
      with ynotin have "z \<noteq> y" by auto
      with Nil.prems(4)[of z] Cons \<open>z \<in> set zs\<close>
      show "map_option at_prev (h' z) = map_option at_prev (h z)" by simp
    qed
    with Cons ay' show ?thesis by simp
  qed
next
  case (Cons x xs)
  from Cons.prems(1) obtain ax where ax: "h x = Some ax" "at_prev ax = p"
    "prevs h (Some x) (xs @ t # ys)"
    by (auto split: option.splits)
  from Cons.prems(3) have dist: "distinct (xs @ t # ys)" and xnotin: "x \<notin> set (xs @ t # ys)"
    by auto
  have "\<not> (ys \<noteq> [] \<and> x = hd ys)"
    using xnotin hd_in_set[of ys] by auto
  with Cons.prems(4)[of x] ax obtain ax' where ax': "h' x = Some ax'" "at_prev ax' = p"
    by auto
  have "prevs h' (Some x) (xs @ ys)"
  proof (rule Cons.IH[OF ax(3) Cons.prems(2) dist])
    fix y assume "y \<in> set (xs @ ys)"
    with Cons.prems(4)[of y]
    show "map_option at_prev (h' y) =
             (if ys \<noteq> [] \<and> y = hd ys then map_option (\<lambda>b. at_prev a) (h y)
              else map_option at_prev (h y))"
      by simp
  qed
  with ax' show ?case by simp
qed

lemma neighbours_distinct:
  assumes D: "distinct (xs @ t # ys)"
    and N: "at_next a = (case ys of [] \<Rightarrow> None | y # zs \<Rightarrow> Some y)"
    and P: "at_prev a = (if xs = [] then None else Some (last xs))"
  shows "at_next a \<noteq> Some t" and "at_prev a \<noteq> Some t"
    and "at_next a = None \<or> at_next a \<noteq> at_prev a"
    and "\<And>x. Some x = at_next a \<Longrightarrow> ys \<noteq> [] \<and> x = hd ys"
    and "\<And>x. Some x = at_prev a \<Longrightarrow> xs \<noteq> [] \<and> x = last xs"
    and "at_prev a = None \<longleftrightarrow> xs = []"
proof -
  show "at_next a \<noteq> Some t" using D N by (cases ys) auto
  show "at_prev a \<noteq> Some t" using D P by (cases xs rule: rev_cases) auto
  show "at_next a = None \<or> at_next a \<noteq> at_prev a"
    using D N P by (cases ys; cases xs rule: rev_cases) auto
  show "\<And>x. Some x = at_next a \<Longrightarrow> ys \<noteq> [] \<and> x = hd ys" using N by (cases ys) auto
  show "\<And>x. Some x = at_prev a \<Longrightarrow> xs \<noteq> [] \<and> x = last xs" using P by (cases "xs = []") auto
  show "at_prev a = None \<longleftrightarrow> xs = []" using P by simp
qed

lemma unlink_lists:
  assumes c: "chain h p (xs @ t # ys)" and pv: "prevs h None (xs @ t # ys)" and a: "h t = Some a"
    and h': "\<And>x. h' x =
              (if Some x = at_next a then map_option (\<lambda>b. b\<lparr>at_prev := at_prev a\<rparr>) (h x)
               else if Some x = at_prev a then map_option (\<lambda>b. b\<lparr>at_next := at_next a\<rparr>) (h x)
               else h x)"
  shows "at_next a \<noteq> Some t \<and> at_prev a \<noteq> Some t \<and> (at_next a = None \<or> at_next a \<noteq> at_prev a)"
    and "chain h' (if at_prev a = None then at_next a else p) (xs @ ys)"
    and "prevs h' None (xs @ ys)"
    and "\<And>x. Some x = at_next a \<or> Some x = at_prev a \<Longrightarrow> x \<in> set (xs @ ys)"
proof -
  have D: "distinct (xs @ t # ys)" by (rule chain_distinct[OF c])
  from chain_mid[OF c] a have N: "at_next a = (case ys of [] \<Rightarrow> None | y # zs \<Rightarrow> Some y)" by auto
  from prevs_mid[OF pv] a have P: "at_prev a = (if xs = [] then None else Some (last xs))" by auto
  note nd = neighbours_distinct[OF D N P]
  show "at_next a \<noteq> Some t \<and> at_prev a \<noteq> Some t \<and> (at_next a = None \<or> at_next a \<noteq> at_prev a)"
    using nd(1,2,3) by simp
  show nb: "x \<in> set (xs @ ys)" if "Some x = at_next a \<or> Some x = at_prev a" for x
    using that nd(4)[of x] nd(5)[of x] by auto
  have "chain h' (if xs = [] then at_next a else p) (xs @ ys)"
  proof (rule chain_remove[OF c a D])
    fix x assume x: "x \<in> set (xs @ ys)"
    show "map_option at_next (h' x) =
             (if xs \<noteq> [] \<and> x = last xs then map_option (\<lambda>b. at_next a) (h x)
              else map_option at_next (h x))"
    proof (cases "Some x = at_next a")
      case True
      with nd(4)[of x] have "ys \<noteq> []" "x = hd ys" by auto
      then have "x \<in> set ys" by simp
      moreover from D have "set xs \<inter> set ys = {}" by auto
      ultimately have "x \<notin> set xs" by auto
      then have "xs \<noteq> [] \<Longrightarrow> x \<noteq> last xs" using last_in_set[of xs] by metis
      with True h'[of x] show ?thesis by (cases "h x") auto
    next
      case False
      show ?thesis
      proof (cases "Some x = at_prev a")
        case True
        with nd(5)[of x] False h'[of x] show ?thesis by (cases "h x") auto
      next
        case F2: False
        with P have "\<not> (xs \<noteq> [] \<and> x = last xs)" by auto
        with False F2 h'[of x] show ?thesis by auto
      qed
    qed
  qed
  with nd(6) show "chain h' (if at_prev a = None then at_next a else p) (xs @ ys)" by simp
  show "prevs h' None (xs @ ys)"
  proof (rule prevs_remove[OF pv a D])
    fix x assume x: "x \<in> set (xs @ ys)"
    show "map_option at_prev (h' x) =
             (if ys \<noteq> [] \<and> x = hd ys then map_option (\<lambda>b. at_prev a) (h x)
              else map_option at_prev (h x))"
    proof (cases "Some x = at_next a")
      case True
      with nd(4)[of x] h'[of x] show ?thesis by (cases "h x") auto
    next
      case False
      with N have nh: "\<not> (ys \<noteq> [] \<and> x = hd ys)" by (cases ys) auto
      show ?thesis
      proof (cases "Some x = at_prev a")
        case True
        with False nh h'[of x] show ?thesis by (cases "h x") auto
      next
        case F2: False
        with False nh h'[of x] show ?thesis by auto
      qed
    qed
  qed
qed

subsection \<open>Users, linked workers and sequencing\<close>

lemma holds_ref_cong:
  "map_option at_q (threads s' x) = map_option at_q (threads s x) \<Longrightarrow>
   holds_ref s' x pc qp = holds_ref s x pc qp"
  by (cases pc) (auto split: option.splits)

lemma users_update:
  assumes "pcs \<sigma>' = (pcs \<sigma>)(t \<mapsto> pc')"
    and "\<And>x. x \<noteq> t \<Longrightarrow> map_option at_q (threads (mem \<sigma>') x) = map_option at_q (threads (mem \<sigma>) x)"
  shows "users \<sigma>' qp = (users \<sigma> qp - {t}) \<union> (if holds_ref (mem \<sigma>') t pc' qp then {t} else {})"
proof -
  have "holds_ref (mem \<sigma>') x pc qp = holds_ref (mem \<sigma>) x pc qp" if "x \<noteq> t" for x pc
    using assms(2)[OF that] by (rule holds_ref_cong)
  with assms(1) show ?thesis
    by (auto simp: users_def split: if_splits)
qed

lemma users_same_pcs:
  assumes "pcs \<sigma>' = pcs \<sigma>"
    and "\<And>x. map_option at_q (threads (mem \<sigma>') x) = map_option at_q (threads (mem \<sigma>) x)"
  shows "users \<sigma>' qp = users \<sigma> qp"
proof -
  have "holds_ref (mem \<sigma>') x pc qp = holds_ref (mem \<sigma>) x pc qp" for x pc
    using assms(2) by (rule holds_ref_cong)
  with assms(1) show ?thesis
    by (auto simp: users_def)
qed

lemma linked_update:
  assumes "pcs \<sigma>' = (pcs \<sigma>)(t \<mapsto> pc')"
    and "\<And>x. x \<noteq> t \<Longrightarrow> map_option at_q (threads (mem \<sigma>') x) = map_option at_q (threads (mem \<sigma>) x)"
  shows "linked \<sigma>' qp =
           (linked \<sigma> qp - {t}) \<union>
           (if is_linked pc' \<and> map_option at_q (threads (mem \<sigma>') t) = Some qp then {t} else {})"
proof -
  define Q where "Q \<sigma> x = map_option at_q (threads (mem \<sigma>) x)" for \<sigma> :: sys and x
  have L: "linked \<sigma> qp = {t. Q \<sigma> t = Some qp \<and> (\<exists>pc. pcs \<sigma> t = Some pc \<and> is_linked pc)}" for \<sigma>
    by (auto simp: linked_def Q_def)
  have f: "x \<noteq> t \<Longrightarrow> Q \<sigma>' x = Q \<sigma> x" for x
    using assms(2) by (simp add: Q_def)
  have "linked \<sigma>' qp =
           (linked \<sigma> qp - {t}) \<union> (if is_linked pc' \<and> Q \<sigma>' t = Some qp then {t} else {})"
    unfolding L using assms(1) f by (auto split: if_splits)
  then show ?thesis by (simp add: Q_def)
qed

lemma linked_same_pcs:
  assumes "pcs \<sigma>' = pcs \<sigma>"
    and "\<And>x. map_option at_q (threads (mem \<sigma>') x) = map_option at_q (threads (mem \<sigma>) x)"
  shows "linked \<sigma>' qp = linked \<sigma> qp"
proof -
  define Q where "Q \<sigma> x = map_option at_q (threads (mem \<sigma>) x)" for \<sigma> :: sys and x
  have L: "linked \<sigma> qp = {t. Q \<sigma> t = Some qp \<and> (\<exists>pc. pcs \<sigma> t = Some pc \<and> is_linked pc)}" for \<sigma>
    by (auto simp: linked_def Q_def)
  have f: "Q \<sigma>' x = Q \<sigma> x" for x
    using assms(2) by (simp add: Q_def)
  show ?thesis
    unfolding L using assms(1) f by auto
qed

lemma linked_subset_users: "linked \<sigma> qp \<subseteq> users \<sigma> qp"
proof
  fix t assume "t \<in> linked \<sigma> qp"
  then obtain a pc where "threads (mem \<sigma>) t = Some a" "at_q a = qp" "pcs \<sigma> t = Some pc" "is_linked pc"
    by (auto simp: linked_def)
  then show "t \<in> users \<sigma> qp"
    by (cases pc) (auto simp: users_def)
qed

lemma users_subset_dom: "users \<sigma> qp \<subseteq> dom (pcs \<sigma>)"
  by (auto simp: users_def)

lemma users_finite: "finite (dom (pcs \<sigma>)) \<Longrightarrow> finite (users \<sigma> qp)"
  using users_subset_dom by (rule finite_subset)

lemma seq_ok_mono:
  assumes "seq_ok ex wr ts"
    and "\<And>u. u \<in> set ts \<Longrightarrow> ex' u \<Longrightarrow> ex u"
    and "\<And>u. u \<in> set ts \<Longrightarrow> wr' u = wr u"
  shows "seq_ok ex' wr' ts"
  using assms by (induction ts) auto

lemma seq_ok_at:
  assumes "seq_ok ex wr ts"
    and "ts = xs @ t # ys" and "\<forall>w \<in> set ys. \<not> wr w"
    and "\<And>u. u \<in> set ts \<Longrightarrow> u \<noteq> t \<Longrightarrow> ex' u \<Longrightarrow> ex u"
    and "distinct ts"
  shows "seq_ok ex' wr ts"
  using assms
proof (induction xs arbitrary: ts)
  case Nil
  then have "seq_ok ex wr ys" by simp
  then have "seq_ok ex' wr ys"
  proof (rule seq_ok_mono)
    fix u assume "u \<in> set ys" "ex' u"
    with Nil.prems(2,4,5) show "ex u" by auto
  qed simp
  with Nil show ?case by simp
next
  case (Cons x xs)
  let ?ts = "xs @ t # ys"
  from Cons.prems have ok: "seq_ok ex wr ?ts" and x: "ex x \<longrightarrow> (\<forall>w \<in> set ?ts. \<not> wr w)"
    and ne: "x \<noteq> t" and d: "distinct ?ts"
    by auto
  have "seq_ok ex' wr ?ts"
  proof (rule Cons.IH[OF ok refl Cons.prems(3) _ d])
    fix u assume "u \<in> set ?ts" "u \<noteq> t" "ex' u"
    with Cons.prems(2,4) show "ex u" by auto
  qed
  moreover have "ex' x \<longrightarrow> ex x"
    using Cons.prems(2) Cons.prems(4)[of x] ne by auto
  ultimately show ?case
    using x Cons.prems(2) by auto
qed

lemma seq_ok_remove:
  assumes "seq_ok ex wr (xs @ t # ys)"
  shows "seq_ok ex wr (xs @ ys)"
  using assms by (induction xs) auto

lemma seq_ok_exclusive:
  assumes "seq_ok ex wr ts" and "t1 \<in> set ts" "t2 \<in> set ts" "t1 \<noteq> t2"
    and "ex t1" "wr t1" "ex t2" "wr t2"
  shows False
  using assms by (induction ts) auto

lemma seq_ok_after:
  assumes "seq_ok ex wr (xs @ t # ys)" and "ex t"
  shows "\<forall>w \<in> set ys. \<not> wr w"
  using assms by (induction xs) auto

subsection \<open>The steps of the interleaving\<close>

lemma step_Wake_local:
  assumes "step K (Wake t) \<sigma> = Some \<sigma>'"
  shows "local_step t \<sigma> \<sigma>'"
proof -
  from assms obtain loc go s1 where
    pc: "pcs \<sigma> t = Some (Waiting loc)"
    and w: "sequenced_wait K t loc (mem \<sigma>) = Some (go, s1)"
    and \<sigma>': "\<sigma>' = \<lparr>mem = s1, pcs = (pcs \<sigma>)(t \<mapsto> (if go then In_io else Waiting loc))\<rparr>"
    by (auto split: option.splits wpc.splits bind_splits)
  from sequenced_wait_frame[OF w] obtain a where
    f: "threads s1 = threads (mem \<sigma>)" "queues s1 = queues (mem \<sigma>)"
    "threads (mem \<sigma>) t = Some a" "go \<longrightarrow> scan (threads (mem \<sigma>)) (at_next a) = Some None"
    by auto
  have "threads (mem \<sigma>') = (threads (mem \<sigma>))(t \<mapsto> a)"
    using f by (auto simp: \<sigma>')
  with pc f show ?thesis
    unfolding local_step_def
    by (intro exI[of _ "Waiting loc"] exI[of _ "if go then In_io else Waiting loc"] exI[of _ a])
       (auto simp: \<sigma>')
qed

lemma step_Cancel_cas_local:
  assumes "step K (Cancel_cas t) \<sigma> = Some \<sigma>'"
  shows "local_step t \<sigma> \<sigma>'"
proof -
  from assms obtain pc s1 where
    pc: "pcs \<sigma> t = Some pc" "is_linked pc"
    and c: "cancel_cas t (mem \<sigma>) = Some s1"
    and \<sigma>': "\<sigma>' = \<sigma>\<lparr>mem := s1\<rparr>"
    by (auto split: option.splits if_splits bind_splits)
  from cancel_cas_effect[OF c] obtain a where
    a: "threads (mem \<sigma>) t = Some a"
    and s1: "s1 = emits (Cas_running t (at_running a) # (if at_running a \<noteq> 0 then [Pthread_cancel t] else []))
                    ((mem \<sigma>)\<lparr>threads := (threads (mem \<sigma>))(t \<mapsto> (if at_running a = 1 then a\<lparr>at_running := - 1\<rparr> else a))\<rparr>)"
    by blast
  have "pcs \<sigma>' = (pcs \<sigma>)(t \<mapsto> pc)"
    using pc by (auto simp: \<sigma>')
  with pc a show ?thesis
    unfolding local_step_def
    by (intro exI[of _ pc] exI[of _ pc] exI[of _ a]
          exI[of _ "if at_running a = 1 then a\<lparr>at_running := - 1\<rparr> else a"])
       (auto simp: \<sigma>' s1)
qed

lemma step_Cancelled_local:
  assumes "step K (Cancelled t) \<sigma> = Some \<sigma>'"
  shows "local_step t \<sigma> \<sigma>'"
proof -
  from assms obtain pc a where
    pc: "pcs \<sigma> t = Some pc" "at_cancellation_point pc"
    and a: "threads (mem \<sigma>) t = Some a"
    and \<sigma>': "\<sigma>' = \<sigma>\<lparr>pcs := (pcs \<sigma>)(t \<mapsto> At_cleanup)\<rparr>"
    by (auto split: option.splits if_splits bind_splits)
  from pc(2) have "is_linked pc" by (cases pc) auto
  with pc a show ?thesis
    unfolding local_step_def
    by (intro exI[of _ pc] exI[of _ At_cleanup] exI[of _ a] exI[of _ a]) (auto simp: \<sigma>')
qed

lemma step_Io_done_local:
  assumes "step K (Io_done t r e) \<sigma> = Some \<sigma>'"
  shows "local_step t \<sigma> \<sigma>'"
proof -
  from assms obtain s1 where
    pc: "pcs \<sigma> t = Some In_io"
    and c: "io_thread_return t r e (mem \<sigma>) = Some s1"
    and \<sigma>': "\<sigma>' = \<lparr>mem = s1, pcs = (pcs \<sigma>)(t \<mapsto> At_cleanup)\<rparr>"
    by (auto split: option.splits wpc.splits bind_splits)
  from io_thread_return_effect[OF c] obtain a where
    a: "threads (mem \<sigma>) t = Some a"
    and s1: "s1 = emits [Io_return t r e]
                    ((mem \<sigma>)\<lparr>threads := (threads (mem \<sigma>))(t \<mapsto> a\<lparr>at_ret := r, at_err := (if r < 0 then e else 0)\<rparr>)\<rparr>)"
    by blast
  with pc show ?thesis
    unfolding local_step_def
    by (intro exI[of _ In_io] exI[of _ At_cleanup] exI[of _ a]
          exI[of _ "a\<lparr>at_ret := r, at_err := (if r < 0 then e else 0)\<rparr>"])
       (auto simp: \<sigma>' s1)
qed

lemma step_Cleanup_wake_local:
  assumes "step K (Cleanup_wake t) \<sigma> = Some \<sigma>'"
  shows "local_step t \<sigma> \<sigma>'"
proof -
  from assms obtain sev s1 where
    pc: "pcs \<sigma> t = Some At_cleanup"
    and c: "cleanup_wake K t (mem \<sigma>) = Some (sev, s1)"
    and \<sigma>': "\<sigma>' = \<lparr>mem = s1, pcs = (pcs \<sigma>)(t \<mapsto> Unlinking sev)\<rparr>"
    by (auto split: option.splits wpc.splits bind_splits)
  from c obtain a c0 where a: "threads (mem \<sigma>) t = Some a" and c0: "cbs (mem \<sigma>) (at_cb a) = Some c0"
    by (auto simp: cleanup_wake_def split: bind_splits)
  from c cleanup_wake_eq[OF a c0, of K] have
    s1: "s1 = emits (wake_actions K t a c0 (aio_fut (mem \<sigma>)))
                   ((mem \<sigma>)\<lparr>cbs := (cbs (mem \<sigma>))(at_cb a \<mapsto> c0\<lparr>cb_ret := at_ret a, cb_err := at_err a\<rparr>),
                      threads := (threads (mem \<sigma>))(t \<mapsto> a\<lparr>at_running := 0\<rparr>),
                      aio_fut := 0\<rparr>)"
    by simp
  with pc a show ?thesis
    unfolding local_step_def
    by (intro exI[of _ At_cleanup] exI[of _ "Unlinking sev"] exI[of _ a]
          exI[of _ "a\<lparr>at_running := 0\<rparr>"])
       (auto simp: \<sigma>')
qed

lemma step_Submit_effect:
  assumes "step K (Submit t cb op env) \<sigma> = Some \<sigma>'"
  shows "pcs \<sigma> t = None \<and> threads (mem \<sigma>) t = None \<and> queues (mem \<sigma>) (new_queue (getq env)) = None
       \<and> op \<in> {LIO_READ, LIO_WRITE, O_SYNC K, O_DSYNC K}
       \<and> (\<exists>c qp q0 pre attr.
             cbs (mem \<sigma>) cb = Some c
           \<and> pcs \<sigma>' = (pcs \<sigma>)(t \<mapsto> Spawned \<lparr>args_cb = cb, args_q = qp, args_op = op\<rparr>)
           \<and> threads (mem \<sigma>') = threads (mem \<sigma>)
           \<and> queues (mem \<sigma>') = (queues (mem \<sigma>))(qp \<mapsto> q0\<lparr>q_ref := q_ref q0 + 1\<rparr>)
           \<and> (queues (mem \<sigma>) qp = Some q0
              \<or> (qp = new_queue (getq env)
                 \<and> q0 = \<lparr>q_fd = aio_fildes c, q_seekable = False, q_append = False, q_ref = 0,
                          q_init = False, q_head = None\<rparr>))
           \<and> trace (mem \<sigma>') = trace (mem \<sigma>) @ pre @
                [Store_err cb (EINPROGRESS K),
                 Pthread_create attr \<lparr>args_cb = cb, args_q = qp, args_op = op\<rparr>,
                 Sigmask_restore, Sem_wait])"
proof -
  from assms have pre: "pcs \<sigma> t = None" "threads (mem \<sigma>) t = None"
    "queues (mem \<sigma>) (new_queue (getq env)) = None" "op \<in> {LIO_READ, LIO_WRITE, O_SYNC K, O_DSYNC K}"
    by (auto split: if_splits)
  with assms obtain c where c: "cbs (mem \<sigma>) cb = Some c"
    by (cases "cbs (mem \<sigma>) cb") auto
  with assms pre obtain r s1 where sub: "submit K env id cb op (mem \<sigma>) = Some (r, s1)"
    by (cases "submit K env id cb op (mem \<sigma>)") auto
  with assms pre c obtain qp where g: "fst (aio_get_queue K (getq env) (aio_fildes c) True (mem \<sigma>)) = Some qp"
    by (cases "fst (aio_get_queue K (getq env) (aio_fildes c) True (mem \<sigma>))") auto
  with assms pre c sub have r: "r = 0"
    and \<sigma>': "\<sigma>' = \<lparr>mem = s1, pcs = (pcs \<sigma>)(t \<mapsto> Spawned \<lparr>args_cb = cb, args_q = qp, args_op = op\<rparr>)\<rparr>"
    by (auto split: if_splits)
  from submit_ok_effect[OF sub[unfolded r] c] g obtain q0 pr attr where
    "threads s1 = threads (mem \<sigma>)"
    "queues s1 = (queues (mem \<sigma>))(qp \<mapsto> q0\<lparr>q_ref := q_ref q0 + 1\<rparr>)"
    "queues (mem \<sigma>) qp = Some q0
            \<or> (qp = new_queue (getq env)
               \<and> q0 = \<lparr>q_fd = aio_fildes c, q_seekable = False, q_append = False, q_ref = 0,
                        q_init = False, q_head = None\<rparr>)"
    "trace s1 = trace (mem \<sigma>) @ pr @
              [Store_err cb (EINPROGRESS K),
               Pthread_create attr \<lparr>args_cb = cb, args_q = qp, args_op = op\<rparr>,
               Sigmask_restore, Sem_wait]"
    by auto
  with pre c \<sigma>' show ?thesis
    by (simp del: ex_simps) blast
qed

lemma step_Enter_effect:
  assumes "step K (Enter t cenv) \<sigma> = Some \<sigma>'"
  shows "\<exists>args loc s1 go.
           pcs \<sigma> t = Some (Spawned args) \<and> threads (mem \<sigma>) t = None
         \<and> io_thread_enter K cenv t args (mem \<sigma>) = Some (loc, s1)
         \<and> io_thread_sequence K t loc s1 = Some (go, mem \<sigma>')
         \<and> pcs \<sigma>' = (pcs \<sigma>)(t \<mapsto> (if go then In_io else Waiting loc))"
proof -
  from assms obtain args where pc: "pcs \<sigma> t = Some (Spawned args)"
    by (auto split: option.splits wpc.splits)
  with assms have fresh: "threads (mem \<sigma>) t = None"
    by (auto split: if_splits)
  with assms pc obtain loc s1 where e: "io_thread_enter K cenv t args (mem \<sigma>) = Some (loc, s1)"
    by (cases "io_thread_enter K cenv t args (mem \<sigma>)") auto
  with assms pc fresh obtain go s2 where q: "io_thread_sequence K t loc s1 = Some (go, s2)"
    by (cases "io_thread_sequence K t loc s1") auto
  with assms pc fresh e have "\<sigma>' = \<lparr>mem = s2, pcs = (pcs \<sigma>)(t \<mapsto> (if go then In_io else Waiting loc))\<rparr>"
    by simp
  with pc fresh e q show ?thesis
    by (intro exI[of _ args] exI[of _ loc] exI[of _ s1] exI[of _ go]) simp
qed

lemma step_Cleanup_unlink_effect:
  assumes "step K (Cleanup_unlink t) \<sigma> = Some \<sigma>'"
  shows "\<exists>sev a s1 s2 returned.
           pcs \<sigma> t = Some (Unlinking sev) \<and> threads (mem \<sigma>) t = Some a
         \<and> unlink t (emits [Mutex_lock (at_q a)] (mem \<sigma>)) = Some s1
         \<and> unref_fast (at_q a) (emits [Cond_broadcast (at_q a)] s1) = Some (returned, s2)
         \<and> mem \<sigma>' = (if returned then cleanup_notify K sev s2 else s2)
         \<and> pcs \<sigma>' = (pcs \<sigma>)(t \<mapsto> (if returned then Exited else Unref_pending sev))"
proof -
  from assms obtain sev where pc: "pcs \<sigma> t = Some (Unlinking sev)"
    by (auto split: option.splits wpc.splits)
  with assms obtain returned s2 where cu: "cleanup_unlink t (mem \<sigma>) = Some (returned, s2)"
    by (cases "cleanup_unlink t (mem \<sigma>)") auto
  with assms pc have \<sigma>': "\<sigma>' = (if returned
                then \<lparr>mem = cleanup_notify K sev s2, pcs = (pcs \<sigma>)(t \<mapsto> Exited)\<rparr>
                else \<lparr>mem = s2, pcs = (pcs \<sigma>)(t \<mapsto> Unref_pending sev)\<rparr>)"
    by simp
  from cu obtain a where a: "threads (mem \<sigma>) t = Some a"
    by (cases "threads (mem \<sigma>) t") (auto simp: cleanup_unlink_def)
  with cu obtain s1 where u: "unlink t (emits [Mutex_lock (at_q a)] (mem \<sigma>)) = Some s1"
    by (cases "unlink t (emits [Mutex_lock (at_q a)] (mem \<sigma>))") (auto simp: cleanup_unlink_def)
  with cu a have f: "unref_fast (at_q a) (emits [Cond_broadcast (at_q a)] s1) = Some (returned, s2)"
    by (simp add: cleanup_unlink_def)
  from pc a u f \<sigma>' show ?thesis
    by (intro exI[of _ sev] exI[of _ a] exI[of _ s1] exI[of _ s2] exI[of _ returned]) simp
qed

lemma step_Unref_slow_effect:
  assumes "step K (Unref_slow t) \<sigma> = Some \<sigma>'"
  shows "\<exists>sev a s1.
           pcs \<sigma> t = Some (Unref_pending sev) \<and> threads (mem \<sigma>) t = Some a
         \<and> unref_slow (at_q a) (mem \<sigma>) = Some s1
         \<and> mem \<sigma>' = cleanup_notify K sev s1
         \<and> pcs \<sigma>' = (pcs \<sigma>)(t \<mapsto> Exited)"
proof -
  from assms obtain sev where pc: "pcs \<sigma> t = Some (Unref_pending sev)"
    by (auto split: option.splits wpc.splits)
  with assms obtain a where a: "threads (mem \<sigma>) t = Some a"
    by (cases "threads (mem \<sigma>) t") auto
  with assms pc obtain s1 where u: "unref_slow (at_q a) (mem \<sigma>) = Some s1"
    by (cases "unref_slow (at_q a) (mem \<sigma>)") auto
  with assms pc a have "\<sigma>' = \<lparr>mem = cleanup_notify K sev s1, pcs = (pcs \<sigma>)(t \<mapsto> Exited)\<rparr>"
    by simp
  with pc a u show ?thesis
    by (intro exI[of _ sev] exI[of _ a] exI[of _ s1]) simp
qed

subsection \<open>The reference count is the number of users\<close>

lemma holds_ref_linked:
  "is_linked pc \<Longrightarrow> holds_ref s t pc qp = (map_option at_q (threads s t) = Some qp)"
  by (cases pc) (auto split: option.splits)

lemma users_keep:
  assumes "pcs \<sigma>' = (pcs \<sigma>)(t \<mapsto> pc')" and "pcs \<sigma> t = Some pc"
    and "\<And>x. x \<noteq> t \<Longrightarrow> map_option at_q (threads (mem \<sigma>') x) = map_option at_q (threads (mem \<sigma>) x)"
    and "holds_ref (mem \<sigma>') t pc' qp = holds_ref (mem \<sigma>) t pc qp"
  shows "users \<sigma>' qp = users \<sigma> qp"
proof -
  have "t \<in> users \<sigma> qp \<longleftrightarrow> holds_ref (mem \<sigma>) t pc qp"
    using assms(2) by (auto simp: users_def)
  with users_update[OF assms(1,3), of qp] assms(4) show ?thesis
    by auto
qed

lemma users_drop:
  assumes "pcs \<sigma>' = (pcs \<sigma>)(t \<mapsto> Exited)"
    and "\<And>x. x \<noteq> t \<Longrightarrow> map_option at_q (threads (mem \<sigma>') x) = map_option at_q (threads (mem \<sigma>) x)"
  shows "users \<sigma>' qp = users \<sigma> qp - {t}"
  using users_update[OF assms, of qp] by simp

lemma refs_invI:
  assumes "finite (dom (pcs \<sigma>))"
    and "\<And>qp. queues (mem \<sigma>) qp = None \<Longrightarrow> users \<sigma> qp = {}"
    and "\<And>qp q. queues (mem \<sigma>) qp = Some q \<Longrightarrow> q_ref q = int (card (users \<sigma> qp))"
  shows "refs_inv \<sigma>"
  using assms by (auto simp: refs_inv_def split: option.splits)

lemma refs_invD:
  assumes "refs_inv \<sigma>"
  shows "finite (dom (pcs \<sigma>))"
    and "queues (mem \<sigma>) qp = None \<Longrightarrow> users \<sigma> qp = {}"
    and "queues (mem \<sigma>) qp = Some q \<Longrightarrow> q_ref q = int (card (users \<sigma> qp))"
  using assms by (auto simp: refs_inv_def split: option.splits dest: spec[of _ qp])

lemma refs_inv_same:
  assumes inv: "refs_inv \<sigma>"
    and d: "dom (pcs \<sigma>') = dom (pcs \<sigma>)"
    and u: "\<And>qp. users \<sigma>' qp = users \<sigma> qp"
    and q: "\<And>qp. map_option q_ref (queues (mem \<sigma>') qp) = map_option q_ref (queues (mem \<sigma>) qp)"
  shows "refs_inv \<sigma>'"
proof (rule refs_invI)
  show "finite (dom (pcs \<sigma>'))"
    using refs_invD(1)[OF inv] d by simp
next
  fix qp assume "queues (mem \<sigma>') qp = None"
  with q[of qp] have "queues (mem \<sigma>) qp = None" by simp
  with refs_invD(2)[OF inv] u show "users \<sigma>' qp = {}" by simp
next
  fix qp q assume a: "queues (mem \<sigma>') qp = Some q"
  with q[of qp] obtain q0 where "queues (mem \<sigma>) qp = Some q0" "q_ref q0 = q_ref q"
    by (cases "queues (mem \<sigma>) qp") auto
  with refs_invD(3)[OF inv] u show "q_ref q = int (card (users \<sigma>' qp))" by simp
qed

lemma refs_inv_local:
  assumes inv: "refs_inv \<sigma>" and l: "local_step t \<sigma> \<sigma>'"
  shows "refs_inv \<sigma>'"
proof -
  from l obtain pc pc' a a' where
    pc: "pcs \<sigma> t = Some pc" "is_linked pc" "is_linked pc'" "pcs \<sigma>' = (pcs \<sigma>)(t \<mapsto> pc')"
    and th: "threads (mem \<sigma>) t = Some a" "threads (mem \<sigma>') = (threads (mem \<sigma>))(t \<mapsto> a')" "at_q a' = at_q a"
    and qs: "queues (mem \<sigma>') = queues (mem \<sigma>)"
    unfolding local_step_def by blast
  show ?thesis
  proof (rule refs_inv_same[OF inv])
    show "dom (pcs \<sigma>') = dom (pcs \<sigma>)"
      using pc by auto
    show "users \<sigma>' qp = users \<sigma> qp" for qp
    proof (rule users_keep[OF pc(4) pc(1)])
      show "map_option at_q (threads (mem \<sigma>') x) = map_option at_q (threads (mem \<sigma>) x)" if "x \<noteq> t" for x
        using that th by simp
      show "holds_ref (mem \<sigma>') t pc' qp = holds_ref (mem \<sigma>) t pc qp"
        using pc th by (simp add: holds_ref_linked)
    qed
    show "map_option q_ref (queues (mem \<sigma>') qp) = map_option q_ref (queues (mem \<sigma>) qp)" for qp
      using qs by simp
  qed
qed

lemma refs_inv_Submit:
  assumes inv: "refs_inv \<sigma>" and st: "step K (Submit t cb op env) \<sigma> = Some \<sigma>'"
  shows "refs_inv \<sigma>'"
proof -
  from step_Submit_effect[OF st] have
    fresh: "pcs \<sigma> t = None" "queues (mem \<sigma>) (new_queue (getq env)) = None"
    by simp_all
  from step_Submit_effect[OF st] obtain c :: aiocb and qp q0 where
    pcs': "pcs \<sigma>' = (pcs \<sigma>)(t \<mapsto> Spawned \<lparr>args_cb = cb, args_q = qp, args_op = op\<rparr>)"
    and th: "threads (mem \<sigma>') = threads (mem \<sigma>)"
    and qs: "queues (mem \<sigma>') = (queues (mem \<sigma>))(qp \<mapsto> q0\<lparr>q_ref := q_ref q0 + 1\<rparr>)"
    and q0: "queues (mem \<sigma>) qp = Some q0
              \<or> (qp = new_queue (getq env)
                 \<and> q0 = \<lparr>q_fd = aio_fildes c, q_seekable = False, q_append = False, q_ref = 0,
                          q_init = False, q_head = None\<rparr>)"
    by blast
  have fin: "finite (dom (pcs \<sigma>))" by (rule refs_invD(1)[OF inv])
  have tnot: "t \<notin> users \<sigma> x" for x
    using fresh(1) by (auto simp: users_def)
  have us: "users \<sigma>' x = users \<sigma> x \<union> (if x = qp then {t} else {})" for x
    using users_update[OF pcs', of x] th tnot[of x] by auto
  show ?thesis
  proof (rule refs_invI)
    show "finite (dom (pcs \<sigma>'))" using fin pcs' by simp
  next
    fix x assume "queues (mem \<sigma>') x = None"
    with qs have "x \<noteq> qp" "queues (mem \<sigma>) x = None" by (auto split: if_splits)
    with refs_invD(2)[OF inv] us show "users \<sigma>' x = {}" by simp
  next
    fix x q assume a: "queues (mem \<sigma>') x = Some q"
    show "q_ref q = int (card (users \<sigma>' x))"
    proof (cases "x = qp")
      case False
      with a qs have "queues (mem \<sigma>) x = Some q" by simp
      with refs_invD(3)[OF inv] us False show ?thesis by simp
    next
      case True
      with a qs have q: "q = q0\<lparr>q_ref := q_ref q0 + 1\<rparr>" by simp
      have "q_ref q0 = int (card (users \<sigma> qp))"
      proof (cases "queues (mem \<sigma>) qp")
        case (Some y)
        with q0 fresh(2) have "queues (mem \<sigma>) qp = Some q0" by auto
        then show ?thesis by (rule refs_invD(3)[OF inv])
      next
        case None
        with q0 have "q_ref q0 = 0" by auto
        with refs_invD(2)[OF inv None] show ?thesis by simp
      qed
      moreover have "card (users \<sigma>' qp) = Suc (card (users \<sigma> qp))"
        using us[of qp] tnot[of qp] users_finite[OF fin, of qp] by simp
      ultimately show ?thesis using q True by simp
    qed
  qed
qed

lemma same_but_links_simps [simp]:
  "same_but_links a a"
  "same_but_links a (a\<lparr>at_prev := p\<rparr>)"
  "same_but_links a (a\<lparr>at_next := n\<rparr>)"
  by (simp_all add: same_but_links_def)

lemma same_but_linksD:
  assumes "same_but_links a b"
  shows "at_q b = at_q a" "at_op b = at_op a" "at_cb b = at_cb a" "at_err b = at_err a"
    "at_ret b = at_ret a" "at_running b = at_running a" "at_td b = at_td a"
proof -
  from assms have e: "b = a\<lparr>at_next := at_next b, at_prev := at_prev b\<rparr>"
    by (simp add: same_but_links_def)
  show "at_q b = at_q a" by (subst e) simp
  show "at_op b = at_op a" by (subst e) simp
  show "at_cb b = at_cb a" by (subst e) simp
  show "at_err b = at_err a" by (subst e) simp
  show "at_ret b = at_ret a" by (subst e) simp
  show "at_running b = at_running a" by (subst e) simp
  show "at_td b = at_td a" by (subst e) simp
qed

lemma unlink_frame:
  assumes "unlink t s = Some s'"
  shows "(\<forall>x. rel_option same_but_links (threads s x) (threads s' x))
       \<and> (\<forall>qp. rel_option (\<lambda>q q'. q\<lparr>q_head := q_head q'\<rparr> = q') (queues s qp) (queues s' qp))
       \<and> cbs s' = cbs s \<and> trace s' = trace s @ [Unlink t]"
proof -
  from assms obtain a where a: "threads s t = Some a"
    by (cases "threads s t") (auto simp: unlink_def)
  define s1 where "s1 = (case at_next a of None \<Rightarrow> s
     | Some n \<Rightarrow> s\<lparr>threads := (threads s)(n \<mapsto> (the (threads s n))\<lparr>at_prev := at_prev a\<rparr>)\<rparr>)"
  from assms a have nx: "at_next a = Some n \<Longrightarrow> threads s n \<noteq> None" for n
    by (auto simp: unlink_def split: bind_splits)
  have step1: "(case at_next a of
              None \<Rightarrow> Some s
            | Some n \<Rightarrow> do {
                an \<leftarrow> threads s n;
                Some (s\<lparr>threads := (threads s)(n \<mapsto> an\<lparr>at_prev := at_prev a\<rparr>)\<rparr>) }) = Some s1"
    using nx by (cases "at_next a") (auto simp: s1_def)
  have r1: "rel_option same_but_links (threads s x) (threads s1 x)" for x
    using nx by (cases "at_next a"; cases "threads s x") (auto simp: s1_def)
  have o1: "queues s1 = queues s" "cbs s1 = cbs s" "trace s1 = trace s"
    by (cases "at_next a"; simp add: s1_def)+
  from r1[of t] a obtain a1 where a1: "threads s1 t = Some a1" "same_but_links a a1"
    by (cases "threads s1 t") auto
  show ?thesis
  proof (cases "at_prev a1")
    case None
    with assms a step1 a1 obtain q where q: "queues s1 (at_q a1) = Some q"
      and s': "s' = emits [Unlink t] (s1\<lparr>queues := (queues s1)(at_q a1 \<mapsto> q\<lparr>q_head := at_next a1\<rparr>)\<rparr>)"
      by (auto simp: unlink_def split: bind_splits)
    have "rel_option (\<lambda>q q'. q\<lparr>q_head := q_head q'\<rparr> = q') (queues s qp) (queues s' qp)" for qp
      using q o1 by (cases "queues s qp") (auto simp: s')
    with r1 o1 show ?thesis by (simp add: s')
  next
    case (Some pr)
    with assms a step1 a1 obtain ap where ap: "threads s1 pr = Some ap"
      and s': "s' = emits [Unlink t] (s1\<lparr>threads := (threads s1)(pr \<mapsto> ap\<lparr>at_next := at_next a1\<rparr>)\<rparr>)"
      by (auto simp: unlink_def split: bind_splits)
    have "rel_option same_but_links (threads s x) (threads s' x)" for x
    proof (cases "x = pr")
      case True
      with r1[of pr] ap obtain a0 where "threads s pr = Some a0" "same_but_links a0 ap"
        by (cases "threads s pr") auto
      then have "same_but_links a0 (ap\<lparr>at_next := at_next a1\<rparr>)"
        by (auto simp: same_but_links_def) (metis aio_thread.surjective aio_thread.update_convs(3,4))
      with True \<open>threads s pr = Some a0\<close> show ?thesis by (simp add: s')
    next
      case False
      with r1[of x] show ?thesis by (simp add: s')
    qed
    moreover have "rel_option (\<lambda>q q'. q\<lparr>q_head := q_head q'\<rparr> = q') (queues s qp) (queues s' qp)" for qp
      using o1 by (cases "queues s qp") (auto simp: s')
    ultimately show ?thesis using o1 by (simp add: s')
  qed
qed

lemma step_Enter_detail:
  assumes st: "step K (Enter t cenv) \<sigma> = Some \<sigma>'"
  shows "\<exists>args loc go q q' xs.
           pcs \<sigma> t = Some (Spawned args) \<and> threads (mem \<sigma>) t = None
         \<and> pcs \<sigma>' = (pcs \<sigma>)(t \<mapsto> (if go then In_io else Waiting loc))
         \<and> queues (mem \<sigma>) (args_q args) = Some q
         \<and> queues (mem \<sigma>') = (queues (mem \<sigma>))(args_q args \<mapsto> q')
         \<and> q_head q' = Some t \<and> q_ref q' = q_ref q \<and> q_init q'
         \<and> (q_init q \<longrightarrow> q_append q' = q_append q)
         \<and> threads (mem \<sigma>') t =
              Some \<lparr>at_td = t, at_cb = args_cb args, at_next = q_head q, at_prev = None,
                    at_q = args_q args, at_running = 1, at_err = ECANCELED K,
                    at_op = args_op args, at_ret = - 1\<rparr>
         \<and> (\<forall>x. x \<noteq> t \<longrightarrow>
                threads (mem \<sigma>') x = (if Some x = q_head q
                                then map_option (\<lambda>a. a\<lparr>at_prev := Some t\<rparr>) (threads (mem \<sigma>) x)
                                else threads (mem \<sigma>) x))
         \<and> (\<forall>x. q_head q = Some x \<longrightarrow> threads (mem \<sigma>) x \<noteq> None)
         \<and> (go \<and> needs_sequencing (args_op args) (q_append q') \<longrightarrow>
              scan (threads (mem \<sigma>')) (q_head q) = Some None)
         \<and> cbs (mem \<sigma>') = cbs (mem \<sigma>)
         \<and> trace (mem \<sigma>') = trace (mem \<sigma>) @ [Mutex_lock (args_q args), Sem_post] @ xs
         \<and> xs = (if go then [Mutex_unlock (args_q args),
                              Io_issue t (the (io_call K (args_op args) q' loc))]
                  else [Cond_wait (args_q args)])"
proof -
  from step_Enter_effect[OF st] obtain args loc s1 go where
    pc: "pcs \<sigma> t = Some (Spawned args)" and fresh: "threads (mem \<sigma>) t = None"
    and en: "io_thread_enter K cenv t args (mem \<sigma>) = Some (loc, s1)"
    and sq: "io_thread_sequence K t loc s1 = Some (go, mem \<sigma>')"
    and pcs': "pcs \<sigma>' = (pcs \<sigma>)(t \<mapsto> (if go then In_io else Waiting loc))"
    by blast
  from io_thread_enter_link[OF en] obtain s0 q1 where
    l: "link_head K t args (emits [Mutex_lock (args_q args), Sem_post] (mem \<sigma>)) = Some s0"
    and q1: "queues s0 (args_q args) = Some q1"
    and e1: "threads s1 = threads s0" "trace s1 = trace s0" "cbs s1 = cbs s0"
    and qs1: "queues s1 = (queues s0)(args_q args \<mapsto>
               (if q_init q1 then q1
                else q1\<lparr>q_seekable := lseek_ok cenv,
                        q_append := (\<not> lseek_ok cenv \<or> fl_append cenv), q_init := True\<rparr>))"
    by blast
  from fresh have "threads (emits [Mutex_lock (args_q args), Sem_post] (mem \<sigma>)) t = None"
    by simp
  from link_head_threads[OF l this] obtain q where
    q: "queues (mem \<sigma>) (args_q args) = Some q"
    and qs0: "queues s0 = (queues (mem \<sigma>))(args_q args \<mapsto> q\<lparr>q_head := Some t\<rparr>)"
    and t0: "threads s0 t = Some \<lparr>at_td = t, at_cb = args_cb args, at_next = q_head q, at_prev = None,
                 at_q = args_q args, at_running = 1, at_err = ECANCELED K,
                 at_op = args_op args, at_ret = - 1\<rparr>"
    and o0: "\<forall>x. x \<noteq> t \<longrightarrow>
                threads s0 x = (if Some x = q_head q
                                then map_option (\<lambda>a. a\<lparr>at_prev := Some t\<rparr>) (threads (mem \<sigma>) x)
                                else threads (mem \<sigma>) x)"
    and hd: "\<forall>x. q_head q = Some x \<longrightarrow> threads (mem \<sigma>) x \<noteq> None"
    and tr0: "trace s0 = trace (mem \<sigma>) @ [Mutex_lock (args_q args), Sem_post]"
    and cb0: "cbs s0 = cbs (mem \<sigma>)"
    by auto
  define q' where "q' = (if q_init q1 then q1
                else q1\<lparr>q_seekable := lseek_ok cenv,
                        q_append := (\<not> lseek_ok cenv \<or> fl_append cenv), q_init := True\<rparr>)"
  from q1 qs0 have q1e: "q1 = q\<lparr>q_head := Some t\<rparr>" by simp
  have q'p: "q_head q' = Some t" "q_ref q' = q_ref q" "q_init q'" "q_init q \<longrightarrow> q_append q' = q_append q"
    by (auto simp: q'_def q1e)
  have qs': "queues s1 = (queues (mem \<sigma>))(args_q args \<mapsto> q')"
    using qs1 qs0 by (simp add: q'_def)
  from io_thread_sequence_frame[OF sq] e1 t0 qs' obtain xs where
    f: "threads (mem \<sigma>') = threads s1" "queues (mem \<sigma>') = queues s1" "cbs (mem \<sigma>') = cbs s1"
    and tr: "trace (mem \<sigma>') = trace s1 @ xs"
      "xs = (if go then [Mutex_unlock (args_q args), Io_issue t (the (io_call K (args_op args) q' loc))]
                      else [Cond_wait (args_q args)])"
    and sc: "go \<and> needs_sequencing (args_op args) (q_append q') \<longrightarrow> scan (threads s1) (q_head q) = Some None"
    by auto
  show ?thesis
    apply (rule exI[of _ args], rule exI[of _ loc], rule exI[of _ go], rule exI[of _ q],
           rule exI[of _ q'], rule exI[of _ xs])
    using pc fresh pcs' q q'p f qs' e1 t0 o0 hd sc tr tr0 cb0
    apply simp
    done
qed

lemma refs_inv_Enter:
  assumes inv: "refs_inv \<sigma>" and st: "step K (Enter t cenv) \<sigma> = Some \<sigma>'"
  shows "refs_inv \<sigma>'"
proof -
  from step_Enter_detail[OF st] obtain args loc go q q' where
    pc: "pcs \<sigma> t = Some (Spawned args)"
    and pcs': "pcs \<sigma>' = (pcs \<sigma>)(t \<mapsto> (if go then In_io else Waiting loc))"
    and q: "queues (mem \<sigma>) (args_q args) = Some q"
    and qs: "queues (mem \<sigma>') = (queues (mem \<sigma>))(args_q args \<mapsto> q')" "q_ref q' = q_ref q"
    and t': "threads (mem \<sigma>') t =
              Some \<lparr>at_td = t, at_cb = args_cb args, at_next = q_head q, at_prev = None,
                    at_q = args_q args, at_running = 1, at_err = ECANCELED K,
                    at_op = args_op args, at_ret = - 1\<rparr>"
    and o: "\<forall>x. x \<noteq> t \<longrightarrow>
                threads (mem \<sigma>') x = (if Some x = q_head q
                                then map_option (\<lambda>a. a\<lparr>at_prev := Some t\<rparr>) (threads (mem \<sigma>) x)
                                else threads (mem \<sigma>) x)"
    by blast
  have fr: "map_option at_q (threads (mem \<sigma>') x) = map_option at_q (threads (mem \<sigma>) x)" if "x \<noteq> t" for x
    using o that by (cases "threads (mem \<sigma>) x") auto
  show ?thesis
  proof (rule refs_inv_same[OF inv])
    show "dom (pcs \<sigma>') = dom (pcs \<sigma>)" using pc pcs' by auto
    show "users \<sigma>' qp = users \<sigma> qp" for qp
    proof (rule users_keep[OF pcs' pc fr])
      show "holds_ref (mem \<sigma>') t (if go then In_io else Waiting loc) qp = holds_ref (mem \<sigma>) t (Spawned args) qp"
        using t' by auto
    qed
    show "map_option q_ref (queues (mem \<sigma>') qp) = map_option q_ref (queues (mem \<sigma>) qp)" for qp
      using qs q by auto
  qed
qed

lemma refs_inv_Cleanup_unlink:
  assumes inv: "refs_inv \<sigma>" and st: "step K (Cleanup_unlink t) \<sigma> = Some \<sigma>'"
  shows "refs_inv \<sigma>'"
proof -
  from step_Cleanup_unlink_effect[OF st] obtain sev a s1 s2 returned where
    pc: "pcs \<sigma> t = Some (Unlinking sev)" and a: "threads (mem \<sigma>) t = Some a"
    and u: "unlink t (emits [Mutex_lock (at_q a)] (mem \<sigma>)) = Some s1"
    and f: "unref_fast (at_q a) (emits [Cond_broadcast (at_q a)] s1) = Some (returned, s2)"
    and m': "mem \<sigma>' = (if returned then cleanup_notify K sev s2 else s2)"
    and pcs': "pcs \<sigma>' = (pcs \<sigma>)(t \<mapsto> (if returned then Exited else Unref_pending sev))"
    by blast
  from unlink_frame[OF u] have
    r1: "\<And>x. rel_option same_but_links (threads (mem \<sigma>) x) (threads s1 x)"
    and rq: "\<And>qp. rel_option (\<lambda>q q'. q\<lparr>q_head := q_head q'\<rparr> = q') (queues (mem \<sigma>) qp) (queues s1 qp)"
    by auto
  from unref_fast_effect[OF f] obtain q1 where
    e2: "threads s2 = threads s1" "queues s1 (at_q a) = Some q1" "returned = (1 < q_ref q1)"
    "queues s2 = (if returned then (queues s1)(at_q a \<mapsto> q1\<lparr>q_ref := q_ref q1 - 1\<rparr>) else queues s1)"
    by auto
  have th': "threads (mem \<sigma>') = threads s1" and qs': "queues (mem \<sigma>') = queues s2"
    using m' e2 by (auto simp: cleanup_notify_def)
  have fr: "map_option at_q (threads (mem \<sigma>') x) = map_option at_q (threads (mem \<sigma>) x)" for x
    using r1[of x] th' by (cases "threads (mem \<sigma>) x"; cases "threads s1 x") (auto dest: same_but_linksD)
  have qref: "map_option q_ref (queues s1 qp) = map_option q_ref (queues (mem \<sigma>) qp)" for qp
  proof (cases "queues (mem \<sigma>) qp")
    case None
    with rq[of qp] show ?thesis by (cases "queues s1 qp") auto
  next
    case (Some q)
    with rq[of qp] obtain q' where "queues s1 qp = Some q'" "q\<lparr>q_head := q_head q'\<rparr> = q'"
      by (cases "queues s1 qp") auto
    then have "q_ref q' = q_ref q"
      by (metis aio_queue.select_convs(4) aio_queue.surjective aio_queue.update_convs(6))
    with Some \<open>queues s1 qp = Some q'\<close> show ?thesis by simp
  qed
  have fin: "finite (dom (pcs \<sigma>))" by (rule refs_invD(1)[OF inv])
  have tin: "t \<in> users \<sigma> (at_q a)"
    using pc a by (auto simp: users_def)
  show ?thesis
  proof (cases returned)
    case False
    show ?thesis
    proof (rule refs_inv_same[OF inv])
      show "dom (pcs \<sigma>') = dom (pcs \<sigma>)" using pc pcs' by auto
      show "users \<sigma>' qp = users \<sigma> qp" for qp
      proof (rule users_keep[OF pcs' pc fr])
        show "holds_ref (mem \<sigma>') t (if returned then Exited else Unref_pending sev) qp
              = holds_ref (mem \<sigma>) t (Unlinking sev) qp"
          using False fr[of t] by (cases "threads (mem \<sigma>') t"; cases "threads (mem \<sigma>) t") auto
      qed
      show "map_option q_ref (queues (mem \<sigma>') qp) = map_option q_ref (queues (mem \<sigma>) qp)" for qp
        using qs' e2(4) False qref by simp
    qed
  next
    case True
    with pcs' have pe: "pcs \<sigma>' = (pcs \<sigma>)(t \<mapsto> Exited)" by simp
    have us: "users \<sigma>' qp = users \<sigma> qp - {t}" for qp
      by (rule users_drop[OF pe fr])
    have tonly: "t \<in> users \<sigma> qp \<Longrightarrow> qp = at_q a" for qp
      using pc a by (auto simp: users_def)
    show ?thesis
    proof (rule refs_invI)
      show "finite (dom (pcs \<sigma>'))" using fin pe by simp
    next
      fix qp assume n: "queues (mem \<sigma>') qp = None"
      with qs' e2(4) True have "queues s1 qp = None" by (auto split: if_splits)
      with qref[of qp] have "queues (mem \<sigma>) qp = None" by simp
      with refs_invD(2)[OF inv] us show "users \<sigma>' qp = {}" by simp
    next
      fix qp q assume s: "queues (mem \<sigma>') qp = Some q"
      show "q_ref q = int (card (users \<sigma>' qp))"
      proof (cases "qp = at_q a")
        case False
        with s qs' e2(4) True have "queues s1 qp = Some q" by simp
        with qref[of qp] obtain q0 where "queues (mem \<sigma>) qp = Some q0" "q_ref q0 = q_ref q"
          by (cases "queues (mem \<sigma>) qp") auto
        with refs_invD(3)[OF inv] have "q_ref q = int (card (users \<sigma> qp))" by simp
        moreover have "t \<notin> users \<sigma> qp" using tonly False by auto
        ultimately show ?thesis using us by simp
      next
        case same: True
        with s qs' e2(4) True have q: "q = q1\<lparr>q_ref := q_ref q1 - 1\<rparr>" by simp
        from qref[of "at_q a"] e2(2) obtain q0 where "queues (mem \<sigma>) (at_q a) = Some q0" "q_ref q0 = q_ref q1"
          by (cases "queues (mem \<sigma>) (at_q a)") auto
        with refs_invD(3)[OF inv] have "q_ref q1 = int (card (users \<sigma> (at_q a)))" by simp
        moreover have "card (users \<sigma> (at_q a) - {t}) = card (users \<sigma> (at_q a)) - 1"
          using tin users_finite[OF fin] by simp
        moreover have "0 < card (users \<sigma> (at_q a))"
          using tin users_finite[OF fin, of "at_q a"] by (auto simp: card_gt_0_iff)
        ultimately show ?thesis using q us same by simp
      qed
    qed
  qed
qed

lemma refs_inv_Unref_slow:
  assumes inv: "refs_inv \<sigma>" and st: "step K (Unref_slow t) \<sigma> = Some \<sigma>'"
  shows "refs_inv \<sigma>'"
proof -
  from step_Unref_slow_effect[OF st] obtain sev a s1 where
    pc: "pcs \<sigma> t = Some (Unref_pending sev)" and a: "threads (mem \<sigma>) t = Some a"
    and u: "unref_slow (at_q a) (mem \<sigma>) = Some s1"
    and m': "mem \<sigma>' = cleanup_notify K sev s1"
    and pe: "pcs \<sigma>' = (pcs \<sigma>)(t \<mapsto> Exited)"
    by blast
  from unref_slow_effect[OF u] obtain q where
    th: "threads s1 = threads (mem \<sigma>)" and q: "queues (mem \<sigma>) (at_q a) = Some q"
    and qs: "if q_ref q = 1 then queues s1 = (queues (mem \<sigma>))(at_q a := None)
             else queues s1 = (queues (mem \<sigma>))(at_q a \<mapsto> q\<lparr>q_ref := q_ref q - 1\<rparr>)"
    by (auto split: if_splits)
  have th': "threads (mem \<sigma>') = threads (mem \<sigma>)" and qs': "queues (mem \<sigma>') = queues s1"
    using m' th by (auto simp: cleanup_notify_def)
  have us: "users \<sigma>' qp = users \<sigma> qp - {t}" for qp
    by (rule users_drop[OF pe]) (simp add: th')
  have fin: "finite (dom (pcs \<sigma>))" by (rule refs_invD(1)[OF inv])
  have tin: "t \<in> users \<sigma> (at_q a)"
    using pc a by (auto simp: users_def)
  have tonly: "t \<in> users \<sigma> qp \<Longrightarrow> qp = at_q a" for qp
    using pc a by (auto simp: users_def)
  have cardq: "q_ref q = int (card (users \<sigma> (at_q a)))"
    using q by (rule refs_invD(3)[OF inv])
  show ?thesis
  proof (rule refs_invI)
    show "finite (dom (pcs \<sigma>'))" using fin pe by simp
  next
    fix qp assume n: "queues (mem \<sigma>') qp = None"
    show "users \<sigma>' qp = {}"
    proof (cases "qp = at_q a")
      case False
      with n qs' qs have "queues (mem \<sigma>) qp = None" by (auto split: if_splits)
      with refs_invD(2)[OF inv] us show ?thesis by simp
    next
      case True
      with n qs' qs have "q_ref q = 1" by (auto split: if_splits)
      with cardq have "card (users \<sigma> (at_q a)) = 1" by simp
      with tin have "users \<sigma> (at_q a) = {t}"
        by (auto simp: card_1_singleton_iff)
      with us True show ?thesis by simp
    qed
  next
    fix qp q' assume s: "queues (mem \<sigma>') qp = Some q'"
    show "q_ref q' = int (card (users \<sigma>' qp))"
    proof (cases "qp = at_q a")
      case False
      with s qs' qs have "queues (mem \<sigma>) qp = Some q'" by (auto split: if_splits)
      with refs_invD(3)[OF inv] have "q_ref q' = int (card (users \<sigma> qp))" by simp
      moreover have "t \<notin> users \<sigma> qp" using tonly False by auto
      ultimately show ?thesis using us by simp
    next
      case True
      with s qs' qs have q': "q' = q\<lparr>q_ref := q_ref q - 1\<rparr>" by (auto split: if_splits)
      have "card (users \<sigma> (at_q a) - {t}) = card (users \<sigma> (at_q a)) - 1"
        using tin users_finite[OF fin] by simp
      moreover have "0 < card (users \<sigma> (at_q a))"
        using tin users_finite[OF fin, of "at_q a"] by (auto simp: card_gt_0_iff)
      ultimately show ?thesis using q' us True cardq by simp
    qed
  qed
qed

lemma refs_inv_step:
  assumes inv: "refs_inv \<sigma>" and st: "step K ev \<sigma> = Some \<sigma>'"
  shows "refs_inv \<sigma>'"
proof (cases ev)
  case (Submit t cb op env)
  from st show ?thesis unfolding Submit by (rule refs_inv_Submit[OF inv])
next
  case (Enter t cenv)
  from st show ?thesis unfolding Enter by (rule refs_inv_Enter[OF inv])
next
  case (Wake t)
  from st have "local_step t \<sigma> \<sigma>'" unfolding Wake by (rule step_Wake_local)
  then show ?thesis by (rule refs_inv_local[OF inv])
next
  case (Cancel_cas t)
  from st have "local_step t \<sigma> \<sigma>'" unfolding Cancel_cas by (rule step_Cancel_cas_local)
  then show ?thesis by (rule refs_inv_local[OF inv])
next
  case (Cancelled t)
  from st have "local_step t \<sigma> \<sigma>'" unfolding Cancelled by (rule step_Cancelled_local)
  then show ?thesis by (rule refs_inv_local[OF inv])
next
  case (Io_done t r e)
  from st have "local_step t \<sigma> \<sigma>'" unfolding Io_done by (rule step_Io_done_local)
  then show ?thesis by (rule refs_inv_local[OF inv])
next
  case (Cleanup_wake t)
  from st have "local_step t \<sigma> \<sigma>'" unfolding Cleanup_wake by (rule step_Cleanup_wake_local)
  then show ?thesis by (rule refs_inv_local[OF inv])
next
  case (Cleanup_unlink t)
  from st show ?thesis unfolding Cleanup_unlink by (rule refs_inv_Cleanup_unlink[OF inv])
next
  case (Unref_slow t)
  from st show ?thesis unfolding Unref_slow by (rule refs_inv_Unref_slow[OF inv])
qed

lemma refs_inv_initial: "refs_inv (initial H)"
  by (simp add: refs_inv_def initial_def users_def)

lemma run_induct:
  assumes "run K evs \<sigma> = Some \<sigma>'" and "P \<sigma>"
    and "\<And>ev \<sigma> \<sigma>'. P \<sigma> \<Longrightarrow> step K ev \<sigma> = Some \<sigma>' \<Longrightarrow> P \<sigma>'"
  shows "P \<sigma>'"
  using assms(1,2)
proof (induction evs arbitrary: \<sigma>)
  case Nil
  then show ?case by simp
next
  case (Cons ev evs)
  from Cons.prems(1) obtain \<sigma>1 where s: "step K ev \<sigma> = Some \<sigma>1" and r: "run K evs \<sigma>1 = Some \<sigma>'"
    by (cases "step K ev \<sigma>") (auto simp del: step.simps)
  from assms(3)[OF Cons.prems(2) s] have "P \<sigma>1" .
  from Cons.IH[OF r this] show ?case .
qed

lemma refs_inv_run:
  assumes "run K evs (initial H) = Some \<sigma>"
  shows "refs_inv \<sigma>"
  by (rule run_induct[where P = refs_inv, OF assms refs_inv_initial]) (rule refs_inv_step)

subsection \<open>The lists of the queues stay well formed\<close>

lemma list_inv_alt:
  "list_inv \<sigma> = (\<forall>qp q. queues (mem \<sigma>) qp = Some q \<longrightarrow> (\<exists>ts. queue_list \<sigma> qp q ts))"
  by (simp add: list_inv_def queue_list_def)

lemma list_invD:
  "list_inv \<sigma> \<Longrightarrow> queues (mem \<sigma>) qp = Some q \<Longrightarrow> \<exists>ts. queue_list \<sigma> qp q ts"
  by (simp add: list_inv_alt)

lemma list_invI:
  "(\<And>qp q. queues (mem \<sigma>) qp = Some q \<Longrightarrow> \<exists>ts. queue_list \<sigma> qp q ts) \<Longrightarrow> list_inv \<sigma>"
  by (simp add: list_inv_alt)

lemma linkedD:
  "x \<in> linked \<sigma> qp \<Longrightarrow>
     \<exists>a pc. threads (mem \<sigma>) x = Some a \<and> at_q a = qp \<and> pcs \<sigma> x = Some pc \<and> is_linked pc"
  by (simp add: linked_def)

lemma linkedI:
  "threads (mem \<sigma>) x = Some a \<Longrightarrow> at_q a = qp \<Longrightarrow> pcs \<sigma> x = Some pc \<Longrightarrow> is_linked pc \<Longrightarrow>
   x \<in> linked \<sigma> qp"
  by (auto simp: linked_def)

lemma linked_disjoint:
  "x \<in> linked \<sigma> qp \<Longrightarrow> x \<in> linked \<sigma> qp' \<Longrightarrow> qp = qp'"
  by (auto simp: linked_def)

lemma queue_list_frame:
  assumes ql: "queue_list \<sigma> qp q ts"
    and hd: "q_head q' = q_head q" and init: "q_init q' = q_init q"
    and nx: "\<And>x. x \<in> set ts \<Longrightarrow>
               map_option at_next (threads (mem \<sigma>') x) = map_option at_next (threads (mem \<sigma>) x)"
    and pv: "\<And>x. x \<in> set ts \<Longrightarrow>
               map_option at_prev (threads (mem \<sigma>') x) = map_option at_prev (threads (mem \<sigma>) x)"
    and li: "linked \<sigma>' qp = linked \<sigma> qp"
    and sq: "seq_ok (sequenced_io \<sigma>' q') (is_write (threads (mem \<sigma>'))) ts"
  shows "queue_list \<sigma>' qp q' ts"
proof -
  from ql have c: "chain (threads (mem \<sigma>)) (q_head q) ts" and p: "prevs (threads (mem \<sigma>)) None ts"
    and s: "set ts = linked \<sigma> qp" and i: "\<not> q_init q \<longrightarrow> ts = []"
    by (simp_all add: queue_list_def)
  have "chain (threads (mem \<sigma>')) (q_head q') ts"
    unfolding hd by (rule chain_next_cong[OF c nx])
  moreover have "prevs (threads (mem \<sigma>')) None ts"
    by (rule prevs_prev_cong[OF p pv])
  ultimately show ?thesis
    using s i li init sq by (simp add: queue_list_def)
qed

text \<open>a step that leaves the operations, the append flag and the workers in I/O alone\<close>

lemma seq_ok_frame:
  assumes ql: "queue_list \<sigma> qp q ts"
    and app: "q_append q' = q_append q"
    and op: "\<And>x. x \<in> set ts \<Longrightarrow>
               map_option at_op (threads (mem \<sigma>') x) = map_option at_op (threads (mem \<sigma>) x)"
    and pc: "\<And>x. x \<in> set ts \<Longrightarrow> pcs \<sigma>' x = Some In_io \<Longrightarrow> pcs \<sigma> x = Some In_io"
  shows "seq_ok (sequenced_io \<sigma>' q') (is_write (threads (mem \<sigma>'))) ts"
proof (rule seq_ok_mono)
  from ql show "seq_ok (sequenced_io \<sigma> q) (is_write (threads (mem \<sigma>))) ts"
    by (simp add: queue_list_def)
next
  fix u assume u: "u \<in> set ts" and e: "sequenced_io \<sigma>' q' u"
  from e have "pcs \<sigma>' u = Some In_io" by (simp add: sequenced_io_def)
  from pc[OF u this] have 1: "pcs \<sigma> u = Some In_io" .
  from e op[OF u] app have "case threads (mem \<sigma>) u of None \<Rightarrow> False
       | Some a \<Rightarrow> needs_sequencing (at_op a) (q_append q)"
    by (cases "threads (mem \<sigma>) u"; cases "threads (mem \<sigma>') u") (auto simp: sequenced_io_def)
  with 1 show "sequenced_io \<sigma> q u" by (simp add: sequenced_io_def)
next
  fix u assume u: "u \<in> set ts"
  from op[OF u] show "is_write (threads (mem \<sigma>')) u = is_write (threads (mem \<sigma>)) u"
    by (cases "threads (mem \<sigma>) u"; cases "threads (mem \<sigma>') u") (auto simp: is_write_def)
qed

lemma list_inv_Submit:
  assumes ri: "refs_inv \<sigma>" and inv: "list_inv \<sigma>" and st: "step K (Submit t cb op env) \<sigma> = Some \<sigma>'"
  shows "list_inv \<sigma>'"
proof -
  from step_Submit_effect[OF st] obtain c :: aiocb and qp0 q0 where
    fresh: "pcs \<sigma> t = None" "queues (mem \<sigma>) (new_queue (getq env)) = None"
    and pcs': "pcs \<sigma>' = (pcs \<sigma>)(t \<mapsto> Spawned \<lparr>args_cb = cb, args_q = qp0, args_op = op\<rparr>)"
    and th: "threads (mem \<sigma>') = threads (mem \<sigma>)"
    and qs: "queues (mem \<sigma>') = (queues (mem \<sigma>))(qp0 \<mapsto> q0\<lparr>q_ref := q_ref q0 + 1\<rparr>)"
    and q0: "queues (mem \<sigma>) qp0 = Some q0
              \<or> (qp0 = new_queue (getq env)
                 \<and> q0 = \<lparr>q_fd = aio_fildes c, q_seekable = False, q_append = False, q_ref = 0,
                          q_init = False, q_head = None\<rparr>)"
    by blast
  have tl: "t \<notin> linked \<sigma> qp" for qp using fresh(1) by (auto simp: linked_def)
  have li: "linked \<sigma>' qp = linked \<sigma> qp" for qp
    using linked_update[OF pcs', of qp] th tl[of qp] by simp
  have keep: "queue_list \<sigma>' qp q' ts"
    if ql: "queue_list \<sigma> qp q ts" and h: "q_head q' = q_head q" "q_init q' = q_init q" "q_append q' = q_append q"
    for qp q q' ts
  proof (rule queue_list_frame[OF ql h(1,2)])
    show "linked \<sigma>' qp = linked \<sigma> qp" by (rule li)
    show "seq_ok (sequenced_io \<sigma>' q') (is_write (threads (mem \<sigma>'))) ts"
    proof (rule seq_ok_frame[OF ql h(3)])
      fix x assume "x \<in> set ts"
      with ql have "x \<in> linked \<sigma> qp" by (simp add: queue_list_def)
      with tl have "x \<noteq> t" by auto
      then show "pcs \<sigma>' x = Some In_io \<Longrightarrow> pcs \<sigma> x = Some In_io" using pcs' by simp
    qed (simp add: th)
  qed (simp_all add: th)
  show ?thesis
  proof (rule list_invI)
    fix qp q assume q: "queues (mem \<sigma>') qp = Some q"
    show "\<exists>ts. queue_list \<sigma>' qp q ts"
    proof (cases "qp = qp0")
      case False
      with q qs have "queues (mem \<sigma>) qp = Some q" by simp
      from list_invD[OF inv this] obtain ts where "queue_list \<sigma> qp q ts" ..
      from keep[OF this] show ?thesis by blast
    next
      case True
      with q qs have qe: "q = q0\<lparr>q_ref := q_ref q0 + 1\<rparr>" by simp
      from q0 show ?thesis
      proof
        assume "queues (mem \<sigma>) qp0 = Some q0"
        from list_invD[OF inv this] obtain ts where "queue_list \<sigma> qp0 q0 ts" ..
        from keep[OF this, of q] qe True show ?thesis by auto
      next
        assume n: "qp0 = new_queue (getq env)
                 \<and> q0 = \<lparr>q_fd = aio_fildes c, q_seekable = False, q_append = False, q_ref = 0,
                          q_init = False, q_head = None\<rparr>"
        with fresh(2) have "queues (mem \<sigma>) qp0 = None" by simp
        with refs_invD(2)[OF ri] have "users \<sigma> qp0 = {}" by simp
        with linked_subset_users[of \<sigma> qp0] have "linked \<sigma> qp0 = {}" by auto
        with li have "linked \<sigma>' qp0 = {}" by simp
        with n qe True have "queue_list \<sigma>' qp q []"
          by (simp add: queue_list_def)
        then show ?thesis ..
      qed
    qed
  qed
qed

lemma list_inv_Unref_slow:
  assumes inv: "list_inv \<sigma>" and st: "step K (Unref_slow t) \<sigma> = Some \<sigma>'"
  shows "list_inv \<sigma>'"
proof -
  from step_Unref_slow_effect[OF st] obtain sev a s1 where
    pc: "pcs \<sigma> t = Some (Unref_pending sev)" and a: "threads (mem \<sigma>) t = Some a"
    and u: "unref_slow (at_q a) (mem \<sigma>) = Some s1"
    and m': "mem \<sigma>' = cleanup_notify K sev s1"
    and pe: "pcs \<sigma>' = (pcs \<sigma>)(t \<mapsto> Exited)"
    by blast
  from unref_slow_effect[OF u] obtain q0 where
    th: "threads s1 = threads (mem \<sigma>)" and q0: "queues (mem \<sigma>) (at_q a) = Some q0"
    and qs: "if q_ref q0 = 1 then queues s1 = (queues (mem \<sigma>))(at_q a := None)
             else queues s1 = (queues (mem \<sigma>))(at_q a \<mapsto> q0\<lparr>q_ref := q_ref q0 - 1\<rparr>)"
    by (auto split: if_splits)
  have th': "threads (mem \<sigma>') = threads (mem \<sigma>)" and qs': "queues (mem \<sigma>') = queues s1"
    using m' th by (auto simp: cleanup_notify_def)
  have tl: "t \<notin> linked \<sigma> qp" for qp using pc by (auto simp: linked_def)
  have li: "linked \<sigma>' qp = linked \<sigma> qp" for qp
    using linked_update[OF pe, of qp] th' tl[of qp] by simp
  have keep: "queue_list \<sigma>' qp q' ts"
    if ql: "queue_list \<sigma> qp q ts" and h: "q_head q' = q_head q" "q_init q' = q_init q" "q_append q' = q_append q"
    for qp q q' ts
  proof (rule queue_list_frame[OF ql h(1,2)])
    show "linked \<sigma>' qp = linked \<sigma> qp" by (rule li)
    show "seq_ok (sequenced_io \<sigma>' q') (is_write (threads (mem \<sigma>'))) ts"
    proof (rule seq_ok_frame[OF ql h(3)])
      fix x assume "x \<in> set ts"
      with ql have "x \<in> linked \<sigma> qp" by (simp add: queue_list_def)
      with tl have "x \<noteq> t" by auto
      then show "pcs \<sigma>' x = Some In_io \<Longrightarrow> pcs \<sigma> x = Some In_io" using pe by simp
    qed (simp add: th')
  qed (simp_all add: th')
  show ?thesis
  proof (rule list_invI)
    fix qp q assume q: "queues (mem \<sigma>') qp = Some q"
    show "\<exists>ts. queue_list \<sigma>' qp q ts"
    proof (cases "qp = at_q a")
      case False
      with q qs qs' have "queues (mem \<sigma>) qp = Some q" by (auto split: if_splits)
      from list_invD[OF inv this] obtain ts where "queue_list \<sigma> qp q ts" ..
      from keep[OF this] show ?thesis by blast
    next
      case True
      with q qs qs' have qe: "q = q0\<lparr>q_ref := q_ref q0 - 1\<rparr>" by (auto split: if_splits)
      from list_invD[OF inv q0] obtain ts where "queue_list \<sigma> (at_q a) q0 ts" ..
      from keep[OF this, of q] qe True show ?thesis by auto
    qed
  qed
qed

lemma find_None_iff': "find P xs = None \<longleftrightarrow> (\<forall>x \<in> set xs. \<not> P x)"
  by (induction xs) auto

lemma list_inv_local:
  assumes inv: "list_inv \<sigma>" and l: "local_step t \<sigma> \<sigma>'"
  shows "list_inv \<sigma>'"
proof -
  from l obtain pc pc' and a a' :: aio_thread where
    pc: "pcs \<sigma> t = Some pc" "is_linked pc" "is_linked pc'" "pcs \<sigma>' = (pcs \<sigma>)(t \<mapsto> pc')"
    and th: "threads (mem \<sigma>) t = Some a" "threads (mem \<sigma>') = (threads (mem \<sigma>))(t \<mapsto> a')"
    and same: "at_next a' = at_next a" "at_prev a' = at_prev a" "at_q a' = at_q a" "at_op a' = at_op a"
    and qs: "queues (mem \<sigma>') = queues (mem \<sigma>)"
    and go: "pc' = In_io \<longrightarrow> pc = In_io \<or> scan (threads (mem \<sigma>)) (at_next a) = Some None"
    unfolding local_step_def by blast
  have fr: "map_option at_next (threads (mem \<sigma>') x) = map_option at_next (threads (mem \<sigma>) x)"
       "map_option at_prev (threads (mem \<sigma>') x) = map_option at_prev (threads (mem \<sigma>) x)"
       "map_option at_op (threads (mem \<sigma>') x) = map_option at_op (threads (mem \<sigma>) x)"
       "map_option at_q (threads (mem \<sigma>') x) = map_option at_q (threads (mem \<sigma>) x)" for x
    using th same by auto
  have tin: "t \<in> linked \<sigma> (at_q a)" using pc th by (auto simp: linked_def)
  have li: "linked \<sigma>' qp = linked \<sigma> qp" for qp
  proof -
    have "linked \<sigma>' qp = (linked \<sigma> qp - {t}) \<union>
           (if is_linked pc' \<and> map_option at_q (threads (mem \<sigma>') t) = Some qp then {t} else {})"
      by (rule linked_update[OF pc(4)]) (rule fr(4))
    also have "map_option at_q (threads (mem \<sigma>') t) = Some (at_q a)"
      using th same by simp
    finally have e: "linked \<sigma>' qp = (linked \<sigma> qp - {t}) \<union> (if at_q a = qp then {t} else {})"
      using pc(3) by simp
    show ?thesis
    proof (cases "at_q a = qp")
      case True
      with e tin show ?thesis by auto
    next
      case False
      with linked_disjoint[OF tin] have "t \<notin> linked \<sigma> qp" by auto
      with e False show ?thesis by simp
    qed
  qed
  have wr: "is_write (threads (mem \<sigma>')) u = is_write (threads (mem \<sigma>)) u" for u
    using fr(3)[of u] by (cases "threads (mem \<sigma>) u"; cases "threads (mem \<sigma>') u") (auto simp: is_write_def)
  have ex: "sequenced_io \<sigma>' q u \<Longrightarrow> sequenced_io \<sigma> q u" if "u \<noteq> t \<or> pc = In_io \<or> pc' \<noteq> In_io" for u q
    using that fr(3)[of u] pc(1,4)
    by (cases "threads (mem \<sigma>) u"; cases "threads (mem \<sigma>') u") (auto simp: sequenced_io_def split: if_splits)
  show ?thesis
  proof (rule list_invI)
    fix qp q assume "queues (mem \<sigma>') qp = Some q"
    with qs have "queues (mem \<sigma>) qp = Some q" by simp
    from list_invD[OF inv this] obtain ts where ql: "queue_list \<sigma> qp q ts" ..
    then have c: "chain (threads (mem \<sigma>)) (q_head q) ts" and s: "set ts = linked \<sigma> qp"
      and so: "seq_ok (sequenced_io \<sigma> q) (is_write (threads (mem \<sigma>))) ts"
      by (simp_all add: queue_list_def)
    have "seq_ok (sequenced_io \<sigma>' q) (is_write (threads (mem \<sigma>))) ts"
    proof (cases "t \<in> set ts \<and> pc' = In_io \<and> pc \<noteq> In_io")
      case False
      show ?thesis
      proof (rule seq_ok_mono[OF so])
        fix u assume "u \<in> set ts" "sequenced_io \<sigma>' q u"
        with False show "sequenced_io \<sigma> q u" by (intro ex) auto
      qed simp
    next
      case True
      then obtain xs ys where ts: "ts = xs @ t # ys" by (auto simp: in_set_conv_decomp)
      from chain_mid[OF c[unfolded ts]] th(1) have "chain (threads (mem \<sigma>)) (at_next a) ys" by auto
      from scan_chain[OF this] go True have "find (is_write (threads (mem \<sigma>))) ys = None" by simp
      then have nw: "\<forall>w \<in> set ys. \<not> is_write (threads (mem \<sigma>)) w" by (simp add: find_None_iff')
      show ?thesis
      proof (rule seq_ok_at[OF so ts nw])
        show "distinct ts" by (rule chain_distinct[OF c])
      next
        fix u assume "u \<in> set ts" "u \<noteq> t" "sequenced_io \<sigma>' q u"
        then show "sequenced_io \<sigma> q u" by (intro ex) auto
      qed
    qed
    then have "seq_ok (sequenced_io \<sigma>' q) (is_write (threads (mem \<sigma>'))) ts"
      by (rule seq_ok_mono) (simp_all add: wr)
    with queue_list_frame[OF ql refl refl fr(1) fr(2) li] show "\<exists>ts. queue_list \<sigma>' qp q ts"
      by blast
  qed
qed

lemma prevs_new_head:
  assumes c: "chain h p ts" and pv: "prevs h None ts"
    and o: "\<And>x. x \<in> set ts \<Longrightarrow>
              h' x = (if Some x = p then map_option (\<lambda>a. a\<lparr>at_prev := Some t\<rparr>) (h x) else h x)"
  shows "prevs h' (Some t) ts"
proof (cases ts)
  case Nil
  then show ?thesis by simp
next
  case (Cons y ys)
  from c Cons obtain a where p: "p = Some y" and a: "h y = Some a" and c': "chain h (at_next a) ys"
    by (auto split: option.splits)
  from chain_not_in_tail[OF a c'] have ny: "y \<notin> set ys" .
  from pv Cons have pv': "prevs h (Some y) ys" by simp
  have "prevs h' (Some y) ys"
  proof (rule prevs_prev_cong[OF pv'])
    fix x assume "x \<in> set ys"
    with ny o[of x] Cons p show "map_option at_prev (h' x) = map_option at_prev (h x)" by auto
  qed
  moreover from o[of y] Cons p a have "h' y = Some (a\<lparr>at_prev := Some t\<rparr>)" by simp
  ultimately show ?thesis using Cons by simp
qed

lemma list_inv_Enter:
  assumes inv: "list_inv \<sigma>" and st: "step K (Enter t cenv) \<sigma> = Some \<sigma>'"
  shows "list_inv \<sigma>'"
proof -
  from step_Enter_detail[OF st] obtain args loc go q0 q0' where
    pc: "pcs \<sigma> t = Some (Spawned args)" and fresh: "threads (mem \<sigma>) t = None"
    and pcs': "pcs \<sigma>' = (pcs \<sigma>)(t \<mapsto> (if go then In_io else Waiting loc))"
    and q0: "queues (mem \<sigma>) (args_q args) = Some q0"
    and qs: "queues (mem \<sigma>') = (queues (mem \<sigma>))(args_q args \<mapsto> q0')"
    and q0': "q_head q0' = Some t" "q_init q0'" "q_init q0 \<longrightarrow> q_append q0' = q_append q0"
    and t': "threads (mem \<sigma>') t =
              Some \<lparr>at_td = t, at_cb = args_cb args, at_next = q_head q0, at_prev = None,
                    at_q = args_q args, at_running = 1, at_err = ECANCELED K,
                    at_op = args_op args, at_ret = - 1\<rparr>"
    and o: "\<forall>x. x \<noteq> t \<longrightarrow>
                threads (mem \<sigma>') x = (if Some x = q_head q0
                                then map_option (\<lambda>a. a\<lparr>at_prev := Some t\<rparr>) (threads (mem \<sigma>) x)
                                else threads (mem \<sigma>) x)"
    and sc: "go \<and> needs_sequencing (args_op args) (q_append q0') \<longrightarrow>
              scan (threads (mem \<sigma>')) (q_head q0) = Some None"
    by blast
  define h where "h = threads (mem \<sigma>)"
  define h' where "h' = threads (mem \<sigma>')"
  have ox: "h' x = (if Some x = q_head q0 then map_option (\<lambda>a. a\<lparr>at_prev := Some t\<rparr>) (h x) else h x)"
    if "x \<noteq> t" for x using o that by (simp add: h_def h'_def)
  have fr: "map_option at_next (h' x) = map_option at_next (h x)"
           "map_option at_op (h' x) = map_option at_op (h x)"
           "map_option at_q (h' x) = map_option at_q (h x)" if "x \<noteq> t" for x
    using ox[OF that] by (cases "h x"; simp)+
  have tl: "t \<notin> linked \<sigma> qp" for qp using fresh by (auto simp: linked_def)
  have li: "linked \<sigma>' qp = linked \<sigma> qp \<union> (if args_q args = qp then {t} else {})" for qp
  proof -
    have "linked \<sigma>' qp = (linked \<sigma> qp - {t}) \<union>
           (if is_linked (if go then In_io else Waiting loc)
               \<and> map_option at_q (threads (mem \<sigma>') t) = Some qp then {t} else {})"
      by (rule linked_update[OF pcs']) (use fr(3) in \<open>simp add: h_def h'_def\<close>)
    with tl[of qp] t' show ?thesis by auto
  qed
  from list_invD[OF inv q0] obtain ts0 where ql0: "queue_list \<sigma> (args_q args) q0 ts0" ..
  then have c0: "chain h (q_head q0) ts0" and p0: "prevs h None ts0"
    and s0: "set ts0 = linked \<sigma> (args_q args)" and i0: "\<not> q_init q0 \<longrightarrow> ts0 = []"
    by (simp_all add: queue_list_def h_def)
  have nt0: "t \<notin> set ts0" using s0 tl by simp
  have hd0: "x \<in> set ts0" if "Some x = q_head q0" for x
    using c0 that by (cases ts0) auto
  have pcx: "pcs \<sigma>' x = Some In_io \<Longrightarrow> pcs \<sigma> x = Some In_io" if "x \<noteq> t" for x
    using pcs' that by simp
  show ?thesis
  proof (rule list_invI)
    fix qp q assume q: "queues (mem \<sigma>') qp = Some q"
    show "\<exists>ts. queue_list \<sigma>' qp q ts"
    proof (cases "qp = args_q args")
      case False
      with q qs have qo: "queues (mem \<sigma>) qp = Some q" by simp
      from list_invD[OF inv this] obtain ts where ql: "queue_list \<sigma> qp q ts" ..
      then have s: "set ts = linked \<sigma> qp" by (simp add: queue_list_def)
      have nt: "x \<noteq> t" if "x \<in> set ts" for x using that s tl by auto
      have nh: "Some x \<noteq> q_head q0" if "x \<in> set ts" for x
      proof
        assume "Some x = q_head q0"
        from hd0[OF this] s0 have "x \<in> linked \<sigma> (args_q args)" by simp
        moreover from that s have "x \<in> linked \<sigma> qp" by simp
        ultimately show False using False by (auto dest: linked_disjoint)
      qed
      have "queue_list \<sigma>' qp q ts"
      proof (rule queue_list_frame[OF ql refl refl])
        fix x assume x: "x \<in> set ts"
        from fr(1)[OF nt[OF x]]
        show "map_option at_next (threads (mem \<sigma>') x) = map_option at_next (threads (mem \<sigma>) x)"
          by (simp add: h_def h'_def)
        from ox[OF nt[OF x]] nh[OF x]
        show "map_option at_prev (threads (mem \<sigma>') x) = map_option at_prev (threads (mem \<sigma>) x)"
          by (simp add: h_def h'_def)
      next
        show "linked \<sigma>' qp = linked \<sigma> qp" using li[of qp] False by simp
      next
        show "seq_ok (sequenced_io \<sigma>' q) (is_write (threads (mem \<sigma>'))) ts"
        proof (rule seq_ok_frame[OF ql refl])
          fix x assume x: "x \<in> set ts"
          from fr(2)[OF nt[OF x]]
          show "map_option at_op (threads (mem \<sigma>') x) = map_option at_op (threads (mem \<sigma>) x)"
            by (simp add: h_def h'_def)
          show "pcs \<sigma>' x = Some In_io \<Longrightarrow> pcs \<sigma> x = Some In_io"
            by (rule pcx[OF nt[OF x]])
        qed
      qed
      then show ?thesis ..
    next
      case True
      with q qs have qe: "q = q0'" by simp
      have c': "chain h' (q_head q0) ts0"
      proof (rule chain_next_cong[OF c0])
        fix x assume "x \<in> set ts0"
        with nt0 have "x \<noteq> t" by auto
        then show "map_option at_next (h' x) = map_option at_next (h x)" by (rule fr(1))
      qed
      have p': "prevs h' (Some t) ts0"
      proof (rule prevs_new_head[OF c0 p0])
        fix x assume "x \<in> set ts0"
        with nt0 have "x \<noteq> t" by auto
        then show "h' x = (if Some x = q_head q0 then map_option (\<lambda>a. a\<lparr>at_prev := Some t\<rparr>) (h x) else h x)"
          by (rule ox)
      qed
      have sq0: "seq_ok (sequenced_io \<sigma>' q0') (is_write h') ts0"
      proof (cases "ts0 = []")
        case True
        then show ?thesis by simp
      next
        case False
        with i0 q0'(3) have app: "q_append q0' = q_append q0" by auto
        have "seq_ok (sequenced_io \<sigma>' q0') (is_write (threads (mem \<sigma>'))) ts0"
        proof (rule seq_ok_frame[OF ql0 app])
          fix x assume "x \<in> set ts0"
          with nt0 have x: "x \<noteq> t" by auto
          from fr(2)[OF x]
          show "map_option at_op (threads (mem \<sigma>') x) = map_option at_op (threads (mem \<sigma>) x)"
            by (simp add: h_def h'_def)
          show "pcs \<sigma>' x = Some In_io \<Longrightarrow> pcs \<sigma> x = Some In_io" by (rule pcx[OF x])
        qed
        then show ?thesis by (simp add: h'_def)
      qed
      have first: "\<forall>w \<in> set ts0. \<not> is_write h' w" if e: "sequenced_io \<sigma>' q0' t"
      proof -
        from e pcs' have go by (auto simp: sequenced_io_def split: if_splits)
        moreover from e t' have "needs_sequencing (args_op args) (q_append q0')"
          by (simp add: sequenced_io_def)
        ultimately have "scan h' (q_head q0) = Some None" using sc by (simp add: h'_def)
        with scan_chain[OF c'] have "find (is_write h') ts0 = None" by simp
        then show ?thesis by (simp add: find_None_iff')
      qed
      have "queue_list \<sigma>' qp q (t # ts0)"
        unfolding queue_list_def qe True
        using c' p' t' q0'(1,2) s0 li[of "args_q args"] sq0 first
        by (simp add: h'_def)
      then show ?thesis ..
    qed
  qed
qed

lemma cleanup_unlink_list:
  assumes cu: "cleanup_unlink t s = Some (r, s2)" and a: "threads s t = Some a"
    and q: "queues s (at_q a) = Some q"
    and c: "chain (threads s) (q_head q) (xs @ t # ys)"
    and pv: "prevs (threads s) None (xs @ t # ys)"
  shows "(\<forall>x. threads s2 x =
              (if Some x = at_next a then map_option (\<lambda>b. b\<lparr>at_prev := at_prev a\<rparr>) (threads s x)
               else if Some x = at_prev a then map_option (\<lambda>b. b\<lparr>at_next := at_next a\<rparr>) (threads s x)
               else threads s x))
       \<and> r = (1 < q_ref q)
       \<and> queues s2 = (queues s)(at_q a \<mapsto>
            q\<lparr>q_head := (if at_prev a = None then at_next a else q_head q),
              q_ref := (if r then q_ref q - 1 else q_ref q)\<rparr>)
       \<and> chain (threads s2) (if at_prev a = None then at_next a else q_head q) (xs @ ys)
       \<and> prevs (threads s2) None (xs @ ys)
       \<and> (\<forall>x. Some x = at_next a \<or> Some x = at_prev a \<longrightarrow> x \<in> set (xs @ ys))
       \<and> at_next a \<noteq> Some t \<and> at_prev a \<noteq> Some t
       \<and> cbs s2 = cbs s \<and> aio_fut s2 = aio_fut s
       \<and> trace s2 = trace s @
            [Mutex_lock (at_q a), Unlink t, Cond_broadcast (at_q a), Mutex_unlock (at_q a)]"
proof -
  define h' where "h' x =
              (if Some x = at_next a then map_option (\<lambda>b. b\<lparr>at_prev := at_prev a\<rparr>) (threads s x)
               else if Some x = at_prev a then map_option (\<lambda>b. b\<lparr>at_next := at_next a\<rparr>) (threads s x)
               else threads s x)" for x
  note ul = unlink_lists[OF c pv a, of h', OF h'_def]
  from cu a obtain s1 where u: "unlink t (emits [Mutex_lock (at_q a)] s) = Some s1"
    and f: "unref_fast (at_q a) (emits [Cond_broadcast (at_q a)] s1) = Some (r, s2)"
    by (cases "unlink t (emits [Mutex_lock (at_q a)] s)") (auto simp: cleanup_unlink_def)
  have a0: "threads (emits [Mutex_lock (at_q a)] s) t = Some a" using a by simp
  from ul(1) have nd: "at_next a \<noteq> Some t" "at_prev a \<noteq> Some t" "at_next a = None \<or> at_next a \<noteq> at_prev a"
    by simp_all
  from unlink_effect[OF u a0 nd] have
    e1: "cbs s1 = cbs s" "trace s1 = trace s @ [Mutex_lock (at_q a), Unlink t]"
    and th1: "threads s1 = h'"
    and q1: "if at_prev a = None
           then \<exists>q. queues s (at_q a) = Some q \<and> queues s1 = (queues s)(at_q a \<mapsto> q\<lparr>q_head := at_next a\<rparr>)
           else queues s1 = queues s"
    by (auto simp: h'_def fun_eq_iff)
  from q1 q have q1': "queues s1 = (queues s)(at_q a \<mapsto> q\<lparr>q_head := (if at_prev a = None then at_next a else q_head q)\<rparr>)"
    by (auto simp: fun_eq_iff)
  have fut1: "aio_fut s1 = aio_fut s"
    using u by (auto simp: unlink_def split: bind_splits option.splits)
  from unref_fast_effect[OF f] q1' have
    e2: "threads s2 = threads s1" "cbs s2 = cbs s1"
      "trace s2 = trace s1 @ [Cond_broadcast (at_q a), Mutex_unlock (at_q a)]"
    and r: "r = (1 < q_ref q)"
    and q2: "queues s2 = (queues s)(at_q a \<mapsto>
            q\<lparr>q_head := (if at_prev a = None then at_next a else q_head q),
              q_ref := (if r then q_ref q - 1 else q_ref q)\<rparr>)"
    by (auto simp: fun_eq_iff)
  have fut2: "aio_fut s2 = aio_fut s1"
    using f by (auto simp: unref_fast_def split: bind_splits if_splits)
  show ?thesis
    using ul(2,3,4) nd(1,2) e1 e2 r q2 th1 fut1 fut2
    by (simp add: h'_def)
qed

lemma list_inv_Cleanup_unlink:
  assumes inv: "list_inv \<sigma>" and st: "step K (Cleanup_unlink t) \<sigma> = Some \<sigma>'"
  shows "list_inv \<sigma>'"
proof -
  from step_Cleanup_unlink_effect[OF st] obtain sev a s1 s2 returned where
    pc: "pcs \<sigma> t = Some (Unlinking sev)" and a: "threads (mem \<sigma>) t = Some a"
    and u: "unlink t (emits [Mutex_lock (at_q a)] (mem \<sigma>)) = Some s1"
    and f: "unref_fast (at_q a) (emits [Cond_broadcast (at_q a)] s1) = Some (returned, s2)"
    and m': "mem \<sigma>' = (if returned then cleanup_notify K sev s2 else s2)"
    and pcs': "pcs \<sigma>' = (pcs \<sigma>)(t \<mapsto> (if returned then Exited else Unref_pending sev))"
    by blast
  have cu: "cleanup_unlink t (mem \<sigma>) = Some (returned, s2)"
    using a u f by (simp add: cleanup_unlink_def)
  have th': "threads (mem \<sigma>') = threads s2" and qs': "queues (mem \<sigma>') = queues s2"
    using m' by (auto simp: cleanup_notify_def)
  from unref_fast_effect[OF f] obtain q1 where "queues s1 (at_q a) = Some q1" by auto
  with unlink_frame[OF u] obtain q0 where q0: "queues (mem \<sigma>) (at_q a) = Some q0"
    by (cases "queues (mem \<sigma>) (at_q a)") (auto simp: option.rel_sel)
  have tin: "t \<in> linked \<sigma> (at_q a)" using pc a by (auto simp: linked_def)
  from list_invD[OF inv q0] obtain ts0 where ql0: "queue_list \<sigma> (at_q a) q0 ts0" ..
  then have c0: "chain (threads (mem \<sigma>)) (q_head q0) ts0" and p0: "prevs (threads (mem \<sigma>)) None ts0"
    and s0: "set ts0 = linked \<sigma> (at_q a)" and i0: "\<not> q_init q0 \<longrightarrow> ts0 = []"
    and so0: "seq_ok (sequenced_io \<sigma> q0) (is_write (threads (mem \<sigma>))) ts0"
    by (simp_all add: queue_list_def)
  from tin s0 have "t \<in> set ts0" by simp
  then obtain xs ys where ts0: "ts0 = xs @ t # ys" by (auto simp: in_set_conv_decomp)
  have D: "distinct (xs @ t # ys)" using chain_distinct[OF c0] ts0 by simp
  note eff = cleanup_unlink_list[OF cu a q0 c0[unfolded ts0] p0[unfolded ts0]]
  from eff have
    thx: "\<And>x. threads s2 x =
              (if Some x = at_next a then map_option (\<lambda>b. b\<lparr>at_prev := at_prev a\<rparr>) (threads (mem \<sigma>) x)
               else if Some x = at_prev a then map_option (\<lambda>b. b\<lparr>at_next := at_next a\<rparr>) (threads (mem \<sigma>) x)
               else threads (mem \<sigma>) x)"
    and q2: "queues s2 = (queues (mem \<sigma>))(at_q a \<mapsto>
            q0\<lparr>q_head := (if at_prev a = None then at_next a else q_head q0),
              q_ref := (if returned then q_ref q0 - 1 else q_ref q0)\<rparr>)"
    and c2: "chain (threads s2) (if at_prev a = None then at_next a else q_head q0) (xs @ ys)"
    and p2: "prevs (threads s2) None (xs @ ys)"
    and nb: "\<And>x. Some x = at_next a \<or> Some x = at_prev a \<Longrightarrow> x \<in> set (xs @ ys)"
    by blast+
  have fr: "map_option at_op (threads (mem \<sigma>') x) = map_option at_op (threads (mem \<sigma>) x)"
           "map_option at_q (threads (mem \<sigma>') x) = map_option at_q (threads (mem \<sigma>) x)" for x
    unfolding th' thx[of x] by (cases "threads (mem \<sigma>) x"; simp)+
  have li: "linked \<sigma>' qp = linked \<sigma> qp - {t}" for qp
  proof -
    have "linked \<sigma>' qp = (linked \<sigma> qp - {t}) \<union>
           (if is_linked (if returned then Exited else Unref_pending sev)
               \<and> map_option at_q (threads (mem \<sigma>') t) = Some qp then {t} else {})"
      by (rule linked_update[OF pcs']) (rule fr(2))
    then show ?thesis by (simp split: if_splits)
  qed
  have pcx: "pcs \<sigma>' x = pcs \<sigma> x" if "x \<noteq> t" for x using pcs' that by simp
  have sio: "sequenced_io \<sigma>' q' x \<Longrightarrow> sequenced_io \<sigma> q x"
    if "x \<noteq> t" "q_append q' = q_append q" for x q q'
    using that pcx[OF that(1)] fr(1)[of x]
    by (cases "threads (mem \<sigma>) x"; cases "threads (mem \<sigma>') x") (auto simp: sequenced_io_def)
  have wr: "is_write (threads (mem \<sigma>')) x = is_write (threads (mem \<sigma>)) x" for x
    using fr(1)[of x]
    by (cases "threads (mem \<sigma>) x"; cases "threads (mem \<sigma>') x") (auto simp: is_write_def)
  show ?thesis
  proof (rule list_invI)
    fix qp q assume q: "queues (mem \<sigma>') qp = Some q"
    show "\<exists>ts. queue_list \<sigma>' qp q ts"
    proof (cases "qp = at_q a")
      case False
      with q qs' q2 have qo: "queues (mem \<sigma>) qp = Some q" by simp
      from list_invD[OF inv this] obtain ts where ql: "queue_list \<sigma> qp q ts" ..
      then have s: "set ts = linked \<sigma> qp"
        and so: "seq_ok (sequenced_io \<sigma> q) (is_write (threads (mem \<sigma>))) ts"
        by (simp_all add: queue_list_def)
      have other: "x \<notin> linked \<sigma> (at_q a)" if "x \<in> set ts" for x
        using that s False by (auto dest: linked_disjoint)
      have nt: "x \<noteq> t" if "x \<in> set ts" for x using other[OF that] tin by auto
      have same: "threads (mem \<sigma>') x = threads (mem \<sigma>) x" if x: "x \<in> set ts" for x
      proof -
        have "\<not> (Some x = at_next a \<or> Some x = at_prev a)"
        proof
          assume "Some x = at_next a \<or> Some x = at_prev a"
          from nb[OF this] have "x \<in> set ts0" by (auto simp: ts0)
          with s0 other[OF x] show False by simp
        qed
        then show ?thesis unfolding th' thx[of x] by simp
      qed
      have "queue_list \<sigma>' qp q ts"
      proof (rule queue_list_frame[OF ql refl refl])
        show "linked \<sigma>' qp = linked \<sigma> qp"
          using li[of qp] tin False by (auto dest: linked_disjoint)
        show "seq_ok (sequenced_io \<sigma>' q) (is_write (threads (mem \<sigma>'))) ts"
          by (rule seq_ok_mono[OF so]) (auto intro: sio dest: nt simp: wr)
      qed (simp_all add: same)
      then show ?thesis ..
    next
      case True
      with q qs' q2 have qe: "q = q0\<lparr>q_head := (if at_prev a = None then at_next a else q_head q0),
              q_ref := (if returned then q_ref q0 - 1 else q_ref q0)\<rparr>" by simp
      from i0 ts0 have init: "q_init q0" by auto
      have "seq_ok (sequenced_io \<sigma> q0) (is_write (threads (mem \<sigma>))) (xs @ ys)"
        using so0 unfolding ts0 by (rule seq_ok_remove)
      then have sq: "seq_ok (sequenced_io \<sigma>' q) (is_write (threads (mem \<sigma>'))) (xs @ ys)"
      proof (rule seq_ok_mono)
        fix x assume "x \<in> set (xs @ ys)" and e: "sequenced_io \<sigma>' q x"
        with D have "x \<noteq> t" by auto
        from sio[OF this _ e, of q0] qe show "sequenced_io \<sigma> q0 x" by simp
      qed (simp add: wr)
      have st: "set (xs @ ys) = linked \<sigma>' qp"
        using li[of qp] s0 D True by (auto simp: ts0)
      have "queue_list \<sigma>' qp q (xs @ ys)"
        unfolding queue_list_def th'
        using c2 p2 st sq init by (simp add: qe th')
      then show ?thesis ..
    qed
  qed
qed

lemma list_inv_step:
  assumes ri: "refs_inv \<sigma>" and inv: "list_inv \<sigma>" and st: "step K ev \<sigma> = Some \<sigma>'"
  shows "list_inv \<sigma>'"
proof (cases ev)
  case (Submit t cb op env)
  from st show ?thesis unfolding Submit by (rule list_inv_Submit[OF ri inv])
next
  case (Enter t cenv)
  from st show ?thesis unfolding Enter by (rule list_inv_Enter[OF inv])
next
  case (Wake t)
  from st have "local_step t \<sigma> \<sigma>'" unfolding Wake by (rule step_Wake_local)
  then show ?thesis by (rule list_inv_local[OF inv])
next
  case (Cancel_cas t)
  from st have "local_step t \<sigma> \<sigma>'" unfolding Cancel_cas by (rule step_Cancel_cas_local)
  then show ?thesis by (rule list_inv_local[OF inv])
next
  case (Cancelled t)
  from st have "local_step t \<sigma> \<sigma>'" unfolding Cancelled by (rule step_Cancelled_local)
  then show ?thesis by (rule list_inv_local[OF inv])
next
  case (Io_done t r e)
  from st have "local_step t \<sigma> \<sigma>'" unfolding Io_done by (rule step_Io_done_local)
  then show ?thesis by (rule list_inv_local[OF inv])
next
  case (Cleanup_wake t)
  from st have "local_step t \<sigma> \<sigma>'" unfolding Cleanup_wake by (rule step_Cleanup_wake_local)
  then show ?thesis by (rule list_inv_local[OF inv])
next
  case (Cleanup_unlink t)
  from st show ?thesis unfolding Cleanup_unlink by (rule list_inv_Cleanup_unlink[OF inv])
next
  case (Unref_slow t)
  from st show ?thesis unfolding Unref_slow by (rule list_inv_Unref_slow[OF inv])
qed

lemma list_inv_initial: "list_inv (initial H)"
  by (simp add: list_inv_def initial_def)

lemma sys_inv_run:
  assumes "run K evs (initial H) = Some \<sigma>"
  shows "sys_inv \<sigma>"
proof (rule run_induct[where P = sys_inv, OF assms])
  show "sys_inv (initial H)"
    by (simp add: sys_inv_def refs_inv_initial list_inv_initial)
next
  fix ev \<sigma> \<sigma>' assume "sys_inv \<sigma>" "step K ev \<sigma> = Some \<sigma>'"
  then show "sys_inv \<sigma>'"
    unfolding sys_inv_def by (blast intro: refs_inv_step list_inv_step)
qed

subsection \<open>What the workers have written\<close>

lemma writes_append [simp]:
  "err_writes t (xs @ ys) = err_writes t xs @ err_writes t ys"
  "ret_writes t (xs @ ys) = ret_writes t xs @ ret_writes t ys"
  "io_results t (xs @ ys) = io_results t xs @ io_results t ys"
  "spawn_args (xs @ ys) = spawn_args xs @ spawn_args ys"
  by (simp_all add: err_writes_def ret_writes_def io_results_def spawn_args_def)

lemma writes_Nil [simp]:
  "err_writes t [] = []" "ret_writes t [] = []" "io_results t [] = []" "spawn_args [] = []"
  by (simp_all add: err_writes_def ret_writes_def io_results_def spawn_args_def)

lemma writes_Cons [simp]:
  "err_writes t (x # xs) = err_write t x @ err_writes t xs"
  "ret_writes t (x # xs) = ret_write t x @ ret_writes t xs"
  "io_results t (x # xs) = io_result t x @ io_results t xs"
  "spawn_args (x # xs) = spawn_arg x @ spawn_args xs"
  by (simp_all add: err_writes_def ret_writes_def io_results_def spawn_args_def)

lemma quiet_simps [simp]:
  "quiet t []"
  "quiet t (xs @ ys) = (quiet t xs \<and> quiet t ys)"
  "quiet t (x # xs) = (io_result t x = [] \<and> err_write t x = [] \<and> ret_write t x = [] \<and> quiet t xs)"
  by (auto simp: quiet_def)

lemma quietD:
  "quiet t xs \<Longrightarrow> io_results t xs = [] \<and> err_writes t xs = [] \<and> ret_writes t xs = []"
  by (simp add: quiet_def)

lemma live_cong:
  "rel_option same_results ao bo \<Longrightarrow> live bo v sp = live ao v sp"
  by (cases ao; cases bo) (auto simp: live_def same_results_def args_of_def)

lemma finished_cong:
  "rel_option same_results ao bo \<Longrightarrow> finished bo v sp ew rw = finished ao v sp ew rw"
  by (cases ao; cases bo) (auto simp: finished_def same_results_def args_of_def)

lemma worker_ok_cong:
  "rel_option same_results ao bo \<Longrightarrow> worker_ok K bo pc sp io ew rw = worker_ok K ao pc sp io ew rw"
  by (cases pc) (simp_all add: live_cong finished_cong)

lemma live_mono [simp]: "live ao v sp \<Longrightarrow> live ao v (sp @ ys)"
  by (cases ao) (auto simp: live_def)

lemma finished_mono [simp]: "finished ao v sp ew rw \<Longrightarrow> finished ao v (sp @ ys) ew rw"
  by (cases ao) (auto simp: finished_def)

lemma worker_ok_spawn_mono:
  "worker_ok K ao pc sp io ew rw \<Longrightarrow> worker_ok K ao pc (sp @ ys) io ew rw"
  by (cases pc) auto

lemma same_but_links_results: "same_but_links a b \<Longrightarrow> same_results a b"
  by (simp add: same_results_def same_but_linksD)

lemma worker_at_frame:
  assumes w: "worker_at K \<sigma> x"
    and pc: "pcs \<sigma>' x = pcs \<sigma> x"
    and tr: "trace (mem \<sigma>') = trace (mem \<sigma>) @ xs" and q: "quiet x xs"
    and th: "rel_option same_results (threads (mem \<sigma>) x) (threads (mem \<sigma>') x)"
  shows "worker_at K \<sigma>' x"
proof -
  from quietD[OF q] tr have e: "io_results x (trace (mem \<sigma>')) = io_results x (trace (mem \<sigma>))"
    "err_writes x (trace (mem \<sigma>')) = err_writes x (trace (mem \<sigma>))"
    "ret_writes x (trace (mem \<sigma>')) = ret_writes x (trace (mem \<sigma>))"
    by simp_all
  have sp: "spawn_args (trace (mem \<sigma>')) = spawn_args (trace (mem \<sigma>)) @ spawn_args xs"
    by (simp add: tr)
  show ?thesis
    using w unfolding worker_at_def pc e sp
    by (cases "pcs \<sigma> x") (simp_all add: worker_ok_cong[OF th] worker_ok_spawn_mono)
qed

lemma worker_inv_step:
  assumes inv: "worker_inv K \<sigma>"
    and pc: "\<And>x. x \<noteq> t \<Longrightarrow> pcs \<sigma>' x = pcs \<sigma> x"
    and tr: "trace (mem \<sigma>') = trace (mem \<sigma>) @ xs" and q: "\<And>x. x \<noteq> t \<Longrightarrow> quiet x xs"
    and th: "\<And>x. x \<noteq> t \<Longrightarrow> rel_option same_results (threads (mem \<sigma>) x) (threads (mem \<sigma>') x)"
    and self: "worker_at K \<sigma>' t"
  shows "worker_inv K \<sigma>'"
  unfolding worker_inv_def
proof
  fix x
  show "worker_at K \<sigma>' x"
  proof (cases "x = t")
    case True
    with self show ?thesis by simp
  next
    case False
    from inv have "worker_at K \<sigma> x" by (simp add: worker_inv_def)
    then show ?thesis
      by (rule worker_at_frame[OF _ pc[OF False] tr q[OF False] th[OF False]])
  qed
qed

lemma rel_option_same_results_refl [simp]: "rel_option same_results ao ao"
  by (cases ao) (simp_all add: same_results_def)

lemma get_queue_quiet:
  assumes "aio_get_queue K env fd need s = (r, s')"
  shows "\<exists>xs. trace s' = trace s @ xs \<and> (\<forall>x. quiet x xs) \<and> spawn_args xs = []"
proof (cases "sint fd < 0")
  case True
  with assms show ?thesis by (auto simp: aio_get_queue_def)
next
  case nonneg: False
  show ?thesis
  proof (cases "map_lookup s fd = None \<and> need")
    case False
    with assms nonneg show ?thesis
      by (auto simp: aio_get_queue_def Let_def split: option.splits)
  next
    case create: True
    show ?thesis
    proof (cases "fcntl_getfd env")
      case (Some e)
      with assms nonneg create show ?thesis
        by (auto simp: aio_get_queue_def Let_def)
    next
      case None
      obtain r1 s1 where a: "get_queue_alloc K env fd (emits [Sigmask_block, Wrlock] (emits [Rwunlock] (emits [Rdlock] s))) = (r1, s1)"
        by (cases "get_queue_alloc K env fd (emits [Sigmask_block, Wrlock] (emits [Rwunlock] (emits [Rdlock] s)))") auto
      from get_queue_alloc_effect[OF a]
      have e: "trace s1 = trace s @ [Rdlock, Rwunlock, Sigmask_block, Wrlock]"
        by auto
      from assms nonneg create None a
      have "s' = emits [Mutex_lock (the r1), Rwunlock, Sigmask_restore] s1
                      \<or> s' = emits [Rwunlock, Sigmask_restore] s1"
        by (auto simp: aio_get_queue_def Let_def split: option.splits)
      with e show ?thesis by auto
    qed
  qed
qed

lemma submit_ok_trace:
  assumes sub: "submit K env others cb op s = Some (0, s')"
    and c: "cbs s cb = Some c"
  shows "\<exists>qp pre attr.
           fst (aio_get_queue K (getq env) (aio_fildes c) True s) = Some qp
         \<and> cbs s' = (cbs s)(cb \<mapsto> c\<lparr>cb_err := EINPROGRESS K\<rparr>)
         \<and> (\<forall>x. quiet x pre) \<and> spawn_args pre = []
         \<and> trace s' = trace s @ pre @
              [Store_err cb (EINPROGRESS K),
               Pthread_create attr \<lparr>args_cb = cb, args_q = qp, args_op = op\<rparr>,
               Sigmask_restore, Sem_wait]"
proof -
  obtain r s1 where g: "aio_get_queue K (getq env) (aio_fildes c) True s = (r, s1)"
    by (cases "aio_get_queue K (getq env) (aio_fildes c) True s") auto
  from sub c g obtain qp where r: "r = Some qp"
    by (cases r) (auto simp: submit_def Let_def split: bind_splits)
  from sub c g r obtain attr s3 where p: "submit_prepare K cb qp s1 = Some (attr, s3)"
    by (auto simp: submit_def split: bind_splits)
  from sub c g r p have
    s': "s' = emits [Pthread_create attr \<lparr>args_cb = cb, args_q = qp, args_op = op\<rparr>,
                            Sigmask_restore, Sem_wait] s3"
    by (auto simp: submit_def submit_spawn_failed_def split: if_splits bind_splits)
  from get_queue_quiet[OF g] obtain xs where
    e1: "trace s1 = trace s @ xs" "\<forall>x. quiet x xs" "spawn_args xs = []"
    by auto
  from get_queue_effect[OF g] have cb1: "cbs s1 = cbs s" by simp
  from submit_prepare_effect[OF p] cb1 c have
    e2: "cbs s3 = (cbs s)(cb \<mapsto> c\<lparr>cb_err := EINPROGRESS K\<rparr>)"
      "trace s3 = trace s1 @ [Mutex_unlock qp, Sigmask_block, Store_err cb (EINPROGRESS K)]"
    by auto
  have "trace s' = trace s @ (xs @ [Mutex_unlock qp, Sigmask_block]) @
              [Store_err cb (EINPROGRESS K),
               Pthread_create attr \<lparr>args_cb = cb, args_q = qp, args_op = op\<rparr>,
               Sigmask_restore, Sem_wait]"
    by (simp add: s' e2 e1)
  moreover have "\<forall>x. quiet x (xs @ [Mutex_unlock qp, Sigmask_block])"
    using e1(2) by simp
  moreover have "spawn_args (xs @ [Mutex_unlock qp, Sigmask_block]) = []"
    using e1(3) by simp
  moreover have "cbs s' = (cbs s)(cb \<mapsto> c\<lparr>cb_err := EINPROGRESS K\<rparr>)"
    by (simp add: s' e2)
  moreover have "fst (aio_get_queue K (getq env) (aio_fildes c) True s) = Some qp"
    by (simp add: g r)
  ultimately show ?thesis
    by blast
qed

lemma args_eta [simp]:
  "\<lparr>args_cb = args_cb x, args_q = args_q x, args_op = args_op x\<rparr> = x"
  by (cases x) simp

lemma worker_inv_Submit:
  assumes inv: "worker_inv K \<sigma>" and st: "step K (Submit t cb op env) \<sigma> = Some \<sigma>'"
  shows "worker_inv K \<sigma>'"
proof -
  from step_Submit_effect[OF st] obtain c :: aiocb where
    fresh: "pcs \<sigma> t = None"
    and c: "cbs (mem \<sigma>) cb = Some c"
    and th: "threads (mem \<sigma>') = threads (mem \<sigma>)"
    by blast
  from st fresh c obtain qp s1 where
    qp: "fst (aio_get_queue K (getq env) (aio_fildes c) True (mem \<sigma>)) = Some qp"
    and sub1: "submit K env id cb op (mem \<sigma>) = Some (0, s1)"
    and \<sigma>': "\<sigma>' = \<lparr>mem = s1,
                  pcs = (pcs \<sigma>)(t \<mapsto> Spawned \<lparr>args_cb = cb, args_q = qp, args_op = op\<rparr>)\<rparr>"
    by (auto split: if_splits bind_splits option.splits prod.splits)
  have sub: "submit K env id cb op (mem \<sigma>) = Some (0, mem \<sigma>')"
    and pcs': "pcs \<sigma>' = (pcs \<sigma>)(t \<mapsto> Spawned \<lparr>args_cb = cb, args_q = qp, args_op = op\<rparr>)"
    using sub1 by (simp_all add: \<sigma>')
  from submit_ok_trace[OF sub c] qp obtain pre attr where
    pre: "\<forall>x. quiet x pre"
    and tr0: "trace (mem \<sigma>') = trace (mem \<sigma>) @ pre @
              [Store_err cb (EINPROGRESS K),
               Pthread_create attr \<lparr>args_cb = cb, args_q = qp, args_op = op\<rparr>,
               Sigmask_restore, Sem_wait]"
    by auto
  define xs where "xs = pre @
              [Store_err cb (EINPROGRESS K),
               Pthread_create attr \<lparr>args_cb = cb, args_q = qp, args_op = op\<rparr>,
               Sigmask_restore, Sem_wait]"
  have tr: "trace (mem \<sigma>') = trace (mem \<sigma>) @ xs" and q: "\<forall>x. quiet x xs"
    and sp: "\<lparr>args_cb = cb, args_q = qp, args_op = op\<rparr> \<in> set (spawn_args xs)"
    using tr0 pre by (simp_all add: xs_def)
  show ?thesis
  proof (rule worker_inv_step[OF inv _ tr])
    show "worker_at K \<sigma>' t"
      using inv fresh q[rule_format, of t] tr pcs' sp
      by (auto simp: worker_inv_def worker_at_def quiet_def dest!: spec[of _ t])
  qed (use pcs' q th in simp_all)
qed

lemma worker_inv_Enter:
  assumes inv: "worker_inv K \<sigma>" and st: "step K (Enter t cenv) \<sigma> = Some \<sigma>'"
  shows "worker_inv K \<sigma>'"
proof -
  from step_Enter_detail[OF st] obtain args loc go and q q' :: aio_queue and xs where
    pc: "pcs \<sigma> t = Some (Spawned args)"
    and pcs': "pcs \<sigma>' = (pcs \<sigma>)(t \<mapsto> (if go then In_io else Waiting loc))"
    and t': "threads (mem \<sigma>') t =
              Some \<lparr>at_td = t, at_cb = args_cb args, at_next = q_head q, at_prev = None,
                    at_q = args_q args, at_running = 1, at_err = ECANCELED K,
                    at_op = args_op args, at_ret = - 1\<rparr>"
    and o: "\<forall>x. x \<noteq> t \<longrightarrow>
                threads (mem \<sigma>') x = (if Some x = q_head q
                                then map_option (\<lambda>a. a\<lparr>at_prev := Some t\<rparr>) (threads (mem \<sigma>) x)
                                else threads (mem \<sigma>) x)"
    and tr: "trace (mem \<sigma>') = trace (mem \<sigma>) @ [Mutex_lock (args_q args), Sem_post] @ xs"
    and xs: "xs = (if go then [Mutex_unlock (args_q args),
                              Io_issue t (the (io_call K (args_op args) q' loc))]
                  else [Cond_wait (args_q args)])"
    by blast
  have qx: "quiet x ([Mutex_lock (args_q args), Sem_post] @ xs)" for x
    by (simp add: xs)
  show ?thesis
  proof (rule worker_inv_step[OF inv _ tr])
    fix x assume "x \<noteq> t"
    with o show "rel_option same_results (threads (mem \<sigma>) x) (threads (mem \<sigma>') x)"
      by (cases "threads (mem \<sigma>) x") (auto simp: same_results_def)
  next
    from inv pc have "worker_ok K (threads (mem \<sigma>) t) (Spawned args) (spawn_args (trace (mem \<sigma>)))
                     (io_results t (trace (mem \<sigma>)))
                     (err_writes t (trace (mem \<sigma>))) (ret_writes t (trace (mem \<sigma>)))"
      by (auto simp: worker_inv_def worker_at_def dest!: spec[of _ t])
    with quietD[OF qx[of t]] tr t' pcs' show "worker_at K \<sigma>' t"
      by (auto simp: worker_at_def live_def args_of_def)
  qed (use pcs' qx in simp_all)
qed

lemma worker_invD:
  assumes "worker_inv K \<sigma>" and "pcs \<sigma> t = Some pc"
  shows "worker_ok K (threads (mem \<sigma>) t) pc (spawn_args (trace (mem \<sigma>)))
           (io_results t (trace (mem \<sigma>)))
           (err_writes t (trace (mem \<sigma>))) (ret_writes t (trace (mem \<sigma>)))"
  using assms by (auto simp: worker_inv_def worker_at_def dest!: spec[of _ t])

lemma worker_atI:
  assumes "pcs \<sigma> t = Some pc"
    and "worker_ok K (threads (mem \<sigma>) t) pc (spawn_args (trace (mem \<sigma>)))
           (io_results t (trace (mem \<sigma>)))
           (err_writes t (trace (mem \<sigma>))) (ret_writes t (trace (mem \<sigma>)))"
  shows "worker_at K \<sigma> t"
  using assms by (simp add: worker_at_def)

lemma quiet_sigev [simp]: "quiet x (sigev_actions K sev)"
  by (simp add: sigev_actions_def)

lemma spawn_args_sigev [simp]: "spawn_args (sigev_actions K sev) = []"
  by (simp add: sigev_actions_def)

lemma spawn_args_wake [simp]: "spawn_args (wake_actions K t a c fut) = []"
  by (simp add: wake_actions_def)

lemma args_of_simps [simp]:
  "args_of (a\<lparr>at_running := r\<rparr>) = args_of a"
  "args_of (a\<lparr>at_ret := v\<rparr>) = args_of a"
  "args_of (a\<lparr>at_err := e\<rparr>) = args_of a"
  by (simp_all add: args_of_def)

lemma quiet_wake_actions: "x \<noteq> t \<Longrightarrow> quiet x (wake_actions K t a c fut)"
  by (simp add: wake_actions_def)

lemma wake_actions_writes:
  "io_results t (wake_actions K t a c fut) = []"
  "err_writes t (wake_actions K t a c fut) = [(at_cb a, at_err a)]"
  "ret_writes t (wake_actions K t a c fut) = [(at_cb a, at_ret a)]"
  by (simp_all add: wake_actions_def)

lemma worker_inv_Wake:
  assumes inv: "worker_inv K \<sigma>" and st: "step K (Wake t) \<sigma> = Some \<sigma>'"
  shows "worker_inv K \<sigma>'"
proof -
  from st obtain loc go s1 where
    pc: "pcs \<sigma> t = Some (Waiting loc)"
    and w: "sequenced_wait K t loc (mem \<sigma>) = Some (go, s1)"
    and \<sigma>': "\<sigma>' = \<lparr>mem = s1, pcs = (pcs \<sigma>)(t \<mapsto> (if go then In_io else Waiting loc))\<rparr>"
    by (auto split: option.splits wpc.splits bind_splits)
  from sequenced_wait_frame[OF w] obtain a :: aio_thread and xs where
    th: "threads s1 = threads (mem \<sigma>)" and tr: "trace s1 = trace (mem \<sigma>) @ xs"
    and xs: "xs = (if go then [Mutex_unlock (at_q a), Io_issue t (the (io_call K (at_op a) (the (queues (mem \<sigma>) (at_q a))) loc))]
                      else [Cond_wait (at_q a)])"
    by auto
  have q: "quiet x xs" for x by (simp add: xs)
  have tr': "trace (mem \<sigma>') = trace (mem \<sigma>) @ xs" by (simp add: \<sigma>' tr)
  show ?thesis
  proof (rule worker_inv_step[OF inv _ tr'])
    show "worker_at K \<sigma>' t"
      using worker_invD[OF inv pc] quietD[OF q[of t]]
      by (intro worker_atI[where pc = "if go then In_io else Waiting loc"])
         (auto simp: \<sigma>' tr th)
  qed (simp_all add: \<sigma>' q th)
qed

lemma worker_ok_cas:
  "worker_ok K (Some a) pc sp io ew rw \<Longrightarrow>
   worker_ok K (Some (if at_running a = 1 then a\<lparr>at_running := - 1\<rparr> else a)) pc sp io ew rw"
  by (cases pc) (auto simp: live_def finished_def)

lemma worker_inv_Cancel_cas:
  assumes inv: "worker_inv K \<sigma>" and st: "step K (Cancel_cas t) \<sigma> = Some \<sigma>'"
  shows "worker_inv K \<sigma>'"
proof -
  from st obtain pc s1 where
    pc: "pcs \<sigma> t = Some pc" "is_linked pc"
    and c: "cancel_cas t (mem \<sigma>) = Some s1"
    and \<sigma>': "\<sigma>' = \<sigma>\<lparr>mem := s1\<rparr>"
    by (auto split: option.splits if_splits bind_splits)
  from cancel_cas_effect[OF c] obtain a where
    a: "threads (mem \<sigma>) t = Some a"
    and s1: "s1 = emits (Cas_running t (at_running a) # (if at_running a \<noteq> 0 then [Pthread_cancel t] else []))
                    ((mem \<sigma>)\<lparr>threads := (threads (mem \<sigma>))(t \<mapsto> (if at_running a = 1 then a\<lparr>at_running := - 1\<rparr> else a))\<rparr>)"
    by blast
  define xs where "xs = Cas_running t (at_running a) # (if at_running a \<noteq> 0 then [Pthread_cancel t] else [])"
  have q: "quiet x xs" for x by (simp add: xs_def)
  have tr': "trace (mem \<sigma>') = trace (mem \<sigma>) @ xs" by (simp add: \<sigma>' s1 xs_def)
  have t': "threads (mem \<sigma>') t = Some (if at_running a = 1 then a\<lparr>at_running := - 1\<rparr> else a)"
    by (simp add: \<sigma>' s1)
  show ?thesis
  proof (rule worker_inv_step[OF inv _ tr'])
    from worker_invD[OF inv pc(1)] a
    have "worker_ok K (Some a) pc (spawn_args (trace (mem \<sigma>))) (io_results t (trace (mem \<sigma>)))
           (err_writes t (trace (mem \<sigma>))) (ret_writes t (trace (mem \<sigma>)))" by simp
    from worker_ok_cas[OF this, THEN worker_ok_spawn_mono, of "spawn_args xs"] quietD[OF q[of t]]
    show "worker_at K \<sigma>' t"
      by (intro worker_atI[where pc = pc]) (simp_all add: \<sigma>' pc tr'[unfolded \<sigma>', simplified] t'[unfolded \<sigma>', simplified])
  qed (simp_all add: \<sigma>' q s1)
qed

lemma worker_inv_Cancelled:
  assumes inv: "worker_inv K \<sigma>" and st: "step K (Cancelled t) \<sigma> = Some \<sigma>'"
  shows "worker_inv K \<sigma>'"
proof -
  from st obtain pc a where
    pc: "pcs \<sigma> t = Some pc" "at_cancellation_point pc"
    and a: "threads (mem \<sigma>) t = Some a"
    and \<sigma>': "\<sigma>' = \<sigma>\<lparr>pcs := (pcs \<sigma>)(t \<mapsto> At_cleanup)\<rparr>"
    by (auto split: option.splits if_splits bind_splits)
  have tr': "trace (mem \<sigma>') = trace (mem \<sigma>) @ []" by (simp add: \<sigma>')
  show ?thesis
  proof (rule worker_inv_step[OF inv _ tr'])
    from worker_invD[OF inv pc(1)] pc(2) show "worker_at K \<sigma>' t"
      by (intro worker_atI[where pc = At_cleanup]) (cases pc; simp add: \<sigma>')+
  qed (simp_all add: \<sigma>')
qed

lemma worker_inv_Io_done:
  assumes inv: "worker_inv K \<sigma>" and st: "step K (Io_done t r e) \<sigma> = Some \<sigma>'"
  shows "worker_inv K \<sigma>'"
proof -
  from st obtain s1 where
    pc: "pcs \<sigma> t = Some In_io"
    and c: "io_thread_return t r e (mem \<sigma>) = Some s1"
    and \<sigma>': "\<sigma>' = \<lparr>mem = s1, pcs = (pcs \<sigma>)(t \<mapsto> At_cleanup)\<rparr>"
    by (auto split: option.splits wpc.splits bind_splits)
  from io_thread_return_effect[OF c] obtain a where
    a: "threads (mem \<sigma>) t = Some a"
    and s1: "s1 = emits [Io_return t r e]
                    ((mem \<sigma>)\<lparr>threads := (threads (mem \<sigma>))(t \<mapsto> a\<lparr>at_ret := r, at_err := (if r < 0 then e else 0)\<rparr>)\<rparr>)"
    by blast
  have tr': "trace (mem \<sigma>') = trace (mem \<sigma>) @ [Io_return t r e]" by (simp add: \<sigma>' s1)
  show ?thesis
  proof (rule worker_inv_step[OF inv _ tr'])
    from worker_invD[OF inv pc] a show "worker_at K \<sigma>' t"
      by (intro worker_atI[where pc = At_cleanup]) (auto simp: \<sigma>' s1 live_def)
  qed (simp_all add: \<sigma>' s1)
qed

lemma worker_inv_Cleanup_wake:
  assumes inv: "worker_inv K \<sigma>" and st: "step K (Cleanup_wake t) \<sigma> = Some \<sigma>'"
  shows "worker_inv K \<sigma>'"
proof -
  from st obtain sev s1 where
    pc: "pcs \<sigma> t = Some At_cleanup"
    and c: "cleanup_wake K t (mem \<sigma>) = Some (sev, s1)"
    and \<sigma>': "\<sigma>' = \<lparr>mem = s1, pcs = (pcs \<sigma>)(t \<mapsto> Unlinking sev)\<rparr>"
    by (auto split: option.splits wpc.splits bind_splits)
  from c obtain a c0 where a: "threads (mem \<sigma>) t = Some a" and c0: "cbs (mem \<sigma>) (at_cb a) = Some c0"
    by (auto simp: cleanup_wake_def split: bind_splits)
  from c cleanup_wake_eq[OF a c0, of K] have
    s1: "s1 = emits (wake_actions K t a c0 (aio_fut (mem \<sigma>)))
                   ((mem \<sigma>)\<lparr>cbs := (cbs (mem \<sigma>))(at_cb a \<mapsto> c0\<lparr>cb_ret := at_ret a, cb_err := at_err a\<rparr>),
                      threads := (threads (mem \<sigma>))(t \<mapsto> a\<lparr>at_running := 0\<rparr>),
                      aio_fut := 0\<rparr>)"
    by simp
  have tr': "trace (mem \<sigma>') = trace (mem \<sigma>) @ wake_actions K t a c0 (aio_fut (mem \<sigma>))"
    by (simp add: \<sigma>' s1)
  show ?thesis
  proof (rule worker_inv_step[OF inv _ tr'])
    from worker_invD[OF inv pc] a show "worker_at K \<sigma>' t"
      by (intro worker_atI[where pc = "Unlinking sev"])
         (auto simp: \<sigma>' s1 live_def finished_def wake_actions_writes)
  qed (simp_all add: \<sigma>' s1 quiet_wake_actions)
qed

lemma worker_inv_Cleanup_unlink:
  assumes inv: "worker_inv K \<sigma>" and st: "step K (Cleanup_unlink t) \<sigma> = Some \<sigma>'"
  shows "worker_inv K \<sigma>'"
proof -
  from step_Cleanup_unlink_effect[OF st] obtain sev a s1 s2 returned where
    pc: "pcs \<sigma> t = Some (Unlinking sev)" and a: "threads (mem \<sigma>) t = Some a"
    and u: "unlink t (emits [Mutex_lock (at_q a)] (mem \<sigma>)) = Some s1"
    and f: "unref_fast (at_q a) (emits [Cond_broadcast (at_q a)] s1) = Some (returned, s2)"
    and m': "mem \<sigma>' = (if returned then cleanup_notify K sev s2 else s2)"
    and pcs': "pcs \<sigma>' = (pcs \<sigma>)(t \<mapsto> (if returned then Exited else Unref_pending sev))"
    by blast
  from unlink_frame[OF u] have
    r1: "\<And>x. rel_option same_but_links (threads (mem \<sigma>) x) (threads s1 x)"
    and tr1: "trace s1 = trace (mem \<sigma>) @ [Mutex_lock (at_q a), Unlink t]"
    by auto
  from unref_fast_effect[OF f] have
    e2: "threads s2 = threads s1"
    and tr2: "trace s2 = trace s1 @ [Cond_broadcast (at_q a), Mutex_unlock (at_q a)]"
    by auto
  define xs where "xs = [Mutex_lock (at_q a), Unlink t, Cond_broadcast (at_q a), Mutex_unlock (at_q a)]
                         @ (if returned then sigev_actions K sev else [])"
  have q: "quiet x xs" for x by (simp add: xs_def)
  have tr': "trace (mem \<sigma>') = trace (mem \<sigma>) @ xs"
    by (simp add: m' cleanup_notify_def tr2 tr1 xs_def)
  have th': "threads (mem \<sigma>') = threads s1"
    using m' e2 by (simp add: cleanup_notify_def)
  have rel: "rel_option same_results (threads (mem \<sigma>) x) (threads (mem \<sigma>') x)" for x
    unfolding th' using r1[of x]
    by (cases "threads (mem \<sigma>) x"; cases "threads s1 x") (auto intro: same_but_links_results)
  show ?thesis
  proof (rule worker_inv_step[OF inv _ tr'])
    have "worker_ok K (threads (mem \<sigma>') t) (Unlinking sev) (spawn_args (trace (mem \<sigma>)))
           (io_results t (trace (mem \<sigma>)))
           (err_writes t (trace (mem \<sigma>))) (ret_writes t (trace (mem \<sigma>)))"
      using worker_invD[OF inv pc] by (simp add: finished_cong[OF rel])
    with quietD[OF q[of t]] show "worker_at K \<sigma>' t"
      by (intro worker_atI[where pc = "if returned then Exited else Unref_pending sev"])
         (simp_all add: pcs' tr')
  qed (simp_all add: pcs' q rel)
qed

lemma worker_inv_Unref_slow:
  assumes inv: "worker_inv K \<sigma>" and st: "step K (Unref_slow t) \<sigma> = Some \<sigma>'"
  shows "worker_inv K \<sigma>'"
proof -
  from step_Unref_slow_effect[OF st] obtain sev a s1 where
    pc: "pcs \<sigma> t = Some (Unref_pending sev)" and a: "threads (mem \<sigma>) t = Some a"
    and u: "unref_slow (at_q a) (mem \<sigma>) = Some s1"
    and m': "mem \<sigma>' = cleanup_notify K sev s1"
    and pe: "pcs \<sigma>' = (pcs \<sigma>)(t \<mapsto> Exited)"
    by blast
  from unref_slow_effect[OF u] obtain ys where
    th: "threads s1 = threads (mem \<sigma>)" and tr1: "trace s1 = trace (mem \<sigma>) @ ys"
    and ys: "ys = [Wrlock, Mutex_lock (at_q a), Rwunlock, Mutex_unlock (at_q a), Free_queue (at_q a)]
             \<or> ys = [Wrlock, Mutex_lock (at_q a), Rwunlock, Mutex_unlock (at_q a)]"
    by (auto split: if_splits)
  define zs where "zs = ys @ sigev_actions K sev"
  have q: "quiet x zs" for x using ys by (auto simp: zs_def)
  have tr': "trace (mem \<sigma>') = trace (mem \<sigma>) @ zs"
    by (simp add: m' cleanup_notify_def tr1 zs_def)
  have th': "threads (mem \<sigma>') = threads (mem \<sigma>)"
    using m' th by (simp add: cleanup_notify_def)
  show ?thesis
  proof (rule worker_inv_step[OF inv _ tr'])
    from worker_invD[OF inv pc] quietD[OF q[of t]] show "worker_at K \<sigma>' t"
      by (intro worker_atI[where pc = Exited]) (simp_all add: pe tr' th')
  qed (simp_all add: pe q th')
qed

lemma worker_inv_any_step:
  assumes inv: "worker_inv K \<sigma>" and st: "step K ev \<sigma> = Some \<sigma>'"
  shows "worker_inv K \<sigma>'"
proof (cases ev)
  case (Submit t cb op env)
  from st show ?thesis unfolding Submit by (rule worker_inv_Submit[OF inv])
next
  case (Enter t cenv)
  from st show ?thesis unfolding Enter by (rule worker_inv_Enter[OF inv])
next
  case (Wake t)
  from st show ?thesis unfolding Wake by (rule worker_inv_Wake[OF inv])
next
  case (Cancel_cas t)
  from st show ?thesis unfolding Cancel_cas by (rule worker_inv_Cancel_cas[OF inv])
next
  case (Cancelled t)
  from st show ?thesis unfolding Cancelled by (rule worker_inv_Cancelled[OF inv])
next
  case (Io_done t r e)
  from st show ?thesis unfolding Io_done by (rule worker_inv_Io_done[OF inv])
next
  case (Cleanup_wake t)
  from st show ?thesis unfolding Cleanup_wake by (rule worker_inv_Cleanup_wake[OF inv])
next
  case (Cleanup_unlink t)
  from st show ?thesis unfolding Cleanup_unlink by (rule worker_inv_Cleanup_unlink[OF inv])
next
  case (Unref_slow t)
  from st show ?thesis unfolding Unref_slow by (rule worker_inv_Unref_slow[OF inv])
qed

lemma worker_inv_initial: "worker_inv K (initial H)"
  by (simp add: worker_inv_def worker_at_def initial_def)

lemma worker_inv_run:
  assumes "run K evs (initial H) = Some \<sigma>"
  shows "worker_inv K \<sigma>"
  by (rule run_induct[where P = "worker_inv K", OF assms worker_inv_initial])
     (rule worker_inv_any_step)

subsection \<open>Sequencing looks behind only\<close>

lemma find_is_write_None:
  "find (is_write h) ts = None \<longleftrightarrow> \<not> (\<exists>w \<in> set ts. is_write h w)"
  by (induction ts) auto

lemma sequenced_wait_decides:
  assumes t: "threads s t = Some a" and q: "queues s (at_q a) = Some q"
    and lst: "chain (threads s) (q_head q) (later @ t # earlier)"
    and call: "io_call K (at_op a) q loc = Some cl"
  shows "sequenced_wait K t loc s =
           Some (if \<exists>w \<in> set earlier. is_write (threads s) w
                 then (False, emits [Cond_wait (at_q a)] s)
                 else (True, emits [Mutex_unlock (at_q a), Io_issue t cl] s))"
proof -
  from chain_mid[OF lst] t have "chain (threads s) (at_next a) earlier" by auto
  then have sc: "scan (threads s) (at_next a) = Some (find (is_write (threads s)) earlier)"
    by (rule scan_chain)
  show ?thesis
  proof (cases "find (is_write (threads s)) earlier")
    case None
    then have "\<not> (\<exists>w \<in> set earlier. is_write (threads s) w)" by (simp add: find_is_write_None)
    with None sc t q call show ?thesis
      by (simp add: sequenced_wait_def io_thread_issue_def)
  next
    case (Some w)
    then have "\<exists>w \<in> set earlier. is_write (threads s) w"
      using find_is_write_None[of "threads s" earlier] by simp
    with Some sc t show ?thesis
      by (simp add: sequenced_wait_def)
  qed
qed

lemma io_thread_sequence_decides:
  assumes t: "threads s t = Some a" and q: "queues s (at_q a) = Some q"
    and lst: "chain (threads s) (q_head q) (later @ t # earlier)"
    and call: "io_call K (at_op a) q loc = Some cl"
  shows "io_thread_sequence K t loc s =
           Some (if needs_sequencing (at_op a) (q_append q)
                    \<and> (\<exists>w \<in> set earlier. is_write (threads s) w)
                 then (False, emits [Cond_wait (at_q a)] s)
                 else (True, emits [Mutex_unlock (at_q a), Io_issue t cl] s))"
proof (cases "needs_sequencing (at_op a) (q_append q)")
  case True
  with t q sequenced_wait_decides[OF t q lst call] show ?thesis
    by (simp add: io_thread_sequence_def)
next
  case False
  with t q call show ?thesis
    by (simp add: io_thread_sequence_def io_thread_issue_def)
qed

lemma enter_at_head:
  assumes fresh: "threads s n = None"
    and enter: "io_thread_enter K cenv n args s = Some (loc, s')"
    and q: "queues s (args_q args) = Some q" and init: "q_init q"
    and lst: "chain (threads s) (q_head q) ts"
  shows "queues s' = (queues s)(args_q args \<mapsto> q\<lparr>q_head := Some n\<rparr>)
       \<and> chain (threads s') (Some n) (n # ts)
       \<and> n \<notin> set ts
       \<and> (\<exists>an. threads s' n = Some an \<and> at_op an = args_op args \<and> at_q an = args_q args)
       \<and> (\<forall>x. x \<noteq> n \<longrightarrow> rel_option (\<lambda>b b'. b' = b\<lparr>at_prev := at_prev b'\<rparr>) (threads s x) (threads s' x))"
proof -
  from io_thread_enter_link[OF enter] obtain s1 q1 where
    l: "link_head K n args (emits [Mutex_lock (args_q args), Sem_post] s) = Some s1"
    and q1: "queues s1 (args_q args) = Some q1"
    and th: "threads s' = threads s1"
    and qs: "queues s' = (queues s1)(args_q args \<mapsto>
               (if q_init q1 then q1
                else q1\<lparr>q_seekable := lseek_ok cenv,
                        q_append := (\<not> lseek_ok cenv \<or> fl_append cenv), q_init := True\<rparr>))"
    by blast
  from fresh have fresh': "threads (emits [Mutex_lock (args_q args), Sem_post] s) n = None"
    by simp
  from link_head_threads[OF l fresh'] q have
    q1': "queues s1 = (queues s)(args_q args \<mapsto> q\<lparr>q_head := Some n\<rparr>)"
    and n: "threads s1 n = Some \<lparr>at_td = n, at_cb = args_cb args, at_next = q_head q, at_prev = None,
                 at_q = args_q args, at_running = 1, at_err = ECANCELED K,
                 at_op = args_op args, at_ret = - 1\<rparr>"
    and others: "\<forall>x. x \<noteq> n \<longrightarrow>
                threads s1 x = (if Some x = q_head q
                                then map_option (\<lambda>a. a\<lparr>at_prev := Some n\<rparr>) (threads s x)
                                else threads s x)"
    by auto
  from q1 q1' init have "q_init q1" by auto
  with qs q1 q1' have qs': "queues s' = (queues s)(args_q args \<mapsto> q\<lparr>q_head := Some n\<rparr>)"
    by (auto simp: fun_eq_iff)
  have nin: "n \<notin> set ts" using chain_alloc[OF lst, of n] fresh by auto
  have rel: "rel_option (\<lambda>b b'. b' = b\<lparr>at_prev := at_prev b'\<rparr>) (threads s x) (threads s' x)"
    if "x \<noteq> n" for x
    using others that th by (cases "threads s x") auto
  have "chain (threads s') (q_head q) ts"
  proof (rule chain_next_cong[OF lst])
    fix x assume "x \<in> set ts"
    with nin have "x \<noteq> n" by auto
    with others th show "map_option at_next (threads s' x) = map_option at_next (threads s x)"
      by (cases "threads s x") auto
  qed
  with n th have "chain (threads s') (Some n) (n # ts)" by simp
  with qs' nin n th rel show ?thesis by simp
qed

text \<open>
  Claim C9. Let the worker at \<open>t\<close> be in the list of its queue, with the workers \<open>later\<close>
  before it in the list, which were linked after it, and the workers \<open>earlier\<close> behind it.
  The round of its sequencing wait waits on the condition variable if one of \<open>earlier\<close> is
  a write, and otherwise unlocks the queue and issues the I/O call: the operations of
  \<open>later\<close> have no part in it. A worker that enters at the unused address \<open>n\<close> is linked at
  the head, so it joins \<open>later\<close>, and the round of \<open>t\<close> decides as before, whatever the
  operation of \<open>n\<close> is.
\<close>

theorem sequencing_ignores_later_workers:
  assumes t: "threads s t = Some a" and q: "queues s (at_q a) = Some q"
    and lst: "chain (threads s) (q_head q) (later @ t # earlier)"
    and call: "io_call K (at_op a) q loc = Some cl"
  shows "sequenced_wait K t loc s =
           Some (if \<exists>w \<in> set earlier. is_write (threads s) w
                 then (False, emits [Cond_wait (at_q a)] s)
                 else (True, emits [Mutex_unlock (at_q a), Io_issue t cl] s))
       \<and> (\<forall>n cenv args loc' s'.
            threads s n = None \<and> args_q args = at_q a \<and> q_init q
            \<and> io_thread_enter K cenv n args s = Some (loc', s') \<longrightarrow>
              (\<exists>q'. queues s' (at_q a) = Some q'
                  \<and> chain (threads s') (q_head q') (n # later @ t # earlier))
            \<and> sequenced_wait K t loc s' =
                Some (if \<exists>w \<in> set earlier. is_write (threads s) w
                      then (False, emits [Cond_wait (at_q a)] s')
                      else (True, emits [Mutex_unlock (at_q a), Io_issue t cl] s')))"
proof (intro conjI allI impI)
  show "sequenced_wait K t loc s =
           Some (if \<exists>w \<in> set earlier. is_write (threads s) w
                 then (False, emits [Cond_wait (at_q a)] s)
                 else (True, emits [Mutex_unlock (at_q a), Io_issue t cl] s))"
    by (rule sequenced_wait_decides[OF t q lst call])
next
  fix n cenv args loc' s'
  assume h: "threads s n = None \<and> args_q args = at_q a \<and> q_init q
            \<and> io_thread_enter K cenv n args s = Some (loc', s')"
  then have q0: "queues s (args_q args) = Some q" using q by simp
  from h enter_at_head[OF _ _ q0 _ lst, of n K cenv loc' s'] have
    qs': "queues s' = (queues s)(at_q a \<mapsto> q\<lparr>q_head := Some n\<rparr>)"
    and ch: "chain (threads s') (Some n) (n # later @ t # earlier)"
    and nin: "n \<notin> set (later @ t # earlier)"
    and rel: "\<forall>x. x \<noteq> n \<longrightarrow> rel_option (\<lambda>b b'. b' = b\<lparr>at_prev := at_prev b'\<rparr>) (threads s x) (threads s' x)"
    by simp_all
  show "\<exists>q'. queues s' (at_q a) = Some q' \<and> chain (threads s') (q_head q') (n # later @ t # earlier)"
    using qs' ch by simp
  have same: "\<exists>b'. threads s' x = Some b' \<and> at_op b' = at_op b \<and> at_q b' = at_q b"
    if "x \<noteq> n" "threads s x = Some b" for x b
  proof -
    from rel that obtain b' where b': "threads s' x = Some b'" "b' = b\<lparr>at_prev := at_prev b'\<rparr>"
      by (cases "threads s' x") (auto simp: option.rel_sel)
    from b'(2) have "at_op b' = at_op (b\<lparr>at_prev := at_prev b'\<rparr>)" "at_q b' = at_q (b\<lparr>at_prev := at_prev b'\<rparr>)"
      by simp_all
    with b'(1) show ?thesis by simp
  qed
  from nin have "t \<noteq> n" by auto
  from same[OF this t] obtain a' where a': "threads s' t = Some a'" "at_op a' = at_op a" "at_q a' = at_q a"
    by blast
  have q': "queues s' (at_q a') = Some (q\<lparr>q_head := Some n\<rparr>)" using qs' a' by simp
  have ch': "chain (threads s') (q_head (q\<lparr>q_head := Some n\<rparr>)) ((n # later) @ t # earlier)"
    using ch by simp
  have call': "io_call K (at_op a') (q\<lparr>q_head := Some n\<rparr>) loc = Some cl"
  proof -
    have "io_call K (at_op a') (q\<lparr>q_head := Some n\<rparr>) loc = io_call K (at_op a') q loc"
      by (simp add: io_call_def)
    with call a'(2) show ?thesis by simp
  qed
  have wr: "is_write (threads s') w = is_write (threads s) w" if "w \<in> set earlier" for w
  proof -
    from that nin have "w \<noteq> n" by auto
    moreover from chain_alloc[OF lst, of w] that obtain b where "threads s w = Some b" by auto
    ultimately show ?thesis using same[of w b] by (auto simp: is_write_def)
  qed
  from sequenced_wait_decides[OF a'(1) q' ch' call'] wr a'(3)
  show "sequenced_wait K t loc s' =
                Some (if \<exists>w \<in> set earlier. is_write (threads s) w
                      then (False, emits [Cond_wait (at_q a)] s')
                      else (True, emits [Mutex_unlock (at_q a), Io_issue t cl] s'))"
    by auto
qed

lemmas later_defs = later_write_state_def later_write_def

lemma later_write_11:
  "threads later_write_state 11 =
     Some \<lparr>at_td = 11, at_cb = 2, at_next = None, at_prev = Some 12, at_q = 1,
           at_running = 1, at_err = 125, at_op = 4096, at_ret = - 1\<rparr>"
  by (simp add: run_defs sys_defs later_defs)

lemma later_write_12:
  "threads later_write_state 12 =
     Some \<lparr>at_td = 12, at_cb = 3, at_next = Some 11, at_prev = None, at_q = 1,
           at_running = 1, at_err = 125, at_op = 1, at_ret = - 1\<rparr>"
  by (simp add: run_defs sys_defs later_defs)

lemma later_write_13: "threads later_write_state 13 = None"
  by (simp add: run_defs sys_defs later_defs)

lemma later_write_queue:
  "queues later_write_state 1 =
     Some \<lparr>q_fd = 5, q_seekable = True, q_append = True, q_ref = 2, q_init = True,
           q_head = Some 12\<rparr>"
  by (simp add: run_defs sys_defs later_defs)

lemma later_write_cb: "cbs later_write_state 1 \<noteq> None"
  by (simp add: run_defs sys_defs later_defs)

theorem sequencing_ignores_later_workers_witness:
  "is_write (threads later_write_state) 12
   \<and> map_option q_head (queues later_write_state 1) = Some (Some 12)
   \<and> sequenced_wait linux_consts 11 locals5 later_write_state =
       Some (True, emits [Mutex_unlock 1, Io_issue 11 (Sys_fdatasync 5)] later_write_state)
   \<and> (\<exists>loc' s'. io_thread_enter linux_consts cenv_append 13
                    \<lparr>args_cb = 1, args_q = 1, args_op = LIO_WRITE\<rparr> later_write_state = Some (loc', s')
         \<and> map_option q_head (queues s' 1) = Some (Some 13)
         \<and> sequenced_wait linux_consts 11 locals5 s' =
             Some (True, emits [Mutex_unlock 1, Io_issue 11 (Sys_fdatasync 5)] s'))"
proof -
  let ?a = "\<lparr>at_td = 11, at_cb = 2, at_next = None, at_prev = Some 12, at_q = 1,
             at_running = 1, at_err = 125, at_op = 4096, at_ret = - 1\<rparr>"
  let ?q = "\<lparr>q_fd = 5, q_seekable = True, q_append = True, q_ref = 2, q_init = True,
             q_head = Some 12\<rparr>"
  let ?args = "\<lparr>args_cb = 1, args_q = 1, args_op = LIO_WRITE\<rparr>"
  have t: "threads later_write_state 11 = Some ?a" by (rule later_write_11)
  have q: "queues later_write_state (at_q ?a) = Some ?q" using later_write_queue by simp
  have lst: "chain (threads later_write_state) (q_head ?q) ([12] @ 11 # [])"
    by (simp add: later_write_11 later_write_12)
  have call: "io_call linux_consts (at_op ?a) ?q locals5 = Some (Sys_fdatasync 5)"
    by (simp add: io_call_def linux_consts_def locals5_def LIO_WRITE_def LIO_READ_def)
  have w: "is_write (threads later_write_state) 12"
    by (simp add: is_write_def later_write_12 LIO_WRITE_def)
  have "io_thread_enter linux_consts cenv_append 13 ?args later_write_state \<noteq> None"
    using later_write_cb later_write_12 later_write_queue
    by (auto simp: io_thread_enter_def link_head_def Let_def)
  then obtain loc' s' where
    enter: "io_thread_enter linux_consts cenv_append 13 ?args later_write_state = Some (loc', s')"
    by auto
  note inst = sequencing_ignores_later_workers[OF t q lst call]
  from inst have 1: "sequenced_wait linux_consts 11 locals5 later_write_state =
       Some (True, emits [Mutex_unlock 1, Io_issue 11 (Sys_fdatasync 5)] later_write_state)"
    by simp
  from inst[THEN conjunct2, rule_format, of 13 ?args cenv_append loc' s'] enter later_write_13
  have 2: "map_option q_head (queues s' 1) = Some (Some 13)
         \<and> sequenced_wait linux_consts 11 locals5 s' =
             Some (True, emits [Mutex_unlock 1, Io_issue 11 (Sys_fdatasync 5)] s')"
    by auto
  from w 1 2 enter later_write_queue show ?thesis
    by simp
qed

subsection \<open>The order of cleanup\<close>

lemma cleanup_steps:
  assumes t: "threads s t = Some a" and c: "cbs s (at_cb a) = Some c"
    and run: "cleanup K others t s = Some s'"
  shows "\<exists>s1 r s2 s3.
           s1 = emits (wake_actions K t a c (aio_fut s))
                   (s\<lparr>cbs := (cbs s)(at_cb a \<mapsto> c\<lparr>cb_ret := at_ret a, cb_err := at_err a\<rparr>),
                      threads := (threads s)(t \<mapsto> a\<lparr>at_running := 0\<rparr>),
                      aio_fut := 0\<rparr>)
         \<and> cleanup_wake K t s = Some (aio_sigevent c, s1)
         \<and> cleanup_unlink t s1 = Some (r, s2)
         \<and> (if r then s3 = s2 else unref_slow (at_q a) (others s2) = Some s3)
         \<and> s' = cleanup_notify K (aio_sigevent c) s3"
proof -
  define s1 where "s1 = emits (wake_actions K t a c (aio_fut s))
                   (s\<lparr>cbs := (cbs s)(at_cb a \<mapsto> c\<lparr>cb_ret := at_ret a, cb_err := at_err a\<rparr>),
                      threads := (threads s)(t \<mapsto> a\<lparr>at_running := 0\<rparr>),
                      aio_fut := 0\<rparr>)"
  have w: "cleanup_wake K t s = Some (aio_sigevent c, s1)"
    unfolding s1_def using t c by (rule cleanup_wake_eq)
  have t1: "threads s1 t = Some (a\<lparr>at_running := 0\<rparr>)"
    by (simp add: s1_def)
  have "cleanup K others t s =
          (case cleanup_unlink t s1 of
             None \<Rightarrow> None
           | Some (r, s2) \<Rightarrow>
              (case (if r then Some s2 else unref_slow (at_q a) (others s2)) of
                 None \<Rightarrow> None
               | Some s3 \<Rightarrow> Some (cleanup_notify K (aio_sigevent c) s3)))"
    using w t1 by (simp add: cleanup_def split: option.splits prod.splits)
  with run have run': "(case cleanup_unlink t s1 of
             None \<Rightarrow> None
           | Some (r, s2) \<Rightarrow>
              (case (if r then Some s2 else unref_slow (at_q a) (others s2)) of
                 None \<Rightarrow> None
               | Some s3 \<Rightarrow> Some (cleanup_notify K (aio_sigevent c) s3))) = Some s'"
    by simp
  then obtain r s2 where u: "cleanup_unlink t s1 = Some (r, s2)"
    and run'': "(case (if r then Some s2 else unref_slow (at_q a) (others s2)) of
                 None \<Rightarrow> None
               | Some s3 \<Rightarrow> Some (cleanup_notify K (aio_sigevent c) s3)) = Some s'"
    by (cases "cleanup_unlink t s1") (auto split: prod.splits)
  then obtain s3 where f: "(if r then Some s2 else unref_slow (at_q a) (others s2)) = Some s3"
    and s': "s' = cleanup_notify K (aio_sigevent c) s3"
    by (cases "if r then Some s2 else unref_slow (at_q a) (others s2)") auto
  from f have "if r then s3 = s2 else unref_slow (at_q a) (others s2) = Some s3"
    by (auto split: if_splits)
  with w u s' show ?thesis
    unfolding s1_def[symmetric] by blast
qed

lemma about_to_clean_up:
  assumes reach: "run K evs (initial H) = Some \<sigma>"
    and pc: "pcs \<sigma> u = Some At_cleanup" and b: "threads (mem \<sigma>) u = Some b"
  shows "(at_running b = 1 \<or> at_running b = - 1)
       \<and> (\<exists>q later earlier.
             queues (mem \<sigma>) (at_q b) = Some q
           \<and> chain (threads (mem \<sigma>)) (q_head q) (later @ u # earlier)
           \<and> prevs (threads (mem \<sigma>)) None (later @ u # earlier))"
proof -
  from worker_invD[OF worker_inv_run[OF reach] pc] b
  have r: "at_running b = 1 \<or> at_running b = - 1" by (simp add: live_def)
  from sys_inv_run[OF reach] have ri: "refs_inv \<sigma>" and li: "list_inv \<sigma>"
    by (simp_all add: sys_inv_def)
  have lk: "u \<in> linked \<sigma> (at_q b)" using pc b by (auto simp: linked_def)
  with linked_subset_users[of \<sigma> "at_q b"] have "users \<sigma> (at_q b) \<noteq> {}" by auto
  with refs_invD(2)[OF ri, of "at_q b"] obtain q where q: "queues (mem \<sigma>) (at_q b) = Some q"
    by (cases "queues (mem \<sigma>) (at_q b)") auto
  from list_invD[OF li q] obtain ts where ql: "queue_list \<sigma> (at_q b) q ts" ..
  with lk have "u \<in> set ts" by (simp add: queue_list_def)
  then obtain later earlier where "ts = later @ u # earlier" by (auto simp: in_set_conv_decomp)
  with ql q r show ?thesis by (auto simp: queue_list_def)
qed

text \<open>
  Claim C2. \<open>cleanup\<close> of the worker \<open>a\<close> at \<open>t\<close>, with the handle \<open>c\<close>, in the list of its
  queue \<open>q\<close> between the workers \<open>later\<close> and \<open>earlier\<close>. Its actions are, in this order:
  the copy of the result, the swap of \<open>running\<close> with the wake of its waiters iff the
  value was negative, the swap of \<open>err\<close> with the wake of its waiters iff the value was
  not \<open>EINPROGRESS\<close>, the swap of \<^verbatim>\<open>__aio_fut\<close> with the wake of its waiters iff the value
  was not 0, then the lock, the unlinking, the broadcast and the unlock, then what
  \<open>__aio_unref_queue\<close> and the other threads do, and last the notification. When the
  queue is unlocked, in the state \<open>s2\<close>, the handle holds the worker's \<open>ret\<close> and \<open>err\<close>,
  \<open>running\<close> and \<^verbatim>\<open>__aio_fut\<close> are 0, the neighbours of the worker point to each other, the
  list is \<open>later @ earlier\<close>, and the reference count is one less if it was above 1. The
  final state is \<open>s2\<close> with the notification, or what the rest of \<open>__aio_unref_queue\<close>
  makes of \<open>others s2\<close>, with the notification. In every state that the submissions,
  workers and cancellations reach, a worker about to run \<open>cleanup\<close> is in the list of its
  queue and its \<open>running\<close> is 1 or the sentinel \<open>-1\<close>, so that the negative value that
  wakes the waiters is the sentinel.
\<close>

theorem cleanup_order:
  assumes t: "threads s t = Some a" and c: "cbs s (at_cb a) = Some c"
    and q: "queues s (at_q a) = Some q"
    and lst: "chain (threads s) (q_head q) (later @ t # earlier)"
    and pv: "prevs (threads s) None (later @ t # earlier)"
    and ext: "\<forall>x. \<exists>zs. trace (others x) = trace x @ zs"
    and run: "cleanup K others t s = Some s'"
  shows "(\<exists>r s2 mid.
           cbs s2 = (cbs s)(at_cb a \<mapsto> c\<lparr>cb_ret := at_ret a, cb_err := at_err a\<rparr>)
         \<and> (\<forall>x. threads s2 x =
               (if x = t then Some (a\<lparr>at_running := 0\<rparr>)
                else if Some x = at_next a
                     then map_option (\<lambda>b. b\<lparr>at_prev := at_prev a\<rparr>) (threads s x)
                else if Some x = at_prev a
                     then map_option (\<lambda>b. b\<lparr>at_next := at_next a\<rparr>) (threads s x)
                else threads s x))
         \<and> aio_fut s2 = 0
         \<and> r = (1 < q_ref q)
         \<and> queues s2 = (queues s)(at_q a \<mapsto>
              q\<lparr>q_head := (if at_prev a = None then at_next a else q_head q),
                q_ref := (if r then q_ref q - 1 else q_ref q)\<rparr>)
         \<and> chain (threads s2) (if at_prev a = None then at_next a else q_head q) (later @ earlier)
         \<and> prevs (threads s2) None (later @ earlier)
         \<and> trace s2 = trace s @
             [Copy_ret t (at_cb a) (at_ret a), Swap_running t (at_running a) 0] @
             (if at_running a < 0 then [Wake_running t] else []) @
             [Swap_err t (at_cb a) (cb_err c) (at_err a)] @
             (if cb_err c \<noteq> EINPROGRESS K then [Wake_err (at_cb a)] else []) @
             [Swap_fut (aio_fut s) 0] @
             (if aio_fut s \<noteq> 0 then [Wake_fut] else []) @
             [Mutex_lock (at_q a), Unlink t, Cond_broadcast (at_q a), Mutex_unlock (at_q a)]
         \<and> (if r then s' = cleanup_notify K (aio_sigevent c) s2
             else \<exists>s3. unref_slow (at_q a) (others s2) = Some s3
                     \<and> s' = cleanup_notify K (aio_sigevent c) s3)
         \<and> cbs s' = cbs (if r then s2 else others s2)
         \<and> threads s' = threads (if r then s2 else others s2)
         \<and> (r \<longrightarrow> mid = [])
         \<and> trace s' = trace s2 @ mid @ sigev_actions K (aio_sigevent c))
       \<and> (\<forall>evs H \<sigma> u b.
             run K evs (initial H) = Some \<sigma> \<and> pcs \<sigma> u = Some At_cleanup
             \<and> threads (mem \<sigma>) u = Some b \<longrightarrow>
               (at_running b = 1 \<or> at_running b = - 1)
             \<and> (at_running b < 0) = (at_running b = - 1)
             \<and> (\<exists>q' later' earlier'.
                   queues (mem \<sigma>) (at_q b) = Some q'
                 \<and> chain (threads (mem \<sigma>)) (q_head q') (later' @ u # earlier')
                 \<and> prevs (threads (mem \<sigma>)) None (later' @ u # earlier')))"
proof (rule conjI)
  from cleanup_steps[OF t c run] obtain s1 r s2 s3 where
    s1: "s1 = emits (wake_actions K t a c (aio_fut s))
                   (s\<lparr>cbs := (cbs s)(at_cb a \<mapsto> c\<lparr>cb_ret := at_ret a, cb_err := at_err a\<rparr>),
                      threads := (threads s)(t \<mapsto> a\<lparr>at_running := 0\<rparr>),
                      aio_fut := 0\<rparr>)"
    and cu: "cleanup_unlink t s1 = Some (r, s2)"
    and s3: "if r then s3 = s2 else unref_slow (at_q a) (others s2) = Some s3"
    and s': "s' = cleanup_notify K (aio_sigevent c) s3"
    by blast
  let ?a1 = "a\<lparr>at_running := 0\<rparr>"
  have t1: "threads s1 t = Some ?a1" by (simp add: s1)
  have q1: "queues s1 (at_q ?a1) = Some q" using q by (simp add: s1)
  have fr: "map_option at_next (threads s1 x) = map_option at_next (threads s x)"
           "map_option at_prev (threads s1 x) = map_option at_prev (threads s x)" for x
    using t by (auto simp: s1)
  have c1: "chain (threads s1) (q_head q) (later @ t # earlier)"
    by (rule chain_next_cong[OF lst]) (rule fr(1))
  have p1: "prevs (threads s1) None (later @ t # earlier)"
    by (rule prevs_prev_cong[OF pv]) (rule fr(2))
  note eff = cleanup_unlink_list[OF cu t1 q1 c1 p1]
  from eff have nt: "at_next a \<noteq> Some t" "at_prev a \<noteq> Some t" by simp_all
  have th2: "threads s2 x =
               (if x = t then Some (a\<lparr>at_running := 0\<rparr>)
                else if Some x = at_next a
                     then map_option (\<lambda>b. b\<lparr>at_prev := at_prev a\<rparr>) (threads s x)
                else if Some x = at_prev a
                     then map_option (\<lambda>b. b\<lparr>at_next := at_next a\<rparr>) (threads s x)
                else threads s x)" for x
  proof -
    from eff have "threads s2 x =
              (if Some x = at_next ?a1 then map_option (\<lambda>b. b\<lparr>at_prev := at_prev ?a1\<rparr>) (threads s1 x)
               else if Some x = at_prev ?a1 then map_option (\<lambda>b. b\<lparr>at_next := at_next ?a1\<rparr>) (threads s1 x)
               else threads s1 x)" by blast
    with nt show ?thesis by (auto simp: s1)
  qed
  from eff have cb2: "cbs s2 = (cbs s)(at_cb a \<mapsto> c\<lparr>cb_ret := at_ret a, cb_err := at_err a\<rparr>)"
    and fut2: "aio_fut s2 = 0" and r: "r = (1 < q_ref q)"
    and q2: "queues s2 = (queues s)(at_q a \<mapsto>
              q\<lparr>q_head := (if at_prev a = None then at_next a else q_head q),
                q_ref := (if r then q_ref q - 1 else q_ref q)\<rparr>)"
    and c2: "chain (threads s2) (if at_prev a = None then at_next a else q_head q) (later @ earlier)"
    and p2: "prevs (threads s2) None (later @ earlier)"
    and tr2: "trace s2 = trace s1 @
            [Mutex_lock (at_q a), Unlink t, Cond_broadcast (at_q a), Mutex_unlock (at_q a)]"
    by (simp_all add: s1 cong: if_cong)
  have tr2': "trace s2 = trace s @
             [Copy_ret t (at_cb a) (at_ret a), Swap_running t (at_running a) 0] @
             (if at_running a < 0 then [Wake_running t] else []) @
             [Swap_err t (at_cb a) (cb_err c) (at_err a)] @
             (if cb_err c \<noteq> EINPROGRESS K then [Wake_err (at_cb a)] else []) @
             [Swap_fut (aio_fut s) 0] @
             (if aio_fut s \<noteq> 0 then [Wake_fut] else []) @
             [Mutex_lock (at_q a), Unlink t, Cond_broadcast (at_q a), Mutex_unlock (at_q a)]"
    unfolding tr2 by (simp add: s1 wake_actions_def)
  have fin: "if r then s' = cleanup_notify K (aio_sigevent c) s2
             else \<exists>s3. unref_slow (at_q a) (others s2) = Some s3
                     \<and> s' = cleanup_notify K (aio_sigevent c) s3"
    using s3 s' by (auto split: if_splits)
  have mem: "cbs s' = cbs (if r then s2 else others s2)
           \<and> threads s' = threads (if r then s2 else others s2)"
  proof (cases r)
    case True
    with s3 s' show ?thesis by (simp add: cleanup_notify_def)
  next
    case False
    with s3 have "unref_slow (at_q a) (others s2) = Some s3" by simp
    from unref_slow_effect[OF this] False s' show ?thesis by (simp add: cleanup_notify_def)
  qed
  have "\<exists>mid. (r \<longrightarrow> mid = []) \<and> trace s3 = trace s2 @ mid"
  proof (cases r)
    case True
    with s3 show ?thesis by simp
  next
    case False
    with s3 have "unref_slow (at_q a) (others s2) = Some s3" by simp
    then obtain xs where "trace s3 = trace (others s2) @ xs"
      by (auto dest: unref_slow_trace)
    moreover from ext obtain zs where "trace (others s2) = trace s2 @ zs" by blast
    ultimately show ?thesis using False by simp
  qed
  then obtain mid where mid: "r \<longrightarrow> mid = []" and tr3: "trace s3 = trace s2 @ mid" by blast
  have tr': "trace s' = trace s2 @ mid @ sigev_actions K (aio_sigevent c)"
    by (simp add: s' cleanup_notify_def tr3)
  show "\<exists>r s2 mid.
           cbs s2 = (cbs s)(at_cb a \<mapsto> c\<lparr>cb_ret := at_ret a, cb_err := at_err a\<rparr>)
         \<and> (\<forall>x. threads s2 x =
               (if x = t then Some (a\<lparr>at_running := 0\<rparr>)
                else if Some x = at_next a
                     then map_option (\<lambda>b. b\<lparr>at_prev := at_prev a\<rparr>) (threads s x)
                else if Some x = at_prev a
                     then map_option (\<lambda>b. b\<lparr>at_next := at_next a\<rparr>) (threads s x)
                else threads s x))
         \<and> aio_fut s2 = 0
         \<and> r = (1 < q_ref q)
         \<and> queues s2 = (queues s)(at_q a \<mapsto>
              q\<lparr>q_head := (if at_prev a = None then at_next a else q_head q),
                q_ref := (if r then q_ref q - 1 else q_ref q)\<rparr>)
         \<and> chain (threads s2) (if at_prev a = None then at_next a else q_head q) (later @ earlier)
         \<and> prevs (threads s2) None (later @ earlier)
         \<and> trace s2 = trace s @
             [Copy_ret t (at_cb a) (at_ret a), Swap_running t (at_running a) 0] @
             (if at_running a < 0 then [Wake_running t] else []) @
             [Swap_err t (at_cb a) (cb_err c) (at_err a)] @
             (if cb_err c \<noteq> EINPROGRESS K then [Wake_err (at_cb a)] else []) @
             [Swap_fut (aio_fut s) 0] @
             (if aio_fut s \<noteq> 0 then [Wake_fut] else []) @
             [Mutex_lock (at_q a), Unlink t, Cond_broadcast (at_q a), Mutex_unlock (at_q a)]
         \<and> (if r then s' = cleanup_notify K (aio_sigevent c) s2
             else \<exists>s3. unref_slow (at_q a) (others s2) = Some s3
                     \<and> s' = cleanup_notify K (aio_sigevent c) s3)
         \<and> cbs s' = cbs (if r then s2 else others s2)
         \<and> threads s' = threads (if r then s2 else others s2)
         \<and> (r \<longrightarrow> mid = [])
         \<and> trace s' = trace s2 @ mid @ sigev_actions K (aio_sigevent c)"
    apply (rule exI[of _ r], rule exI[of _ s2], rule exI[of _ mid])
    apply (intro conjI allI)
                apply (rule cb2)
               apply (rule th2)
              apply (rule fut2)
             apply (rule r)
            apply (rule q2)
           apply (rule c2)
          apply (rule p2)
         apply (rule tr2')
        apply (rule fin)
       apply (rule mem[THEN conjunct1])
      apply (rule mem[THEN conjunct2])
     apply (rule mid)
    apply (rule tr')
    done
next
  show "\<forall>evs H \<sigma> u b.
             run K evs (initial H) = Some \<sigma> \<and> pcs \<sigma> u = Some At_cleanup
             \<and> threads (mem \<sigma>) u = Some b \<longrightarrow>
               (at_running b = 1 \<or> at_running b = - 1)
             \<and> (at_running b < 0) = (at_running b = - 1)
             \<and> (\<exists>q' later' earlier'.
                   queues (mem \<sigma>) (at_q b) = Some q'
                 \<and> chain (threads (mem \<sigma>)) (q_head q') (later' @ u # earlier')
                 \<and> prevs (threads (mem \<sigma>)) None (later' @ u # earlier'))"
  proof (intro allI impI)
    fix evs H \<sigma> u b
    assume h: "run K evs (initial H) = Some \<sigma> \<and> pcs \<sigma> u = Some At_cleanup
             \<and> threads (mem \<sigma>) u = Some b"
    from about_to_clean_up[of K evs H \<sigma> u b] h
    show "(at_running b = 1 \<or> at_running b = - 1)
             \<and> (at_running b < 0) = (at_running b = - 1)
             \<and> (\<exists>q' later' earlier'.
                   queues (mem \<sigma>) (at_q b) = Some q'
                 \<and> chain (threads (mem \<sigma>)) (q_head q') (later' @ u # earlier')
                 \<and> prevs (threads (mem \<sigma>)) None (later' @ u # earlier'))"
      by auto
  qed
qed

lemmas waited_defs = waited_state_def worker_rec_def handle_signal_def state0_def handle5_def
  linux_consts_def

theorem cleanup_order_witness:
  "(\<exists>s'. cleanup linux_consts id 11 waited_state = Some s'
       \<and> trace s' =
           [Copy_ret 11 2 (- 1), Swap_running 11 (- 1) 0, Wake_running 11,
            Swap_err 11 2 0x80000073 125, Wake_err 2, Swap_fut 1 0, Wake_fut,
            Mutex_lock 1, Unlink 11, Cond_broadcast 1, Mutex_unlock 1, Sigqueue 10 7]
       \<and> map_option cb_err (cbs s' 2) = Some 125 \<and> map_option cb_ret (cbs s' 2) = Some (- 1)
       \<and> map_option at_running (threads s' 11) = Some 0
       \<and> map_option at_next (threads s' 12) = Some (Some 10)
       \<and> map_option at_prev (threads s' 10) = Some (Some 12))
   \<and> (\<exists>\<sigma>. run linux_consts cancel_run (initial handles3) = Some \<sigma>
         \<and> pcs \<sigma> 10 = Some At_cleanup
         \<and> map_option at_running (threads (mem \<sigma>) 10) = Some (- 1))"
proof -
  let ?a = "worker_rec 11 2 (Some 10) (Some 12) (- 1) 4096"
  let ?q = "\<lparr>q_fd = 5, q_seekable = True, q_append = True, q_ref = 3,
             q_init = True, q_head = Some 12\<rparr>"
  have t: "threads waited_state 11 = Some ?a" by (simp add: waited_state_def)
  have c: "cbs waited_state (at_cb ?a) = Some handle_signal"
    by (simp add: waited_state_def worker_rec_def)
  have q: "queues waited_state (at_q ?a) = Some ?q"
    by (simp add: waited_state_def worker_rec_def)
  have lst: "chain (threads waited_state) (q_head ?q) ([12] @ 11 # [10])"
    by (simp add: waited_state_def worker_rec_def)
  have pv: "prevs (threads waited_state) None ([12] @ 11 # [10])"
    by (simp add: waited_state_def worker_rec_def)
  have ext: "\<forall>x. \<exists>zs. trace (id x) = trace x @ zs" by simp
  have "cleanup linux_consts id 11 waited_state \<noteq> None"
    by (simp add: waited_defs cleanup_defs)
  then obtain s' where run: "cleanup linux_consts id 11 waited_state = Some s'" by auto
  have first: "trace s' =
           [Copy_ret 11 2 (- 1), Swap_running 11 (- 1) 0, Wake_running 11,
            Swap_err 11 2 0x80000073 125, Wake_err 2, Swap_fut 1 0, Wake_fut,
            Mutex_lock 1, Unlink 11, Cond_broadcast 1, Mutex_unlock 1, Sigqueue 10 7]
       \<and> map_option cb_err (cbs s' 2) = Some 125 \<and> map_option cb_ret (cbs s' 2) = Some (- 1)
       \<and> map_option at_running (threads s' 11) = Some 0
       \<and> map_option at_next (threads s' 12) = Some (Some 10)
       \<and> map_option at_prev (threads s' 10) = Some (Some 12)"
    using cleanup_order[OF t c q lst pv ext run, THEN conjunct1]
    apply (elim exE conjE)
    subgoal premises p for r s2 mid
    proof -
      from p(4) have r: r by simp
      have 1: "trace s' =
           [Copy_ret 11 2 (- 1), Swap_running 11 (- 1) 0, Wake_running 11,
            Swap_err 11 2 0x80000073 125, Wake_err 2, Swap_fut 1 0, Wake_fut,
            Mutex_lock 1, Unlink 11, Cond_broadcast 1, Mutex_unlock 1, Sigqueue 10 7]"
        using p(13) p(8) p(12) r by (simp add: waited_defs sigev_actions_def)
      have 2: "map_option cb_err (cbs s' 2) = Some 125 \<and> map_option cb_ret (cbs s' 2) = Some (- 1)"
        using p(10) p(1) r by (simp add: waited_defs)
      have 3: "map_option at_running (threads s' 11) = Some 0
           \<and> map_option at_next (threads s' 12) = Some (Some 10)
           \<and> map_option at_prev (threads s' 10) = Some (Some 12)"
        using p(11) r p(2)[rule_format, of 11] p(2)[rule_format, of 12] p(2)[rule_format, of 10]
        by (simp add: waited_defs)
      from 1 2 3 show ?thesis by simp
    qed
    done
  have "run linux_consts cancel_run (initial handles3) \<noteq> None"
    by (simp add: run_defs sys_defs cancel_run_def)
  then obtain \<sigma> where reach: "run linux_consts cancel_run (initial handles3) = Some \<sigma>" by auto
  have pc: "pcs \<sigma> 10 = Some At_cleanup"
    using reach by (auto simp: run_defs sys_defs cancel_run_def split: if_splits)
  have "threads (mem \<sigma>) 10 \<noteq> None"
    using reach by (auto simp: run_defs sys_defs cancel_run_def split: if_splits)
  then obtain b where b: "threads (mem \<sigma>) 10 = Some b" by auto
  have neg: "at_running b < 0"
    using reach b by (auto simp: run_defs sys_defs cancel_run_def split: if_splits)
  from cleanup_order[OF t c q lst pv ext run, THEN conjunct2, rule_format, of cancel_run handles3 \<sigma> 10 b]
    reach pc b neg
  have "at_running b = - 1" by simp
  with b have 4: "map_option at_running (threads (mem \<sigma>) 10) = Some (- 1)" by simp
  from run first reach pc 4 show ?thesis by blast
qed

subsection \<open>Sequenced operations\<close>

lemma in_io_sequenced:
  assumes reach: "run K evs (initial H) = Some \<sigma>"
    and pc: "pcs \<sigma> u = Some In_io" and b: "threads (mem \<sigma>) u = Some b"
    and qu: "queues (mem \<sigma>) (at_q b) = Some qu"
  shows "\<exists>ts la ea. ts = la @ u # ea
           \<and> chain (threads (mem \<sigma>)) (q_head qu) ts
           \<and> set ts = linked \<sigma> (at_q b)
           \<and> seq_ok (sequenced_io \<sigma> qu) (is_write (threads (mem \<sigma>))) ts"
proof -
  from sys_inv_run[OF reach] have li: "list_inv \<sigma>" by (simp add: sys_inv_def)
  from list_invD[OF li qu] obtain ts where ql: "queue_list \<sigma> (at_q b) qu ts" ..
  have "u \<in> linked \<sigma> (at_q b)" using pc b by (auto simp: linked_def)
  with ql have "u \<in> set ts" by (simp add: queue_list_def)
  then obtain la ea where ts: "ts = la @ u # ea" by (auto simp: in_set_conv_decomp)
  from ql have "chain (threads (mem \<sigma>)) (q_head qu) ts" "set ts = linked \<sigma> (at_q b)"
    "seq_ok (sequenced_io \<sigma> qu) (is_write (threads (mem \<sigma>))) ts"
    by (simp_all add: queue_list_def)
  with ts show ?thesis by blast
qed

text \<open>
  Claim C1. A worker in the list of its queue, with the workers \<open>earlier\<close> behind it:
  lines 343 to 351 unlock the queue and issue the I/O call, without a wait, if the
  operation is a read, or a write on a queue that is not in append mode, or if no worker
  of \<open>earlier\<close> is a write; otherwise they wait on the condition variable of the queue.
  In every state that the submissions, workers and cancellations reach, a worker in its
  I/O call whose operation is a sync, or a write on a queue in append mode, has no write
  behind it in the list, and no two writes on a queue in append mode are in their I/O
  calls together.
\<close>

theorem sequenced_after_earlier_writes:
  assumes t: "threads s t = Some a" and q: "queues s (at_q a) = Some q"
    and lst: "chain (threads s) (q_head q) (later @ t # earlier)"
    and call: "io_call K (at_op a) q loc = Some cl"
  shows "io_thread_sequence K t loc s =
           Some (if at_op a = LIO_READ \<or> (at_op a = LIO_WRITE \<and> \<not> q_append q)
                    \<or> \<not> (\<exists>w \<in> set earlier. is_write (threads s) w)
                 then (True, emits [Mutex_unlock (at_q a), Io_issue t cl] s)
                 else (False, emits [Cond_wait (at_q a)] s))
       \<and> (\<forall>evs H \<sigma> u b qu.
             run K evs (initial H) = Some \<sigma> \<and> pcs \<sigma> u = Some In_io
             \<and> threads (mem \<sigma>) u = Some b \<and> queues (mem \<sigma>) (at_q b) = Some qu
             \<and> at_op b \<noteq> LIO_READ \<and> (at_op b \<noteq> LIO_WRITE \<or> q_append qu) \<longrightarrow>
               (\<exists>la ea. chain (threads (mem \<sigma>)) (q_head qu) (la @ u # ea)
                      \<and> \<not> (\<exists>w \<in> set ea. is_write (threads (mem \<sigma>)) w))
             \<and> \<not> (\<exists>v d. v \<noteq> u \<and> pcs \<sigma> v = Some In_io \<and> threads (mem \<sigma>) v = Some d
                         \<and> at_q d = at_q b \<and> at_op d = LIO_WRITE \<and> at_op b = LIO_WRITE))"
proof (intro conjI allI impI)
  from io_thread_sequence_decides[OF t q lst call]
  show "io_thread_sequence K t loc s =
           Some (if at_op a = LIO_READ \<or> (at_op a = LIO_WRITE \<and> \<not> q_append q)
                    \<or> \<not> (\<exists>w \<in> set earlier. is_write (threads s) w)
                 then (True, emits [Mutex_unlock (at_q a), Io_issue t cl] s)
                 else (False, emits [Cond_wait (at_q a)] s))"
    by (auto simp: needs_sequencing_def)
next
  fix evs H \<sigma> u b qu
  assume h: "run K evs (initial H) = Some \<sigma> \<and> pcs \<sigma> u = Some In_io
             \<and> threads (mem \<sigma>) u = Some b \<and> queues (mem \<sigma>) (at_q b) = Some qu
             \<and> at_op b \<noteq> LIO_READ \<and> (at_op b \<noteq> LIO_WRITE \<or> q_append qu)"
  then have reach: "run K evs (initial H) = Some \<sigma>" and pc: "pcs \<sigma> u = Some In_io"
    and b: "threads (mem \<sigma>) u = Some b" and qu: "queues (mem \<sigma>) (at_q b) = Some qu"
    and ns: "needs_sequencing (at_op b) (q_append qu)"
    by (simp_all add: needs_sequencing_def)
  from in_io_sequenced[OF reach pc b qu] obtain ts la ea where
    ts: "ts = la @ u # ea" and ch: "chain (threads (mem \<sigma>)) (q_head qu) ts"
    and st: "set ts = linked \<sigma> (at_q b)"
    and so: "seq_ok (sequenced_io \<sigma> qu) (is_write (threads (mem \<sigma>))) ts"
    by blast
  have exu: "sequenced_io \<sigma> qu u" using pc b ns by (simp add: sequenced_io_def)
  from seq_ok_after[OF so[unfolded ts] exu] ch ts
  show "\<exists>la ea. chain (threads (mem \<sigma>)) (q_head qu) (la @ u # ea)
                      \<and> \<not> (\<exists>w \<in> set ea. is_write (threads (mem \<sigma>)) w)"
    by blast
  show "\<not> (\<exists>v d. v \<noteq> u \<and> pcs \<sigma> v = Some In_io \<and> threads (mem \<sigma>) v = Some d
                         \<and> at_q d = at_q b \<and> at_op d = LIO_WRITE \<and> at_op b = LIO_WRITE)"
  proof
    assume "\<exists>v d. v \<noteq> u \<and> pcs \<sigma> v = Some In_io \<and> threads (mem \<sigma>) v = Some d
                         \<and> at_q d = at_q b \<and> at_op d = LIO_WRITE \<and> at_op b = LIO_WRITE"
    then obtain v d where v: "v \<noteq> u" "pcs \<sigma> v = Some In_io" "threads (mem \<sigma>) v = Some d"
      "at_q d = at_q b" "at_op d = LIO_WRITE" "at_op b = LIO_WRITE"
      by blast
    from v(6) ns have app: "q_append qu" by (simp add: needs_sequencing_def)
    have "v \<in> linked \<sigma> (at_q b)" using v by (auto simp: linked_def)
    with st have vin: "v \<in> set ts" by simp
    have uin: "u \<in> set ts" by (simp add: ts)
    have exv: "sequenced_io \<sigma> qu v"
      using v app by (simp add: sequenced_io_def needs_sequencing_def LIO_WRITE_def LIO_READ_def)
    have wu: "is_write (threads (mem \<sigma>)) u" using b v(6) by (simp add: is_write_def)
    have wv: "is_write (threads (mem \<sigma>)) v" using v by (simp add: is_write_def)
    from seq_ok_exclusive[OF so uin vin _ exu wu exv wv] v(1) show False by simp
  qed
qed

theorem sequenced_after_earlier_writes_witness:
  "is_write (threads sync_waits_state) 10
   \<and> io_thread_sequence linux_consts 11 locals5 sync_waits_state =
       Some (False, emits [Cond_wait 1] sync_waits_state)
   \<and> (\<exists>\<sigma>. run linux_consts sync_issued (initial handles3) = Some \<sigma>
         \<and> pcs \<sigma> 11 = Some In_io
         \<and> (\<exists>la ea. chain (threads (mem \<sigma>)) (Some 12) (la @ 11 # ea)
                \<and> list_all (\<lambda>w. \<not> is_write (threads (mem \<sigma>)) w) ea))"
proof -
  let ?a = "\<lparr>at_td = 11, at_cb = 2, at_next = Some 10, at_prev = None, at_q = 1,
             at_running = 1, at_err = 125, at_op = 4096, at_ret = - 1\<rparr>"
  let ?q = "\<lparr>q_fd = 5, q_seekable = True, q_append = True, q_ref = 3, q_init = True,
             q_head = Some 11\<rparr>"
  have t: "threads sync_waits_state 11 = Some ?a"
    by (simp add: run_defs sys_defs)
  have q: "queues sync_waits_state (at_q ?a) = Some ?q"
    by (simp add: run_defs sys_defs)
  have lst: "chain (threads sync_waits_state) (q_head ?q) ([] @ 11 # [10])"
    by (simp add: run_defs sys_defs)
  have call: "io_call linux_consts (at_op ?a) ?q locals5 = Some (Sys_fdatasync 5)"
    by (simp add: io_call_def linux_consts_def locals5_def LIO_WRITE_def LIO_READ_def)
  have w: "is_write (threads sync_waits_state) 10"
    by (simp add: run_defs sys_defs is_write_def)
  note inst = sequenced_after_earlier_writes[OF t q lst call]
  from inst w have 1: "io_thread_sequence linux_consts 11 locals5 sync_waits_state =
       Some (False, emits [Cond_wait 1] sync_waits_state)"
    by (simp add: LIO_WRITE_def LIO_READ_def)
  have "run linux_consts sync_issued (initial handles3) \<noteq> None"
    by (simp add: run_defs sys_defs later_defs sync_issued_def)
  then obtain \<sigma> where reach: "run linux_consts sync_issued (initial handles3) = Some \<sigma>" by auto
  have pc: "pcs \<sigma> 11 = Some In_io"
    using reach by (auto simp: run_defs sys_defs later_defs sync_issued_def split: if_splits)
  have b: "threads (mem \<sigma>) 11 = Some \<lparr>at_td = 11, at_cb = 2, at_next = None, at_prev = Some 12, at_q = 1,
           at_running = 1, at_err = 125, at_op = 4096, at_ret = - 1\<rparr>"
    using reach by (auto simp: run_defs sys_defs later_defs sync_issued_def split: if_splits)
  have qu: "queues (mem \<sigma>) 1 = Some \<lparr>q_fd = 5, q_seekable = True, q_append = True, q_ref = 2, q_init = True,
           q_head = Some 12\<rparr>"
    using reach by (auto simp: run_defs sys_defs later_defs sync_issued_def split: if_splits)
  from inst[THEN conjunct2, rule_format, of sync_issued handles3 \<sigma> 11 _
            "\<lparr>q_fd = 5, q_seekable = True, q_append = True, q_ref = 2, q_init = True,
              q_head = Some 12\<rparr>"] reach pc b qu
  have 2: "\<exists>la ea. chain (threads (mem \<sigma>)) (Some 12) (la @ 11 # ea)
                \<and> list_all (\<lambda>w. \<not> is_write (threads (mem \<sigma>)) w) ea"
    by (simp add: LIO_READ_def LIO_WRITE_def list_all_iff)
  from w 1 reach pc 2 show ?thesis by blast
qed

text \<open>
  Claim C1, as the specification words it: at most one append-write or sync on a queue
  executes at a time. Two syncs on one queue are in their I/O calls together.
\<close>

theorem two_syncs_counterexample:
  "\<exists>\<sigma>. run linux_consts two_syncs (initial handles3) = Some \<sigma>
      \<and> pcs \<sigma> 10 = Some In_io \<and> pcs \<sigma> 11 = Some In_io
      \<and> map_option at_op (threads (mem \<sigma>) 10) = Some (O_DSYNC linux_consts)
      \<and> map_option at_op (threads (mem \<sigma>) 11) = Some (O_DSYNC linux_consts)
      \<and> map_option at_q (threads (mem \<sigma>) 10) = Some 1
      \<and> map_option at_q (threads (mem \<sigma>) 11) = Some 1"
  by (simp add: run_defs sys_defs two_syncs_def)

subsection \<open>The error slot is written once\<close>






end
